(* ===== verification/Emu_Prelude.thy ===== *)
theory Emu_Prelude
  imports Main "HOL-Library.Word" "HOL-Library.Monad_Syntax"
begin

unbundle bit_operations_syntax

text \<open>
  Shared vocabulary of the development: the machine integer types of the C sources, checked
  access to C arrays, and the generic lemmas the components use.

  Conventions.
  \<^item> \<open>byte_t\<close>/\<open>uint8_t\<close> is \<open>byte\<close>, \<open>uint32_t\<close> is \<open>u32\<close>, and so on; a cast to such a
    type is \<open>word_of_int\<close> or \<open>ucast\<close>, and reading one into a C \<open>int\<close> is \<open>uint\<close>.
  \<^item> C \<open>int\<close> values that count or index are \<open>int\<close>; \<open>int32\<close> wraps a value to 32 bits where the
    source can leave the range of \<open>int\<close>.
  \<^item> A C array is a list. \<open>rd\<close>, \<open>wr\<close> and \<open>memcpy\<close> are the only ways a model touches one; an
    access outside the array is \<open>None\<close>, so \<open>None\<close> in a model reads "undefined behaviour" (or,
    for a loop, "does not return"), and a theorem that an operation returns \<open>Some\<close> is a memory
    safety theorem.
\<close>

type_synonym byte = "8 word"
type_synonym u16 = "16 word"
type_synonym u32 = "32 word"
type_synonym u64 = "64 word"

named_theorems mem_simps "checked array access"

section \<open>C integers\<close>

definition int32 :: "int \<Rightarrow> int" where
  "int32 x = (x + 2 ^ 31) mod 2 ^ 32 - 2 ^ 31"

lemma int32_id [simp]: "- (2 ^ 31) \<le> x \<Longrightarrow> x < 2 ^ 31 \<Longrightarrow> int32 x = x"
  by (simp add: int32_def)

lemma int32_range: "- (2 ^ 31) \<le> int32 x \<and> int32 x < 2 ^ 31"
  using pos_mod_sign [of "2 ^ 32" "x + 2 ^ 31"] pos_mod_bound [of "2 ^ 32" "x + 2 ^ 31"]
  by (simp add: int32_def)

abbreviation to_byte :: "int \<Rightarrow> byte" where
  "to_byte x \<equiv> word_of_int x"

lemma uint_to_byte: "uint (to_byte x) = x mod 256"
  by (simp add: uint_word_of_int)

lemma uint_to_byte_id: "0 \<le> x \<Longrightarrow> x < 256 \<Longrightarrow> uint (to_byte x) = x"
  by (simp add: uint_to_byte)

lemma uint_byte_range [simp]: "0 \<le> uint (b :: byte)" "uint (b :: byte) < 256"
  using uint_lt2p [of b] by simp_all

section \<open>Checked array access\<close>

definition rd :: "'a list \<Rightarrow> int \<Rightarrow> 'a option" where
  "rd xs i = (if 0 \<le> i \<and> i < int (length xs) then Some (xs ! nat i) else None)"

definition wr :: "'a list \<Rightarrow> int \<Rightarrow> 'a \<Rightarrow> 'a list option" where
  "wr xs i v = (if 0 \<le> i \<and> i < int (length xs) then Some (xs[nat i := v]) else None)"

text \<open>\<open>memcpy dst pos src n\<close> copies the first \<open>n\<close> elements at \<open>src\<close> to \<open>dst + pos\<close>.\<close>

definition memcpy :: "'a list \<Rightarrow> int \<Rightarrow> 'a list \<Rightarrow> int \<Rightarrow> 'a list option" where
  "memcpy dst pos src n =
     (if 0 \<le> pos \<and> 0 \<le> n \<and> n \<le> int (length src) \<and> pos + n \<le> int (length dst)
      then Some (take (nat pos) dst @ take (nat n) src @ drop (nat (pos + n)) dst)
      else None)"

lemma rd_Some [mem_simps]: "0 \<le> i \<Longrightarrow> i < int (length xs) \<Longrightarrow> rd xs i = Some (xs ! nat i)"
  by (simp add: rd_def)

lemma wr_Some [mem_simps]: "0 \<le> i \<Longrightarrow> i < int (length xs) \<Longrightarrow> wr xs i v = Some (xs[nat i := v])"
  by (simp add: wr_def)

lemma rd_eq_Some_iff: "rd xs i = Some v \<longleftrightarrow> 0 \<le> i \<and> i < int (length xs) \<and> v = xs ! nat i"
  by (auto simp: rd_def)

lemma wr_eq_Some_iff:
  "wr xs i v = Some ys \<longleftrightarrow> 0 \<le> i \<and> i < int (length xs) \<and> ys = xs[nat i := v]"
  by (auto simp: wr_def)

lemma memcpy_Some [mem_simps]:
  "0 \<le> pos \<Longrightarrow> 0 \<le> n \<Longrightarrow> n \<le> int (length src) \<Longrightarrow> pos + n \<le> int (length dst) \<Longrightarrow>
   memcpy dst pos src n = Some (take (nat pos) dst @ take (nat n) src @ drop (nat (pos + n)) dst)"
  by (simp add: memcpy_def)

lemma memcpy_length: "memcpy dst pos src n = Some dst' \<Longrightarrow> length dst' = length dst"
  by (auto simp: memcpy_def nat_add_distrib split: if_splits)

lemma memcpy_nth:
  assumes "memcpy dst pos src n = Some dst'" and "i < length dst"
  shows "dst' ! i = (if nat pos \<le> i \<and> i < nat pos + nat n then src ! (i - nat pos) else dst ! i)"
  using assms
  by (auto simp: memcpy_def nth_append nat_add_distrib split: if_splits)

section \<open>Rings: a window of a circular array\<close>

text \<open>
  \<open>ring buf R K\<close> is the list of the \<open>K\<close> elements that start at index \<open>R\<close> of the circular array
  \<open>buf\<close>. Appending at the window's end, and dropping from its start, are what the circular
  buffers of the emulator do.
\<close>

definition ring :: "'a list \<Rightarrow> nat \<Rightarrow> nat \<Rightarrow> 'a list" where
  "ring buf R K = map (\<lambda>i. buf ! ((R + i) mod length buf)) [0..<K]"

lemma length_ring [simp]: "length (ring buf R K) = K"
  by (simp add: ring_def)

lemma ring_nth: "i < K \<Longrightarrow> ring buf R K ! i = buf ! ((R + i) mod length buf)"
  by (simp add: ring_def)

lemma ring_0 [simp]: "ring buf R 0 = []"
  by (simp add: ring_def)

lemma wrap_mod: "(a::nat) < 2 * n \<Longrightarrow> a mod n = (if a < n then a else a - n)"
  by (simp add: mod_if)

lemma ring_append:
  assumes R: "R < length buf" and K: "K + n \<le> length buf"
    and W: "W = (R + K) mod length buf" "W + n \<le> length buf"
    and len: "length b = length buf" "n \<le> length src"
    and upd: "\<And>j. j < length buf \<Longrightarrow>
      b ! j = (if W \<le> j \<and> j < W + n then src ! (j - W) else buf ! j)"
  shows "ring b R (K + n) = ring buf R K @ take n src"
proof (rule nth_equalityI)
  show "length (ring b R (K + n)) = length (ring buf R K @ take n src)"
    using len by simp
next
  fix i assume "i < length (ring b R (K + n))"
  then have i: "i < K + n" by simp
  let ?N = "length buf" and ?j = "(R + i) mod length buf"
  have j: "?j = (if R + i < ?N then R + i else R + i - ?N)" "?j < ?N"
    using R K i by (auto simp: wrap_mod)
  have W': "W = (if R + K < ?N then R + K else R + K - ?N)"
    using R K W by (simp add: wrap_mod)
  have lhs: "ring b R (K + n) ! i = (if W \<le> ?j \<and> ?j < W + n then src ! (?j - W) else buf ! ?j)"
    using i upd [OF j(2)] by (simp add: ring_nth len)
  show "ring b R (K + n) ! i = (ring buf R K @ take n src) ! i"
  proof (cases "i < K")
    case True
    then have "\<not> (W \<le> ?j \<and> ?j < W + n)"
      using K R W' j(1) by (auto split: if_splits)
    then show ?thesis using True lhs by (simp only: if_False) (simp add: nth_append ring_nth)
  next
    case False
    then obtain m where m: "i = K + m" using le_Suc_ex by (metis not_less)
    then have "?j = W + m"
      using K R i W(2) W' j(1) by (auto split: if_splits)
    then show ?thesis using i lhs m by (simp add: nth_append)
  qed
qed

lemma ring_drop:
  assumes "n \<le> K"
  shows "ring buf ((R + n) mod length buf) (K - n) = drop n (ring buf R K)"
proof (rule nth_equalityI)
  show "length (ring buf ((R + n) mod length buf) (K - n)) = length (drop n (ring buf R K))"
    by simp
next
  fix i assume "i < length (ring buf ((R + n) mod length buf) (K - n))"
  then show "ring buf ((R + n) mod length buf) (K - n) ! i = drop n (ring buf R K) ! i"
    using assms by (simp add: ring_nth mod_add_left_eq add.assoc)
qed

lemma ring_take_contiguous:
  assumes "n \<le> K" and "R + n \<le> length buf"
  shows "take n (ring buf R K) = take n (drop R buf)"
  using assms by (intro nth_equalityI) (auto simp: ring_nth)

lemma ring_wrap:
  assumes "R \<le> length buf" and "length buf - R \<le> K" and "K \<le> length buf"
  shows "ring buf R K = drop R buf @ take (K - (length buf - R)) buf"
  using assms
  by (intro nth_equalityI) (auto simp: ring_nth nth_append wrap_mod add.commute)

end
