(* ===== verification/Goldfish_Base.thy ===== *)
theory Goldfish_Base
  imports Emu_Prelude
begin

unbundle bit_operations_syntax

text \<open>
  What the models of the goldfish board devices (\<open>hw/goldfish_*.c\<close>) share: how a register handler
  can fail, the effects it has on the rest of the machine, and the contract of a device whose
  interrupt line is a function of its state.

  A register handler is a function from the device state (and the guest's offset and value) to a
  result, the new state and the list of effects in the order the C code performs them.
\<close>

text \<open>
  \<open>Cpu_abort\<close> is \<open>cpu_abort\<close>, which stops the emulator with a message; \<open>Undefined\<close> is undefined
  behaviour of C (a shift by 32 or more, an access outside an array).
\<close>

datatype stop = Cpu_abort | Undefined

type_synonym 'a outcome = "stop + 'a"

lemma map_sum_Inr_iff: "map_sum f g x = Inr y \<longleftrightarrow> (\<exists>z. x = Inr z \<and> y = g z)"
  by (cases x) auto

text \<open>
  The calls a handler makes: \<open>Set_irq n l\<close> is \<open>goldfish_device_set_irq(&s->dev, n, l)\<close> (or
  \<open>qemu_irq_raise\<close>/\<open>qemu_irq_lower\<close> for a device that holds its line directly), \<open>Mem_write a bs\<close> is
  \<open>cpu_memory_rw_debug(env, a, bs, len, 1)\<close>, \<open>Chr_write bs\<close> is \<open>qemu_chr_write\<close>, \<open>Mod_timer t\<close> and
  \<open>Del_timer\<close> are \<open>qemu_mod_timer\<close> and \<open>qemu_del_timer\<close>.
\<close>

datatype effect =
    Set_irq int int
  | Mem_write u32 "byte list"
  | Chr_write "byte list"
  | Mod_timer int
  | Del_timer

text \<open>\<open>struct goldfish_device\<close>; the links \<open>next\<close> and \<open>prev\<close> are the order of the device list.\<close>

record goldfish_device =
  reported_state :: u32
  dev_name :: string
  dev_id :: u32
  dev_base :: u32
  dev_size :: u32
  dev_irq :: u32
  irq_count :: u32

section \<open>Level-triggered devices\<close>

text \<open>
  The level of a device's line after a list of effects: the last \<open>Set_irq\<close> on line 0 wins, and a
  non-zero level is high.
\<close>

fun line_after :: "bool \<Rightarrow> effect list \<Rightarrow> bool" where
  "line_after l [] = l"
| "line_after l (Set_irq n v # es) = line_after (if n = 0 then v \<noteq> 0 else l) es"
| "line_after l (_ # es) = line_after l es"

lemma line_after_append: "line_after l (es @ fs) = line_after (line_after l es) fs"
  by (induction l es rule: line_after.induct) auto

text \<open>A run of device operations from a state and a line level, stopping where one stops.\<close>

fun device_run ::
  "('s \<Rightarrow> 'op \<Rightarrow> ('s \<times> effect list) outcome) \<Rightarrow> 's \<Rightarrow> bool \<Rightarrow> 'op list \<Rightarrow> ('s \<times> bool) outcome" where
  "device_run step s l [] = Inr (s, l)"
| "device_run step s l (x # xs) =
     (case step s x of Inl e \<Rightarrow> Inl e
      | Inr (s', es) \<Rightarrow> device_run step s' (line_after l es) xs)"

text \<open>
  The contract of a level-triggered device: every operation that completes keeps the device
  invariant and, if the line showed \<open>wants\<close> before, it shows \<open>wants\<close> after. The client result is
  that the line is in step with the device state after any sequence of operations.
\<close>

locale level_device =
  fixes inv :: "'s \<Rightarrow> bool"
    and wants :: "'s \<Rightarrow> bool"
    and step :: "'s \<Rightarrow> 'op \<Rightarrow> ('s \<times> effect list) outcome"
  assumes step_inv: "inv s \<Longrightarrow> step s x = Inr (s', es) \<Longrightarrow> inv s'"
    and step_line: "inv s \<Longrightarrow> step s x = Inr (s', es) \<Longrightarrow> line_after (wants s) es = wants s'"
begin

lemma run_line:
  "inv s \<Longrightarrow> device_run step s (wants s) xs = Inr (s', l) \<Longrightarrow> inv s' \<and> l = wants s'"
proof (induction xs arbitrary: s)
  case Nil
  then show ?case by auto
next
  case (Cons x xs)
  then obtain s1 es where s1: "step s x = Inr (s1, es)"
    and rest: "device_run step s1 (line_after (wants s) es) xs = Inr (s', l)"
    by (auto split: sum.splits)
  from step_inv [OF Cons.prems(1) s1] rest step_line [OF Cons.prems(1) s1]
  show ?case using Cons.IH [of s1] by simp
qed

end

end
