(* ===== verification/Modem_Calls.thy ===== *)
theory Modem_Calls
  imports Goldfish_Base
begin

text \<open>
  The voice calls of the emulated modem: the call table of \<open>telephony/android_modem.c\<close> with the
  operations of the console and of the AT commands on it, the numbers of other emulators
  (\<open>telephony/remote_call.c\<close>), and the timers that make a dialled call ring and connect
  (\<open>telephony/sysdeps_qemu.c\<close>).

  A pointer into the table is the index of its slot. What goes to the network and to the guest is a
  list of effects; whether a connection to another emulator can be opened is an argument. A failed
  assertion is \<open>Cpu_abort\<close>.
\<close>

section \<open>Numbers of other emulators\<close>

definition REMOTE_NUMBER_BASE :: int where "REMOTE_NUMBER_BASE = 5554"
definition REMOTE_NUMBER_MAX :: int where "REMOTE_NUMBER_MAX = 16"
definition REMOTE_CONSOLE_PORT :: int where "REMOTE_CONSOLE_PORT = 5554"

lemmas remote_consts = REMOTE_NUMBER_BASE_def REMOTE_NUMBER_MAX_def REMOTE_CONSOLE_PORT_def

definition remote_number_from_port :: "int \<Rightarrow> int" where
  "remote_number_from_port port =
     (if odd port then -1
      else
        (let port = (port - REMOTE_CONSOLE_PORT) div 2
         in if port < 0 \<or> port \<ge> REMOTE_NUMBER_MAX then -1 else REMOTE_NUMBER_BASE + port * 2))"

definition remote_number_to_port :: "int \<Rightarrow> int" where
  "remote_number_to_port number =
     (if odd number then -1
      else
        (let number = (number - REMOTE_NUMBER_BASE) div 2
         in if number < 0 \<or> number \<ge> REMOTE_NUMBER_MAX then -1 else REMOTE_CONSOLE_PORT + number * 2))"

text \<open>
  \<open>strtol(number, &end, 10)\<close>: the value and the rest of the string. A value outside the range of
  \<open>long\<close> is not cut off here; the caller refuses it either way.
\<close>

definition is_digit :: "char \<Rightarrow> bool" where
  "is_digit c \<longleftrightarrow> 48 \<le> (of_char c :: nat) \<and> (of_char c :: nat) \<le> 57"

fun decimal :: "int \<Rightarrow> string \<Rightarrow> int" where
  "decimal n [] = n"
| "decimal n (c # cs) = decimal (10 * n + (of_char c - 48)) cs"

definition is_space :: "char \<Rightarrow> bool" where
  "is_space c \<longleftrightarrow> (of_char c :: nat) = 32 \<or> 9 \<le> (of_char c :: nat) \<and> (of_char c :: nat) \<le> 13"

definition strtol :: "string \<Rightarrow> int \<times> string" where
  "strtol s =
     (let p = dropWhile is_space s;
          (neg, p) = (case p of c # cs \<Rightarrow> if c = CHR ''-'' then (True, cs) else if c = CHR ''+'' then (False, cs) else (False, p)
                      | [] \<Rightarrow> (False, p));
          ds = takeWhile is_digit p
      in if ds = [] then (0, s) else ((if neg then - decimal 0 ds else decimal 0 ds), dropWhile is_digit p))"

definition remote_number_string_to_port :: "string \<Rightarrow> int" where
  "remote_number_string_to_port number =
     (case strtol number of (num, end') \<Rightarrow>
        if end' \<noteq> [] \<or> num < - (2 ^ 31) \<or> num \<ge> 2 ^ 31 then -1 else remote_number_to_port num)"

section \<open>Timers\<close>

text \<open>
  The pool of timers: \<open>opaque t\<close> is the argument of the callback when \<open>t\<close> has a host timer, \<open>pending\<close> the
  timers whose host timer is armed. Destroying a timer that is in the free list already closes the
  list into a cycle, and freeing an armed host timer leaves it in the host's list: both are \<open>Undefined\<close>.
\<close>

definition MAX_TIMERS :: nat where "MAX_TIMERS = 32"

record sys_timers =
  free_timers :: "nat list"
  opaque :: "nat \<Rightarrow> nat option"
  pending :: "nat list"

definition sys_init_timers :: sys_timers where
  "sys_init_timers = \<lparr>free_timers = [0..<MAX_TIMERS], opaque = (\<lambda>t. None), pending = []\<rparr>"

definition sys_timer_create :: "sys_timers \<Rightarrow> nat option \<times> sys_timers" where
  "sys_timer_create ts =
     (case free_timers ts of
        [] \<Rightarrow> (None, ts)
      | t # rest \<Rightarrow> (Some t, ts\<lparr>free_timers := rest, opaque := (opaque ts)(t := None)\<rparr>))"

definition sys_timer_set :: "nat option \<Rightarrow> nat \<Rightarrow> sys_timers \<Rightarrow> sys_timers outcome" where
  "sys_timer_set timer arg ts =
     (case timer of
        None \<Rightarrow> Inl Undefined
      | Some t \<Rightarrow>
          if opaque ts t \<noteq> None \<and> opaque ts t \<noteq> Some arg \<and> t \<in> set (pending ts) then Inl Undefined
          else Inr (ts\<lparr>opaque := (opaque ts)(t := Some arg), pending := List.insert t (pending ts)\<rparr>))"

definition sys_timer_destroy :: "nat \<Rightarrow> sys_timers \<Rightarrow> sys_timers outcome" where
  "sys_timer_destroy t ts =
     (if t \<in> set (free_timers ts) then Inl Undefined
      else Inr (ts\<lparr>free_timers := t # free_timers ts, opaque := (opaque ts)(t := None),
                   pending := (if opaque ts t = None then pending ts else removeAll t (pending ts))\<rparr>))"

section \<open>The call table\<close>

datatype call_dir = A_CALL_OUTBOUND | A_CALL_INBOUND
datatype call_state = A_CALL_ACTIVE | A_CALL_HELD | A_CALL_DIALING | A_CALL_ALERTING | A_CALL_INCOMING | A_CALL_WAITING
datatype call_mode = A_CALL_VOICE | A_CALL_DATA | A_CALL_FAX | A_CALL_UNKNOWN

record voice_call =
  call_id :: int
  dir :: call_dir
  cstate :: call_state
  mode :: call_mode
  multi :: int
  number :: string
  timer :: "nat option"
  is_remote :: bool

definition MAX_CALLS :: nat where "MAX_CALLS = 4"
definition A_CALL_NUMBER_MAX_SIZE :: nat where "A_CALL_NUMBER_MAX_SIZE = 16"

record call_table =
  calls :: "voice_call list"
  call_count :: nat
  systimers :: sys_timers

datatype remote_type = REMOTE_CALL_HOLD | REMOTE_CALL_ACCEPT

datatype call_effect =
    Unsol string
  | Remote_other string remote_type
  | Remote_cancel string
  | Remote_dial string

type_synonym call_result = "(call_table \<times> call_effect list) outcome"

text \<open>The table in static storage: every slot zero.\<close>

definition empty_slot :: voice_call where
  "empty_slot = \<lparr>call_id = 0, dir = A_CALL_OUTBOUND, cstate = A_CALL_ACTIVE, mode = A_CALL_VOICE, multi = 0,
     number = [], timer = None, is_remote = False\<rparr>"

definition empty_table :: call_table where
  "empty_table = \<lparr>calls = replicate MAX_CALLS empty_slot, call_count = 0, systimers = sys_init_timers\<rparr>"

definition amodem_get_call :: "call_table \<Rightarrow> int \<Rightarrow> voice_call option" where
  "amodem_get_call m index = (if index < 0 \<or> index \<ge> int (call_count m) then None else Some (calls m ! nat index))"

text \<open>The smallest identifier that no call in the table has; the search stops after \<open>call_count\<close> candidates.\<close>

definition free_id :: "call_table \<Rightarrow> int" where
  "free_id m =
     (let used = map call_id (take (call_count m) (calls m))
      in case find (\<lambda>i. int i + 1 \<notin> set used) [0..<call_count m] of
           None \<Rightarrow> int (call_count m) + 1
         | Some i \<Rightarrow> int i + 1)"

definition amodem_alloc_call :: "call_table \<Rightarrow> nat option \<times> call_table" where
  "amodem_alloc_call m =
     (let count = call_count m
      in if count < MAX_CALLS
         then (Some count, m\<lparr>calls := (calls m)[count := (calls m ! count)\<lparr>call_id := free_id m\<rparr>], call_count := count + 1\<rparr>)
         else (None, m))"

definition amodem_free_call :: "call_table \<Rightarrow> nat \<Rightarrow> call_result" where
  "amodem_free_call m nn =
     (let vcall = calls m ! nn;
          cancel = (if is_remote vcall then [Remote_cancel (number vcall)] else [])
      in case (case timer vcall of None \<Rightarrow> Inr (systimers m) | Some t \<Rightarrow> sys_timer_destroy t (systimers m)) of
           Inl e \<Rightarrow> Inl e
         | Inr ts \<Rightarrow>
             (let cs = (calls m)[nn := vcall\<lparr>timer := None, is_remote := False\<rparr>]
              in if \<not> nn < call_count m then Inl Cpu_abort
                 else Inr (m\<lparr>calls := take nn cs @ take (call_count m - 1 - nn) (drop (nn + 1) cs) @ drop (call_count m - 1) cs,
                             call_count := call_count m - 1, systimers := ts\<rparr>, cancel)))"

fun find_slot :: "(voice_call \<Rightarrow> bool) \<Rightarrow> voice_call list \<Rightarrow> nat \<Rightarrow> nat option" where
  "find_slot p [] i = None"
| "find_slot p (c # cs) i = (if p c then Some i else find_slot p cs (i + 1))"

definition amodem_find_call :: "call_table \<Rightarrow> int \<Rightarrow> nat option" where
  "amodem_find_call m i = find_slot (\<lambda>c. call_id c = i) (take (call_count m) (calls m)) 0"

definition amodem_find_call_by_number :: "call_table \<Rightarrow> string \<Rightarrow> nat option" where
  "amodem_find_call_by_number m num = find_slot (\<lambda>c. number c = num) (take (call_count m) (calls m)) 0"

definition amodem_send_calls_update :: "call_effect list" where
  "amodem_send_calls_update = [Unsol (''RING'' @ [CHR 0x0D])]"

definition set_slot :: "call_table \<Rightarrow> nat \<Rightarrow> (voice_call \<Rightarrow> voice_call) \<Rightarrow> call_table" where
  "set_slot m nn f = m\<lparr>calls := (calls m)[nn := f (calls m ! nn)]\<rparr>"

text \<open>The number as it is stored: at most 16 characters.\<close>

definition clip_number :: "string \<Rightarrow> string" where
  "clip_number num = take A_CALL_NUMBER_MAX_SIZE num"

definition amodem_add_inbound_call :: "call_table \<Rightarrow> string \<Rightarrow> int \<times> call_table \<times> call_effect list" where
  "amodem_add_inbound_call m num =
     (case amodem_alloc_call m of
        (None, m) \<Rightarrow> (-1, m, [])
      | (Some nn, m) \<Rightarrow>
          (0, set_slot m nn (\<lambda>c. c\<lparr>dir := A_CALL_INBOUND, cstate := A_CALL_INCOMING, mode := A_CALL_VOICE, multi := 0,
                is_remote := (remote_number_string_to_port num > 0), number := clip_number num\<rparr>),
           amodem_send_calls_update))"

definition acall_set_state :: "call_table \<Rightarrow> nat \<Rightarrow> call_state \<Rightarrow> call_table \<times> call_effect list" where
  "acall_set_state m nn st =
     (let c = calls m ! nn
      in if st = cstate c then (m, [])
         else
           (set_slot m nn (\<lambda>c. c\<lparr>cstate := st\<rparr>),
            if is_remote c then
              (case st of
                 A_CALL_HELD \<Rightarrow> [Remote_other (number c) REMOTE_CALL_HOLD]
               | A_CALL_ACTIVE \<Rightarrow> [Remote_other (number c) REMOTE_CALL_ACCEPT]
               | _ \<Rightarrow> [])
            else []))"

definition amodem_update_call :: "call_table \<Rightarrow> string \<Rightarrow> call_state \<Rightarrow> int \<times> call_table \<times> call_effect list" where
  "amodem_update_call m num st =
     (case amodem_find_call_by_number m num of
        None \<Rightarrow> (-1, m, [])
      | Some nn \<Rightarrow> (case acall_set_state m nn st of (m, es) \<Rightarrow> (0, m, es @ amodem_send_calls_update)))"

definition amodem_disconnect_call :: "call_table \<Rightarrow> string \<Rightarrow> (int \<times> call_table \<times> call_effect list) outcome" where
  "amodem_disconnect_call m num =
     (case amodem_find_call_by_number m num of
        None \<Rightarrow> Inr (-1, m, [])
      | Some nn \<Rightarrow> map_sum id (\<lambda>(m, es). (0, m, es @ amodem_send_calls_update)) (amodem_free_call m nn))"

section \<open>Dialling and the timer event\<close>

text \<open>\<open>ok\<close> says whether \<open>remote_call_dial\<close> could open its connection.\<close>

definition voice_call_event :: "bool \<Rightarrow> call_table \<Rightarrow> nat \<Rightarrow> call_result" where
  "voice_call_event ok m nn =
     (let c = calls m ! nn
      in map_sum id (\<lambda>(m, es). (m, es @ amodem_send_calls_update))
           (case cstate c of
              A_CALL_DIALING \<Rightarrow>
                (let m = set_slot m nn (\<lambda>c. c\<lparr>cstate := A_CALL_ALERTING\<rparr>)
                 in if is_remote c then
                      (if ok then Inr (m, [Remote_dial (number c)])
                       else map_sum id (\<lambda>(m, es). (m, Remote_dial (number c) # es)) (amodem_free_call m nn))
                    else map_sum id (\<lambda>ts. (m\<lparr>systimers := ts\<rparr>, [])) (sys_timer_set (timer c) nn (systimers m)))
            | A_CALL_ALERTING \<Rightarrow> Inr (set_slot m nn (\<lambda>c. c\<lparr>cstate := A_CALL_ACTIVE\<rparr>), [])
            | _ \<Rightarrow> Inl Cpu_abort))"

definition remote_voice_call_event :: "call_table \<Rightarrow> nat \<Rightarrow> bool \<Rightarrow> call_result" where
  "remote_voice_call_event m nn success =
     (if success then Inr (m, [])
      else map_sum id (\<lambda>(m, es). (m, es @ amodem_send_calls_update)) (amodem_free_call m nn))"

text \<open>The host timer \<open>t\<close> expires: it is no longer armed, and its callback gets the slot it was set with.\<close>

definition timer_fires :: "bool \<Rightarrow> call_table \<Rightarrow> nat \<Rightarrow> call_result" where
  "timer_fires ok m t =
     (case opaque (systimers m) t of
        Some nn \<Rightarrow>
          if t \<in> set (pending (systimers m))
          then voice_call_event ok (m\<lparr>systimers := (systimers m)\<lparr>pending := removeAll t (pending (systimers m))\<rparr>\<rparr>) nn
          else Inr (m, [])
      | None \<Rightarrow> Inr (m, []))"

text \<open>\<open>handleDial\<close>: the answer, \<open>None\<close> for \<open>OK\<close>.\<close>

definition handleDial :: "call_table \<Rightarrow> string \<Rightarrow> (string option \<times> call_table) outcome" where
  "handleDial m cmd =
     (case amodem_alloc_call m of
        (None, m) \<Rightarrow> Inr (Some ''ERROR: TOO MANY CALLS'', m)
      | (Some nn, m) \<Rightarrow>
          if take 1 cmd \<noteq> ''D'' then Inl Cpu_abort
          else
          (let cmd = tl cmd;
               len = (if cmd \<noteq> [] \<and> last cmd = CHR '';'' then length cmd - 1 else length cmd);
               num = clip_number (take len cmd);
               (t, ts) = sys_timer_create (systimers m);
               m = set_slot m nn (\<lambda>c. c\<lparr>dir := A_CALL_OUTBOUND, cstate := A_CALL_DIALING, mode := A_CALL_VOICE, multi := 0,
                     number := num, is_remote := (remote_number_string_to_port num > 0), timer := t\<rparr>)
           in map_sum id (\<lambda>ts. (None, m\<lparr>systimers := ts\<rparr>)) (sys_timer_set t nn ts)))"

section \<open>Answering and hanging up\<close>

lemma set_slot_count [simp]: "call_count (set_slot m nn f) = call_count m" "systimers (set_slot m nn f) = systimers m"
  by (simp_all add: set_slot_def)

lemma set_state_count: "call_count (fst (acall_set_state m nn st)) = call_count m"
  by (simp add: acall_set_state_def Let_def)

lemma free_call_count: "amodem_free_call m nn = Inr (m', es) \<Longrightarrow> nn < call_count m \<and> call_count m' = call_count m - 1"
  by (auto simp: amodem_free_call_def Let_def split: sum.splits if_splits)

text \<open>
  A loop that changes the state of calls, from slot \<open>nn\<close> on: \<open>f\<close> gives the new state of a call, if it
  is to change.
\<close>

function state_loop :: "(voice_call \<Rightarrow> call_state option) \<Rightarrow> call_table \<Rightarrow> nat \<Rightarrow> call_table \<times> call_effect list" where
  "state_loop f m nn =
     (if nn < call_count m then
        (let r = (case f (calls m ! nn) of None \<Rightarrow> (m, []) | Some st \<Rightarrow> acall_set_state m nn st);
             r' = state_loop f (fst r) (nn + 1)
         in (fst r', snd r @ snd r'))
      else (m, []))"
  by pat_completeness auto
termination state_loop
  by (relation "measure (\<lambda>(f, m, nn). call_count m - nn)") (auto simp: set_state_count split: option.split)

declare state_loop.simps [simp del]

text \<open>
  A loop that releases voice calls in one of the states \<open>rel\<close> and accepts those in one of the states \<open>acc\<close>. After a
  release the same slot is looked at again, since the calls behind it move up.
\<close>

function release_loop :: "call_state list \<Rightarrow> call_state list \<Rightarrow> call_table \<Rightarrow> nat \<Rightarrow> call_result" where
  "release_loop rel acc m nn =
     (if nn < call_count m then
        (let c = calls m ! nn
         in if mode c \<noteq> A_CALL_VOICE then release_loop rel acc m (nn + 1)
            else if cstate c \<in> set rel then
              (case amodem_free_call m nn of
                 Inl e \<Rightarrow> Inl e
               | Inr (m', es) \<Rightarrow> map_sum id (\<lambda>(m'', es'). (m'', es @ es')) (release_loop rel acc m' nn))
            else if cstate c \<in> set acc then
              (let r = acall_set_state m nn A_CALL_ACTIVE
               in map_sum id (\<lambda>(m'', es'). (m'', snd r @ es')) (release_loop rel acc (fst r) (nn + 1)))
            else release_loop rel acc m (nn + 1))
      else Inr (m, []))"
  by pat_completeness auto
termination release_loop
proof (relation "measure (\<lambda>(rel, acc, m, nn). call_count m - nn)", goal_cases)
  case (3 rel acc m nn c r m' es)
  then have "call_count m' = call_count m - 1" using free_call_count by blast
  with 3 show ?case by simp
qed (auto simp: set_state_count)

declare release_loop.simps [simp del]

text \<open>\<open>handleAnswer\<close>: \<open>ATA\<close> answers, \<open>ATH\<close> refuses the first incoming call.\<close>

definition handleAnswer :: "call_table \<Rightarrow> string \<Rightarrow> call_result" where
  "handleAnswer m cmd =
     (case cmd of
        [] \<Rightarrow> Inr (m, [])
      | c # _ \<Rightarrow>
          if c = CHR ''A'' then
            Inr (state_loop (\<lambda>c. if cstate c = A_CALL_INCOMING then Some A_CALL_ACTIVE
                                  else if cstate c = A_CALL_ACTIVE then Some A_CALL_HELD else None) m 0)
          else if c = CHR ''H'' then
            (case find_slot (\<lambda>c. cstate c = A_CALL_INCOMING) (take (call_count m) (calls m)) 0 of
               None \<Rightarrow> Inr (m, [])
             | Some nn \<Rightarrow> amodem_free_call m nn)
          else Inr (m, []))"

text \<open>The first voice call on hold becomes active: \<open>+CHLD=3\<close> and \<open>+CHLD=4\<close>.\<close>

definition join_held :: "call_table \<Rightarrow> call_table \<times> call_effect list" where
  "join_held m =
     (case find_slot (\<lambda>c. mode c = A_CALL_VOICE \<and> cstate c = A_CALL_HELD) (take (call_count m) (calls m)) 0 of
        None \<Rightarrow> (m, [])
      | Some nn \<Rightarrow> acall_set_state m nn A_CALL_ACTIVE)"

definition chld_id :: "char \<Rightarrow> int" where
  "chld_id c = of_char c - 48"

definition handleHangup :: "call_table \<Rightarrow> string \<Rightarrow> (string option \<times> call_table \<times> call_effect list) outcome" where
  "handleHangup m cmd =
     (if take 6 cmd \<noteq> ''+CHLD='' then Inr (Some ''ERROR: BAD COMMAND'', m, [])
      else
        map_sum id (Pair None)
          (case drop 6 cmd of
             [] \<Rightarrow> Inr (m, [])
           | c # rest \<Rightarrow>
               if c = CHR ''0'' then release_loop [A_CALL_HELD, A_CALL_WAITING, A_CALL_INCOMING] [] m 0
               else if c = CHR ''1'' then
                 (case rest of
                    [] \<Rightarrow> release_loop [A_CALL_ACTIVE] [A_CALL_HELD, A_CALL_WAITING] m 0
                  | d # _ \<Rightarrow>
                      (case amodem_find_call m (chld_id d) of
                         None \<Rightarrow> Inr (m, [])
                       | Some nn \<Rightarrow> amodem_free_call m nn))
               else if c = CHR ''2'' then
                 (case rest of
                    [] \<Rightarrow> Inr (state_loop (\<lambda>c. if mode c \<noteq> A_CALL_VOICE then None
                                 else if cstate c = A_CALL_ACTIVE then Some A_CALL_HELD
                                 else if cstate c = A_CALL_HELD \<or> cstate c = A_CALL_WAITING then Some A_CALL_ACTIVE
                                 else None) m 0)
                  | d # _ \<Rightarrow> Inr (state_loop (\<lambda>c. if mode c = A_CALL_VOICE \<and> cstate c = A_CALL_ACTIVE \<and> call_id c \<noteq> chld_id d
                                 then Some A_CALL_HELD else None) m 0))
               else if c = CHR ''3'' \<or> c = CHR ''4'' then Inr (join_held m)
               else Inr (m, [])))"

section \<open>The table as a list of calls\<close>

definition live :: "call_table \<Rightarrow> voice_call list" where
  "live m = take (call_count m) (calls m)"

text \<open>
  The table is well formed: four slots, distinct identifiers from 1 to 4, numbers that fit, timers that
  point into the table.
\<close>

definition table_wf :: "call_table \<Rightarrow> bool" where
  "table_wf m \<longleftrightarrow> length (calls m) = 4 \<and> call_count m \<le> 4 \<and> distinct (map call_id (live m)) \<and>
     (\<forall>c \<in> set (live m). 1 \<le> call_id c \<and> call_id c \<le> 4 \<and> length (number c) \<le> 16) \<and>
     (\<forall>t nn. opaque (systimers m) t = Some nn \<longrightarrow> nn < 4)"

lemma length_live [simp]: "table_wf m \<Longrightarrow> length (live m) = call_count m"
  by (simp add: live_def table_wf_def)

lemma live_nth: "nn < call_count m \<Longrightarrow> call_count m \<le> length (calls m) \<Longrightarrow> calls m ! nn = live m ! nn"
  by (simp add: live_def)

lemma free_call_live:
  assumes "amodem_free_call m nn = Inr (m', es)" "length (calls m) = 4" "call_count m \<le> 4"
  shows "live m' = take nn (live m) @ drop (nn + 1) (live m)" "length (calls m') = 4" "call_count m' = call_count m - 1"
proof -
  have nn: "nn < call_count m" and c: "call_count m' = call_count m - 1" using free_call_count [OF assms(1)] by simp_all
  let ?cs = "(calls m)[nn := (calls m ! nn)\<lparr>timer := None, is_remote := False\<rparr>]"
  have m': "calls m' = take nn ?cs @ take (call_count m - 1 - nn) (drop (nn + 1) ?cs) @ drop (call_count m - 1) ?cs"
    using assms(1) by (auto simp: amodem_free_call_def Let_def split: sum.splits if_splits)
  show "length (calls m') = 4" using nn assms(2,3) by (simp add: m')
  show "call_count m' = call_count m - 1" by (rule c)
  have "take (call_count m - 1) (calls m') = take nn ?cs @ take (call_count m - 1 - nn) (drop (nn + 1) ?cs)"
    using nn assms(2,3) by (simp add: m')
  also have "\<dots> = take nn (calls m) @ take (call_count m - 1 - nn) (drop (nn + 1) (calls m))" by simp
  also have "take (call_count m - 1 - nn) (drop (nn + 1) (calls m)) = drop (nn + 1) (live m)"
    by (simp add: live_def drop_take)
  finally show "live m' = take nn (live m) @ drop (nn + 1) (live m)"
    using nn by (simp add: live_def c min_def)
qed

lemma set_slot_live: "live (set_slot m nn f) = (live m)[nn := f (calls m ! nn)]"
  by (simp add: live_def set_slot_def take_update_swap)

lemma set_state_live:
  assumes "nn < call_count m" "call_count m \<le> length (calls m)"
  shows "live (fst (acall_set_state m nn st)) = (live m)[nn := (live m ! nn)\<lparr>cstate := st\<rparr>]"
    and "length (calls (fst (acall_set_state m nn st))) = length (calls m)"
    and "systimers (fst (acall_set_state m nn st)) = systimers m"
proof -
  have n: "nn < length (live m)" using assms by (simp add: live_def)
  have "(live m)[nn := (live m ! nn)\<lparr>cstate := cstate (live m ! nn)\<rparr>] = live m" using n by simp
  then show "live (fst (acall_set_state m nn st)) = (live m)[nn := (live m ! nn)\<lparr>cstate := st\<rparr>]"
    using live_nth [OF assms] by (auto simp: acall_set_state_def Let_def set_slot_live)
  show "length (calls (fst (acall_set_state m nn st))) = length (calls m)"
    "systimers (fst (acall_set_state m nn st)) = systimers m"
    by (simp_all add: acall_set_state_def Let_def set_slot_def)
qed

text \<open>The list functions that the loops compute.\<close>

definition change :: "(voice_call \<Rightarrow> call_state option) \<Rightarrow> voice_call \<Rightarrow> voice_call" where
  "change f c = (case f c of None \<Rightarrow> c | Some st \<Rightarrow> c\<lparr>cstate := st\<rparr>)"

lemma upd_drop: "nn < length xs \<Longrightarrow> take (Suc nn) (xs[nn := x]) @ drop (Suc nn) (xs[nn := x]) = take nn xs @ x # drop (Suc nn) xs"
  by (simp add: upd_conv_take_nth_drop)

lemma state_loop_live:
  assumes "call_count m \<le> length (calls m)"
  shows "live (fst (state_loop f m nn)) = take nn (live m) @ map (change f) (drop nn (live m)) \<and>
    length (calls (fst (state_loop f m nn))) = length (calls m) \<and> call_count (fst (state_loop f m nn)) = call_count m \<and>
    systimers (fst (state_loop f m nn)) = systimers m"
  using assms
proof (induction f m nn rule: state_loop.induct)
  case (1 f m nn)
  show ?case
  proof (cases "nn < call_count m")
    case True
    let ?r = "case f (calls m ! nn) of None \<Rightarrow> (m, []) | Some st \<Rightarrow> acall_set_state m nn st"
    have l: "nn < length (live m)" using True 1(2) by (simp add: live_def)
    have r: "live (fst ?r) = (live m)[nn := change f (live m ! nn)]" "length (calls (fst ?r)) = length (calls m)"
      "call_count (fst ?r) = call_count m" "systimers (fst ?r) = systimers m"
      using set_state_live [OF True 1(2)] live_nth [OF True 1(2)] l
      by (auto simp: change_def set_state_count split: option.split)
    have "live (fst (state_loop f (fst ?r) (Suc nn))) = take (Suc nn) (live (fst ?r)) @ map (change f) (drop (Suc nn) (live (fst ?r)))"
      and o: "length (calls (fst (state_loop f (fst ?r) (Suc nn)))) = length (calls m)"
        "call_count (fst (state_loop f (fst ?r) (Suc nn))) = call_count m"
        "systimers (fst (state_loop f (fst ?r) (Suc nn))) = systimers m"
      using 1(1) [OF True refl] 1(2) r by simp_all
    then have "live (fst (state_loop f (fst ?r) (Suc nn))) = take nn (live m) @ map (change f) (drop nn (live m))"
      using l by (simp add: r take_Suc_conv_app_nth Cons_nth_drop_Suc [symmetric])
    with o True show ?thesis by (subst (1 2 3 4) state_loop.simps) (simp add: Let_def)
  next
    case False
    then show ?thesis by (subst (1 2 3 4) state_loop.simps) (simp add: live_def)
  qed
qed

text \<open>The timers of the calls in the table: none is in the free list, and no two calls share one.\<close>

definition call_timers :: "voice_call list \<Rightarrow> nat list" where
  "call_timers cs = concat (map (\<lambda>c. case timer c of None \<Rightarrow> [] | Some t \<Rightarrow> [t]) cs)"

definition timers_ok :: "call_table \<Rightarrow> bool" where
  "timers_ok m \<longleftrightarrow> distinct (call_timers (live m)) \<and> set (call_timers (live m)) \<inter> set (free_timers (systimers m)) = {}"

lemma free_call_ok:
  assumes "timers_ok m" "length (calls m) = 4" "call_count m \<le> 4" "nn < call_count m"
  shows "\<exists>m' es. amodem_free_call m nn = Inr (m', es) \<and> timers_ok m'"
proof -
  have n: "nn < length (live m)" using assms by (simp add: live_def)
  let ?c = "live m ! nn"
  have split: "live m = take nn (live m) @ ?c # drop (Suc nn) (live m)" using n by (rule id_take_nth_drop)
  have c: "calls m ! nn = ?c" using live_nth assms by simp
  have ct: "call_timers (live m) = call_timers (take nn (live m)) @
      (case timer ?c of None \<Rightarrow> [] | Some t \<Rightarrow> [t]) @ call_timers (drop (Suc nn) (live m))"
    by (subst split) (simp add: call_timers_def)
  have ok: "distinct (call_timers (live m))" "set (call_timers (live m)) \<inter> set (free_timers (systimers m)) = {}"
    using assms(1) by (simp_all add: timers_ok_def)
  have "\<exists>ts. (case timer ?c of None \<Rightarrow> Inr (systimers m) | Some t \<Rightarrow> sys_timer_destroy t (systimers m)) = Inr ts \<and>
      free_timers ts = (case timer ?c of None \<Rightarrow> [] | Some t \<Rightarrow> [t]) @ free_timers (systimers m)"
    using ok(2) ct by (auto simp: sys_timer_destroy_def split: option.splits)
  then obtain ts where ts: "(case timer (calls m ! nn) of None \<Rightarrow> Inr (systimers m) | Some t \<Rightarrow> sys_timer_destroy t (systimers m)) = Inr ts"
    "free_timers ts = (case timer ?c of None \<Rightarrow> [] | Some t \<Rightarrow> [t]) @ free_timers (systimers m)"
    unfolding c by blast
  then obtain m' es where m': "amodem_free_call m nn = Inr (m', es)" "systimers m' = ts"
    using assms(4) by (auto simp: amodem_free_call_def Let_def)
  have "call_timers (live m') = call_timers (take nn (live m)) @ call_timers (drop (Suc nn) (live m))"
    using free_call_live(1) [OF m'(1) assms(2,3)] by (simp add: call_timers_def)
  then have "timers_ok m'" using ok ct ts(2) m'(2) by (auto simp: timers_ok_def split: option.splits)
  with m'(1) show ?thesis by blast
qed

lemma same_timers_ok:
  "timers_ok m \<Longrightarrow> map timer (live m') = map timer (live m) \<Longrightarrow> systimers m' = systimers m \<Longrightarrow> timers_ok m'"
proof -
  assume a: "timers_ok m" "map timer (live m') = map timer (live m)" "systimers m' = systimers m"
  have "call_timers cs = concat (map (\<lambda>t. case t of None \<Rightarrow> [] | Some t \<Rightarrow> [t]) (map timer cs))" for cs
    by (simp add: call_timers_def comp_def)
  then have "call_timers (live m') = call_timers (live m)" using a(2) by metis
  with a show ?thesis by (simp add: timers_ok_def)
qed

definition released :: "call_state list \<Rightarrow> voice_call \<Rightarrow> bool" where
  "released rel c \<longleftrightarrow> mode c = A_CALL_VOICE \<and> cstate c \<in> set rel"

definition accepted :: "call_state list \<Rightarrow> voice_call \<Rightarrow> voice_call" where
  "accepted acc c = (if mode c = A_CALL_VOICE \<and> cstate c \<in> set acc then c\<lparr>cstate := A_CALL_ACTIVE\<rparr> else c)"

lemma release_loop_live:
  assumes "timers_ok m" "length (calls m) = 4" "call_count m \<le> 4"
  shows "\<exists>m' es. release_loop rel acc m nn = Inr (m', es) \<and> timers_ok m' \<and> length (calls m') = 4 \<and> call_count m' \<le> 4 \<and>
    live m' = take nn (live m) @ map (accepted acc) (filter (\<lambda>c. \<not> released rel c) (drop nn (live m)))"
  using assms
proof (induction rel acc m nn rule: release_loop.induct)
  case (1 rel acc m nn)
  let ?G = "\<lambda>m1 n1. \<exists>m' es. release_loop rel acc m1 n1 = Inr (m', es) \<and> timers_ok m' \<and> length (calls m') = 4 \<and> call_count m' \<le> 4 \<and>
    live m' = take nn (live m) @ map (accepted acc) (filter (\<lambda>c. \<not> released rel c) (drop nn (live m)))"
  show ?case
  proof (cases "nn < call_count m")
    case False
    with "1.prems" have "release_loop rel acc m nn = Inr (m, [])" "length (live m) \<le> nn"
      by (simp_all add: release_loop.simps live_def)
    with "1.prems" show ?thesis by simp
  next
    case n: True
    let ?c = "live m ! nn"
    have l: "nn < length (live m)" and c: "calls m ! nn = ?c" using n "1.prems" live_nth [OF n] by (simp_all add: live_def)
    have d: "drop nn (live m) = ?c # drop (Suc nn) (live m)" "take (Suc nn) (live m) = take nn (live m) @ [?c]"
      using l by (simp_all add: Cons_nth_drop_Suc take_Suc_conv_app_nth)
    consider (other) "mode ?c \<noteq> A_CALL_VOICE" | (rel) "mode ?c = A_CALL_VOICE" "cstate ?c \<in> set rel"
      | (acc) "mode ?c = A_CALL_VOICE" "cstate ?c \<notin> set rel" "cstate ?c \<in> set acc"
      | (keep) "mode ?c = A_CALL_VOICE" "cstate ?c \<notin> set rel" "cstate ?c \<notin> set acc" by blast
    then show ?thesis
    proof cases
      case other
      then have "\<not> released rel ?c" "accepted acc ?c = ?c" by (simp_all add: released_def accepted_def)
      then have "?G m (Suc nn)" using "1.IH"(1) [OF n refl] other "1.prems" c d by simp
      then show ?thesis using other n c by (subst release_loop.simps) simp
    next
      case rel
      obtain m1 es1 where f: "amodem_free_call m nn = Inr (m1, es1)" "timers_ok m1"
        using free_call_ok [OF "1.prems" n] by blast
      note fl = free_call_live [OF f(1) "1.prems"(2,3)]
      have "released rel ?c" using rel by (simp add: released_def)
      then have "?G m1 nn" using "1.IH"(2) [OF n refl _ _ f(1) refl] f(2) fl "1.prems" c d rel l by simp
      then show ?thesis using rel n c f(1) by (subst release_loop.simps) auto
    next
      case acc
      let ?m = "fst (acall_set_state m nn A_CALL_ACTIVE)"
      have n4: "call_count m \<le> length (calls m)" using "1.prems" by simp
      note sl = set_state_live [OF n n4, of A_CALL_ACTIVE]
      have "map timer (live ?m) = map timer (live m)" using l by (simp add: sl map_update list_update_same_conv)
      then have "timers_ok ?m" using same_timers_ok [OF "1.prems"(1)] sl(3) by simp
      moreover have "\<not> released rel ?c" "accepted acc ?c = ?c\<lparr>cstate := A_CALL_ACTIVE\<rparr>"
        using acc by (simp_all add: released_def accepted_def)
      ultimately have "?G ?m (Suc nn)"
        using "1.IH"(3) [OF n refl _ _ _ refl] sl "1.prems" c d acc l
        by (simp add: set_state_count take_Suc_conv_app_nth)
      then show ?thesis using acc n c by (subst release_loop.simps) (auto simp: Let_def)
    next
      case keep
      then have "\<not> released rel ?c" "accepted acc ?c = ?c" by (simp_all add: released_def accepted_def)
      then have "?G m (Suc nn)" using "1.IH"(4) [OF n refl] keep "1.prems" c d by simp
      then show ?thesis using keep n c by (subst release_loop.simps) simp
    qed
  qed
qed

section \<open>The invariant\<close>

lemma destroy_opaque: "sys_timer_destroy t ts = Inr ts' \<Longrightarrow> opaque ts' = (opaque ts)(t := None)"
  by (auto simp: sys_timer_destroy_def split: if_splits)

lemma set_opaque: "sys_timer_set tm n ts = Inr ts' \<Longrightarrow> \<exists>t. tm = Some t \<and> opaque ts' = (opaque ts)(t := Some n)"
  by (auto simp: sys_timer_set_def split: option.splits if_splits)

lemma free_wf:
  assumes f: "amodem_free_call m nn = Inr (m', es)" and wf: "table_wf m"
  shows "table_wf m'"
proof -
  note fl = free_call_live [OF f]
  have l: "length (calls m) = 4" "call_count m \<le> 4" using wf by (simp_all add: table_wf_def)
  have nn: "nn < length (live m)" using free_call_count [OF f] wf by simp
  have d: "distinct (map call_id (live m))" using wf by (simp add: table_wf_def)
  have "distinct (map call_id (live m'))"
    using d unfolding fl(1) [OF l] by (subst (asm) id_take_nth_drop [OF nn]) auto
  moreover have "set (live m') \<subseteq> set (live m)" unfolding fl(1) [OF l] by (auto dest: in_set_takeD in_set_dropD)
  moreover have "\<forall>t k. opaque (systimers m') t = Some k \<longrightarrow> opaque (systimers m) t = Some k"
    using f by (auto simp: amodem_free_call_def Let_def split: sum.splits if_splits option.splits dest!: destroy_opaque)
  ultimately show ?thesis using wf fl(2,3) [OF l] unfolding table_wf_def by (auto 0 3)
qed

lemma same_ids_wf:
  assumes "table_wf m" "map (\<lambda>c. (call_id c, number c)) (live m') = map (\<lambda>c. (call_id c, number c)) (live m)"
    "length (calls m') = length (calls m)" "call_count m' = call_count m" "opaque (systimers m') = opaque (systimers m)"
  shows "table_wf m'"
proof -
  have "map fst (map (\<lambda>c. (call_id c, number c)) (live m')) = map fst (map (\<lambda>c. (call_id c, number c)) (live m))"
    using assms(2) by simp
  then have ids: "map call_id (live m') = map call_id (live m)" by (simp add: comp_def)
  have "(\<lambda>c. (call_id c, number c)) ` set (live m') = (\<lambda>c. (call_id c, number c)) ` set (live m)"
    using assms(2) by (metis list.set_map)
  moreover have "\<forall>p \<in> (\<lambda>c. (call_id c, number c)) ` set (live m). 1 \<le> fst p \<and> fst p \<le> 4 \<and> length (snd p) \<le> 16"
    using assms(1) by (simp add: table_wf_def)
  ultimately have "\<forall>p \<in> (\<lambda>c. (call_id c, number c)) ` set (live m'). 1 \<le> fst p \<and> fst p \<le> 4 \<and> length (snd p) \<le> 16"
    by simp
  then have "\<forall>c \<in> set (live m'). 1 \<le> call_id c \<and> call_id c \<le> 4 \<and> length (number c) \<le> 16" by simp
  with ids show ?thesis using assms unfolding table_wf_def by simp
qed

lemma set_state_wf:
  assumes "table_wf m" "nn < call_count m"
  shows "table_wf (fst (acall_set_state m nn st))"
proof -
  have n: "call_count m \<le> length (calls m)" using assms(1) by (simp add: table_wf_def)
  note sl = set_state_live [OF assms(2) n, of st]
  have "nn < length (live m)" using assms by simp
  then show ?thesis by (intro same_ids_wf [OF assms(1)]) (simp_all add: sl set_state_count map_update list_update_same_conv)
qed

lemma change_ids [simp]: "call_id (change f c) = call_id c" "number (change f c) = number c" "timer (change f c) = timer c"
  by (simp_all add: change_def split: option.split)

lemma state_loop_wf: "table_wf m \<Longrightarrow> table_wf (fst (state_loop f m 0))"
  by (rule same_ids_wf) (use state_loop_live [of m f 0] in \<open>auto simp: table_wf_def\<close>)

lemma release_wf: "release_loop rel acc m nn = Inr (m', es) \<Longrightarrow> table_wf m \<Longrightarrow> table_wf m'"
proof (induction rel acc m nn arbitrary: es rule: release_loop.induct)
  case (1 rel acc m nn)
  show ?case
  proof (cases "nn < call_count m")
    case False
    then show ?thesis using "1.prems" by (simp add: release_loop.simps)
  next
    case n: True
    let ?c = "calls m ! nn"
    consider (other) "mode ?c \<noteq> A_CALL_VOICE" | (rel) "mode ?c = A_CALL_VOICE" "cstate ?c \<in> set rel"
      | (acc) "mode ?c = A_CALL_VOICE" "cstate ?c \<notin> set rel" "cstate ?c \<in> set acc"
      | (keep) "mode ?c = A_CALL_VOICE" "cstate ?c \<notin> set rel" "cstate ?c \<notin> set acc" by blast
    then show ?thesis
    proof cases
      case other
      then have "release_loop rel acc m (nn + 1) = Inr (m', es)" using "1.prems"(1) n by (subst (asm) release_loop.simps) simp
      then show ?thesis using "1.IH"(1) [OF n refl other] "1.prems"(2) by blast
    next
      case rel
      then obtain m1 es1 es2 where f: "amodem_free_call m nn = Inr (m1, es1)" "release_loop rel acc m1 nn = Inr (m', es2)"
        using "1.prems"(1) n by (subst (asm) release_loop.simps) (auto simp: map_sum_Inr_iff split: sum.splits)
      then show ?thesis using "1.IH"(2) [OF n refl _ _ f(1) refl f(2)] rel free_wf [OF f(1) "1.prems"(2)] by blast
    next
      case acc
      then obtain es2 where f: "release_loop rel acc (fst (acall_set_state m nn A_CALL_ACTIVE)) (nn + 1) = Inr (m', es2)"
        using "1.prems"(1) n by (subst (asm) release_loop.simps) (auto simp: Let_def map_sum_Inr_iff)
      then show ?thesis using "1.IH"(3) [OF n refl _ _ _ refl f] acc set_state_wf [OF "1.prems"(2) n] by blast
    next
      case keep
      then have "release_loop rel acc m (nn + 1) = Inr (m', es)" using "1.prems"(1) n by (subst (asm) release_loop.simps) simp
      then show ?thesis using "1.IH"(4) [OF n refl] keep "1.prems"(2) by blast
    qed
  qed
qed

lemma find_slot_bound: "find_slot p cs i = Some n \<Longrightarrow> i \<le> n \<and> n < i + length cs"
  by (induction cs arbitrary: i) (fastforce split: if_splits)+

lemma find_slot_live: "find_slot p (take (call_count m) (calls m)) 0 = Some nn \<Longrightarrow> nn < call_count m"
  using find_slot_bound [of p "take (call_count m) (calls m)" 0 nn] by simp

lemma free_id_fresh:
  assumes wf: "table_wf m"
  shows "1 \<le> free_id m" "free_id m \<le> int (call_count m) + 1" "free_id m \<notin> call_id ` set (live m)"
proof -
  let ?P = "\<lambda>i. int i + 1 \<notin> set (map call_id (take (call_count m) (calls m)))"
  have "1 \<le> free_id m \<and> free_id m \<le> int (call_count m) + 1 \<and> free_id m \<notin> call_id ` set (live m)"
  proof (cases "find ?P [0..<call_count m]")
    case None
    then have all: "int i + 1 \<in> call_id ` set (live m)" if "i < call_count m" for i
      using that by (auto simp: find_None_iff live_def)
    let ?U = "call_id ` set (live m)"
    have "{1..int (call_count m)} \<subseteq> ?U"
    proof
      fix x assume "x \<in> {1..int (call_count m)}"
      then have "nat (x - 1) < call_count m" "int (nat (x - 1)) + 1 = x" by auto
      then show "x \<in> ?U" using all [of "nat (x - 1)"] by simp
    qed
    moreover have "card ?U \<le> call_count m" using wf card_image_le [of "set (live m)" call_id] card_length [of "live m"] by simp
    ultimately have "?U = {1..int (call_count m)}" by (intro card_seteq [symmetric]) simp_all
    then show ?thesis using None by (simp add: free_id_def Let_def)
  next
    case (Some i)
    then have "?P i" "i < call_count m" by (auto simp: find_Some_iff)
    then show ?thesis using Some by (simp add: free_id_def Let_def live_def)
  qed
  then show "1 \<le> free_id m" "free_id m \<le> int (call_count m) + 1" "free_id m \<notin> call_id ` set (live m)" by simp_all
qed

lemma alloc_slot:
  assumes wf: "table_wf m" and a: "amodem_alloc_call m = (Some nn, m1)" and f: "\<And>c. call_id (f c) = call_id c"
  shows "nn = call_count m" "nn < 4" "call_count m1 = nn + 1" "systimers m1 = systimers m" "length (calls m1) = 4"
    "live (set_slot m1 nn f) = live m @ [f ((calls m ! nn)\<lparr>call_id := free_id m\<rparr>)]"
proof -
  have l: "length (calls m) = 4" using wf by (simp add: table_wf_def)
  have a': "call_count m < 4" "nn = call_count m"
    "m1 = m\<lparr>calls := (calls m)[nn := (calls m ! nn)\<lparr>call_id := free_id m\<rparr>], call_count := nn + 1\<rparr>"
    using a by (auto simp: amodem_alloc_call_def Let_def MAX_CALLS_def split: if_splits)
  then show "nn = call_count m" "nn < 4" "call_count m1 = nn + 1" "systimers m1 = systimers m" "length (calls m1) = 4"
    using l by simp_all
  have "take (nn + 1) ((calls m)[nn := x]) = take nn (calls m) @ [x]" for x using a'(1,2) l by (simp add: take_Suc_conv_app_nth)
  then show "live (set_slot m1 nn f) = live m @ [f ((calls m ! nn)\<lparr>call_id := free_id m\<rparr>)]"
    using a' l by (simp add: live_def set_slot_def)
qed

lemma add_wf:
  assumes wf: "table_wf m" and a: "amodem_alloc_call m = (Some nn, m1)"
    and f: "\<And>c. call_id (f c) = call_id c" "\<And>c. length (number (f c)) \<le> 16"
    and m': "calls m' = calls (set_slot m1 nn f)" "call_count m' = call_count m1"
    and o: "\<forall>t k. opaque (systimers m') t = Some k \<longrightarrow> k < 4"
  shows "table_wf m'"
proof -
  note al = alloc_slot [OF wf a, of f, OF f(1)]
  have "live m' = live (set_slot m1 nn f)" using m' by (simp add: live_def)
  moreover have "length (calls m') = 4" using m'(1) al(5) by (simp add: set_slot_def)
  ultimately show ?thesis using wf free_id_fresh [OF wf] al f m'(2) o by (auto simp: table_wf_def)
qed

lemma clip_length: "length (clip_number num) \<le> 16"
  by (simp add: clip_number_def A_CALL_NUMBER_MAX_SIZE_def)

lemma inbound_wf:
  assumes wf: "table_wf m" and a: "amodem_add_inbound_call m num = (r, m', es)"
  shows "table_wf m'"
proof (cases "amodem_alloc_call m")
  case (Pair sl m1)
  show ?thesis
  proof (cases sl)
    case None
    then have "m1 = m" using Pair by (auto simp: amodem_alloc_call_def Let_def split: if_splits)
    then show ?thesis using a wf Pair None by (simp add: amodem_add_inbound_call_def)
  next
    case (Some nn)
    let ?f = "\<lambda>c. c\<lparr>dir := A_CALL_INBOUND, cstate := A_CALL_INCOMING, mode := A_CALL_VOICE, multi := 0,
      is_remote := (remote_number_string_to_port num > 0), number := clip_number num\<rparr>"
    have m': "m' = set_slot m1 nn ?f" using a Pair Some by (simp add: amodem_add_inbound_call_def)
    have op: "\<forall>t k. opaque (systimers m') t = Some k \<longrightarrow> k < 4"
      using alloc_slot(4) [OF wf Pair [unfolded Some], of id] wf by (simp add: m' table_wf_def)
    show ?thesis by (rule add_wf [OF wf Pair [unfolded Some], of ?f, OF _ _ _ _ op]) (simp_all add: m' clip_length)
  qed
qed

lemma dial_wf:
  assumes wf: "table_wf m" and a: "handleDial m cmd = Inr (r, m')"
  shows "table_wf m'"
proof (cases "amodem_alloc_call m")
  case (Pair sl m1)
  show ?thesis
  proof (cases sl)
    case None
    then have "m1 = m" using Pair by (auto simp: amodem_alloc_call_def Let_def split: if_splits)
    then show ?thesis using a wf Pair None by (simp add: handleDial_def)
  next
    case (Some nn)
    obtain t ts where ts: "sys_timer_create (systimers m1) = (t, ts)" by fastforce
    define num where "num = clip_number (take (if tl cmd \<noteq> [] \<and> last (tl cmd) = CHR '';'' then length (tl cmd) - 1 else length (tl cmd)) (tl cmd))"
    let ?f = "\<lambda>c. c\<lparr>dir := A_CALL_OUTBOUND, cstate := A_CALL_DIALING, mode := A_CALL_VOICE, multi := 0,
      number := num, is_remote := (remote_number_string_to_port num > 0), timer := t\<rparr>"
    obtain ts' where s: "sys_timer_set t nn ts = Inr ts'" and m': "m' = (set_slot m1 nn ?f)\<lparr>systimers := ts'\<rparr>"
      using a Pair Some ts by (auto simp: handleDial_def Let_def num_def map_sum_Inr_iff split: if_splits)
    note al = alloc_slot [OF wf Pair [unfolded Some], of id]
    have "\<forall>t' k. opaque ts t' = Some k \<longrightarrow> k < 4"
      using ts al(4) wf by (auto simp: sys_timer_create_def table_wf_def split: list.splits if_splits)
    then have op: "\<forall>t k. opaque (systimers m') t = Some k \<longrightarrow> k < 4"
      using set_opaque [OF s] al(2) by (auto simp: m' split: if_splits)
    show ?thesis by (rule add_wf [OF wf Pair [unfolded Some], of ?f, OF _ _ _ _ op]) (simp_all add: m' clip_length num_def)
  qed
qed

lemma slot_wf:
  assumes wf: "table_wf m" and f: "\<And>c. call_id (f c) = call_id c" "\<And>c. number (f c) = number c"
  shows "table_wf (set_slot m nn f)"
proof (cases "nn < call_count m")
  case True
  then have "calls m ! nn = live m ! nn" using wf by (simp add: live_nth table_wf_def)
  then show ?thesis using True wf by (intro same_ids_wf [OF wf])
    (simp_all add: set_slot_live map_update f list_update_same_conv, simp_all add: set_slot_def)
next
  case False
  then have "live (set_slot m nn f) = live m" using wf by (simp add: set_slot_live list_update_beyond)
  then show ?thesis by (intro same_ids_wf [OF wf]) (simp_all, simp_all add: set_slot_def)
qed

lemma timers_wf: "table_wf m \<Longrightarrow> \<forall>t k. opaque ts t = Some k \<longrightarrow> k < 4 \<Longrightarrow> table_wf (m\<lparr>systimers := ts\<rparr>)"
  by (auto simp: table_wf_def live_def)

lemma event_wf:
  assumes wf: "table_wf m" and nn: "nn < 4" and e: "voice_call_event ok m nn = Inr (m', es)"
  shows "table_wf m'"
proof -
  let ?a = "set_slot m nn (\<lambda>c. c\<lparr>cstate := A_CALL_ALERTING\<rparr>)" and ?b = "set_slot m nn (\<lambda>c. c\<lparr>cstate := A_CALL_ACTIVE\<rparr>)"
  have ab: "table_wf ?a" "table_wf ?b" by (intro slot_wf [OF wf], simp_all)+
  have "table_wf (?a\<lparr>systimers := ts\<rparr>)" if "sys_timer_set (timer (calls m ! nn)) nn (systimers m) = Inr ts" for ts
    using set_opaque [OF that] nn wf by (intro timers_wf [OF ab(1)]) (auto simp: table_wf_def split: if_splits)
  then show ?thesis using e ab free_wf [OF _ ab(1)]
    by (auto simp: voice_call_event_def Let_def map_sum_Inr_iff split: call_state.splits if_splits)
qed

lemma table_count: "table_wf m \<Longrightarrow> call_count m \<le> 4"
  by (simp add: table_wf_def)

lemma state_loop_wf2: "state_loop f m 0 = (m', es) \<Longrightarrow> table_wf m \<Longrightarrow> table_wf m'"
  using state_loop_wf [of m f] by simp

lemma join_wf: "join_held m = (m', es) \<Longrightarrow> table_wf m \<Longrightarrow> table_wf m'"
  using set_state_wf [OF _ find_slot_live, of m "\<lambda>c. mode c = A_CALL_VOICE \<and> cstate c = A_CALL_HELD" _ A_CALL_ACTIVE]
  by (auto simp: join_held_def split: option.splits)

lemma hangup_wf: "handleHangup m cmd = Inr (a, m', es) \<Longrightarrow> table_wf m \<Longrightarrow> table_wf m'"
  by (auto simp: handleHangup_def map_sum_Inr_iff split: if_splits list.splits option.splits
      dest: release_wf free_wf state_loop_wf2 join_wf)

lemma answer_wf: "handleAnswer m cmd = Inr (m', es) \<Longrightarrow> table_wf m \<Longrightarrow> table_wf m'"
  by (auto simp: handleAnswer_def split: list.splits if_splits option.splits dest: free_wf state_loop_wf2)

text \<open>Everything that happens to the table.\<close>

inductive call_step :: "call_table \<Rightarrow> call_table \<Rightarrow> bool" where
  dial: "handleDial m cmd = Inr (a, m') \<Longrightarrow> call_step m m'"
| inbound: "amodem_add_inbound_call m num = (r, m', es) \<Longrightarrow> call_step m m'"
| update: "amodem_update_call m num st = (r, m', es) \<Longrightarrow> call_step m m'"
| disconnect: "amodem_disconnect_call m num = Inr (r, m', es) \<Longrightarrow> call_step m m'"
| answer: "handleAnswer m cmd = Inr (m', es) \<Longrightarrow> call_step m m'"
| hangup: "handleHangup m cmd = Inr (a, m', es) \<Longrightarrow> call_step m m'"
| fires: "timer_fires ok m t = Inr (m', es) \<Longrightarrow> call_step m m'"
| remote: "remote_voice_call_event m nn success = Inr (m', es) \<Longrightarrow> call_step m m'"

inductive call_reach :: "call_table \<Rightarrow> bool" where
  start: "call_reach empty_table"
| step: "call_reach m \<Longrightarrow> call_step m m' \<Longrightarrow> call_reach m'"

inductive_cases call_stepE: "call_step m m'"

lemma update_call_wf:
  assumes wf: "table_wf m" and u: "amodem_update_call m num st = (r, m', es)"
  shows "table_wf m'"
proof (cases "amodem_find_call_by_number m num")
  case (Some nn)
  then have "nn < call_count m" by (simp add: amodem_find_call_by_number_def find_slot_live)
  then show ?thesis using set_state_wf [OF wf, of nn st] u Some by (auto simp: amodem_update_call_def split: prod.splits)
qed (use assms in \<open>simp add: amodem_update_call_def\<close>)

lemma fires_wf:
  assumes wf: "table_wf m" and f: "timer_fires ok m t = Inr (m', es)"
  shows "table_wf m'"
proof (cases "\<exists>nn. opaque (systimers m) t = Some nn \<and> t \<in> set (pending (systimers m))")
  case True
  then obtain nn where nn: "opaque (systimers m) t = Some nn" "t \<in> set (pending (systimers m))" by blast
  let ?m = "m\<lparr>systimers := (systimers m)\<lparr>pending := removeAll t (pending (systimers m))\<rparr>\<rparr>"
  have "table_wf ?m" by (rule timers_wf [OF wf]) (use wf in \<open>simp add: table_wf_def\<close>)
  moreover have "nn < 4" using nn(1) wf by (auto simp: table_wf_def)
  moreover have "voice_call_event ok ?m nn = Inr (m', es)" using f nn by (simp add: timer_fires_def)
  ultimately show ?thesis by (rule event_wf)
qed (use assms in \<open>auto simp: timer_fires_def split: option.splits\<close>)

lemma step_wf: "call_step m m' \<Longrightarrow> table_wf m \<Longrightarrow> table_wf m'"
  by (erule call_stepE)
    (auto intro: dial_wf inbound_wf update_call_wf answer_wf hangup_wf fires_wf free_wf
      simp: amodem_disconnect_call_def remote_voice_call_event_def map_sum_Inr_iff split: option.splits if_splits)

lemma reach_wf: "call_reach m \<Longrightarrow> table_wf m"
  by (induction rule: call_reach.induct)
    (simp_all add: step_wf, simp add: table_wf_def empty_table_def live_def sys_init_timers_def MAX_CALLS_def)


section \<open>The calls that \<open>+CHLD\<close> leaves\<close>

text \<open>What a suffix of \<open>+CHLD=\<close> does to the list of calls, without slots, timers and loops.\<close>

fun resume_first :: "voice_call list \<Rightarrow> voice_call list" where
  "resume_first [] = []"
| "resume_first (c # cs) =
     (if mode c = A_CALL_VOICE \<and> cstate c = A_CALL_HELD then c\<lparr>cstate := A_CALL_ACTIVE\<rparr> # cs else c # resume_first cs)"

definition swapped :: "voice_call \<Rightarrow> voice_call" where
  "swapped c =
     (if mode c \<noteq> A_CALL_VOICE then c
      else if cstate c = A_CALL_ACTIVE then c\<lparr>cstate := A_CALL_HELD\<rparr>
      else if cstate c \<in> {A_CALL_HELD, A_CALL_WAITING} then c\<lparr>cstate := A_CALL_ACTIVE\<rparr>
      else c)"

definition held_but :: "int \<Rightarrow> voice_call \<Rightarrow> voice_call" where
  "held_but i c = (if mode c = A_CALL_VOICE \<and> cstate c = A_CALL_ACTIVE \<and> call_id c \<noteq> i then c\<lparr>cstate := A_CALL_HELD\<rparr> else c)"

definition chld_spec :: "string \<Rightarrow> voice_call list \<Rightarrow> voice_call list" where
  "chld_spec s cs =
     (if s = [] then cs
      else if hd s = CHR ''0'' then filter (\<lambda>c. \<not> released [A_CALL_HELD, A_CALL_WAITING, A_CALL_INCOMING] c) cs
      else if hd s = CHR ''1'' then
        (if tl s = [] then map (accepted [A_CALL_HELD, A_CALL_WAITING]) (filter (\<lambda>c. \<not> released [A_CALL_ACTIVE] c) cs)
         else filter (\<lambda>c. call_id c \<noteq> chld_id (hd (tl s))) cs)
      else if hd s = CHR ''2'' then (if tl s = [] then map swapped cs else map (held_but (chld_id (hd (tl s)))) cs)
      else if hd s \<in> {CHR ''3'', CHR ''4''} then resume_first cs
      else cs)"

lemma find_slot_None: "find_slot p cs i = None \<longleftrightarrow> (\<forall>c \<in> set cs. \<not> p c)"
  by (induction cs arbitrary: i) auto

lemma find_slot_split:
  "find_slot p cs i = Some n \<Longrightarrow> \<exists>xs c ys. cs = xs @ c # ys \<and> n = i + length xs \<and> p c \<and> (\<forall>x \<in> set xs. \<not> p x)"
proof (induction cs arbitrary: i)
  case (Cons d ds)
  show ?case
  proof (cases "p d")
    case True
    with Cons.prems show ?thesis by (intro exI [of _ "[]"]) simp
  next
    case False
    with Cons.prems Cons.IH [of "i + 1"] obtain xs c ys where
      "ds = xs @ c # ys" "n = i + 1 + length xs" "p c" "\<forall>x \<in> set xs. \<not> p x" by auto
    with False show ?thesis by (intro exI [of _ "d # xs"]) simp
  qed
qed simp

lemma resume_none: "\<forall>c \<in> set cs. \<not> (mode c = A_CALL_VOICE \<and> cstate c = A_CALL_HELD) \<Longrightarrow> resume_first cs = cs"
  by (induction cs) auto

lemma resume_split:
  "mode c = A_CALL_VOICE \<and> cstate c = A_CALL_HELD \<Longrightarrow> \<forall>c \<in> set xs. \<not> (mode c = A_CALL_VOICE \<and> cstate c = A_CALL_HELD) \<Longrightarrow>
   resume_first (xs @ c # ys) = xs @ c\<lparr>cstate := A_CALL_ACTIVE\<rparr> # ys"
  by (induction xs) auto

lemma join_live:
  assumes "table_wf m"
  shows "live (fst (join_held m)) = resume_first (live m) \<and> systimers (fst (join_held m)) = systimers m"
proof (cases "find_slot (\<lambda>c. mode c = A_CALL_VOICE \<and> cstate c = A_CALL_HELD) (live m) 0")
  case None
  then have "resume_first (live m) = live m" by (intro resume_none) (simp add: find_slot_None)
  then show ?thesis using None by (simp add: join_held_def live_def [symmetric])
next
  case (Some nn)
  then obtain xs c ys where s: "live m = xs @ c # ys" "nn = length xs"
    "mode c = A_CALL_VOICE \<and> cstate c = A_CALL_HELD" "\<forall>x \<in> set xs. \<not> (mode x = A_CALL_VOICE \<and> cstate x = A_CALL_HELD)"
    using find_slot_split [OF Some] by auto
  have "nn < call_count m" using Some by (simp add: live_def find_slot_live)
  then show ?thesis using Some set_state_live [of nn m A_CALL_ACTIVE] s resume_split [OF s(3,4)] assms
    by (simp add: join_held_def live_def [symmetric] table_wf_def)
qed

lemma resume_timers: "map timer (resume_first cs) = map timer cs"
  by (induction cs) auto

lemma join_timers:
  assumes "table_wf m" "timers_ok m"
  shows "timers_ok (fst (join_held m))"
  by (rule same_timers_ok [OF assms(2)]) (simp_all only: join_live [OF assms(1)] resume_timers)

lemma remove_live:
  assumes "table_wf m" "timers_ok m"
  shows "\<exists>m' es. (case amodem_find_call m i of None \<Rightarrow> Inr (m, []) | Some nn \<Rightarrow> amodem_free_call m nn) = Inr (m', es) \<and>
    live m' = filter (\<lambda>c. call_id c \<noteq> i) (live m) \<and> timers_ok m'"
proof (cases "amodem_find_call m i")
  case None
  then have "\<forall>c \<in> set (live m). call_id c \<noteq> i" by (simp add: amodem_find_call_def find_slot_None live_def)
  then have "filter (\<lambda>c. call_id c \<noteq> i) (live m) = live m" by simp
  with None assms show ?thesis by simp
next
  case (Some nn)
  have l: "length (calls m) = 4" "call_count m \<le> 4" "distinct (map call_id (live m))" using assms by (simp_all add: table_wf_def)
  obtain xs c ys where s: "live m = xs @ c # ys" "nn = length xs" "call_id c = i" "\<forall>x \<in> set xs. call_id x \<noteq> i"
    using find_slot_split [OF Some [unfolded amodem_find_call_def live_def [symmetric]]] by auto
  have nn: "nn < call_count m" using Some by (simp add: amodem_find_call_def find_slot_live)
  obtain m' es where f: "amodem_free_call m nn = Inr (m', es)" "timers_ok m'"
    using free_call_ok [OF assms(2) l(1,2) nn] by blast
  have "\<forall>y \<in> set ys. call_id y \<noteq> i" using l(3) s(3) unfolding s(1) by (auto simp: image_iff)
  then have "filter (\<lambda>c. call_id c \<noteq> i) (live m) = xs @ ys" using s by simp
  also have "\<dots> = live m'" using free_call_live(1) [OF f(1) l(1,2)] s by simp
  finally show ?thesis using Some f by simp
qed

lemma loop_live:
  assumes "table_wf m" "timers_ok m" "\<And>c. change f c = g c"
  shows "live (fst (state_loop f m 0)) = map g (live m) \<and> timers_ok (fst (state_loop f m 0))"
proof -
  have "change f = g" using assms(3) by auto
  then have l: "live (fst (state_loop f m 0)) = map g (live m)" "systimers (fst (state_loop f m 0)) = systimers m"
    using state_loop_live [of m f 0] assms(1) by (simp_all add: table_wf_def)
  moreover have "map timer (map g (live m)) = map timer (live m)" using assms(3) [symmetric] by simp
  ultimately show ?thesis using same_timers_ok [OF assms(2)] by simp
qed

lemma swap_change:
  "change (\<lambda>c. if mode c \<noteq> A_CALL_VOICE then None else if cstate c = A_CALL_ACTIVE then Some A_CALL_HELD
     else if cstate c = A_CALL_HELD \<or> cstate c = A_CALL_WAITING then Some A_CALL_ACTIVE else None) c = swapped c"
  by (simp add: change_def swapped_def)

lemma hold_change:
  "change (\<lambda>c. if mode c = A_CALL_VOICE \<and> cstate c = A_CALL_ACTIVE \<and> call_id c \<noteq> i then Some A_CALL_HELD else None) c = held_but i c"
  by (simp add: change_def held_but_def)

lemma accepted_none: "map (accepted []) cs = cs"
  by (simp add: accepted_def map_idI)

section \<open>Properties\<close>

text \<open>
  Property C8 (invariant). From the empty table, whatever is dialled, received, answered, held, hung up
  or refused, and whenever the timers and the remote side answer: at most four calls are in the table,
  their identifiers are distinct and between 1 and 4, so \<open>+CHLD=1n\<close> and \<open>+CHLD=2n\<close> can name each of
  them by one digit, and their numbers fit the 16 characters of the record.
\<close>

theorem call_table_invariant:
  assumes "call_reach m"
  shows "call_count m \<le> MAX_CALLS \<and> distinct (map call_id (take (call_count m) (calls m))) \<and>
    (\<forall>c \<in> set (take (call_count m) (calls m)).
       1 \<le> call_id c \<and> call_id c \<le> int MAX_CALLS \<and> length (number c) \<le> A_CALL_NUMBER_MAX_SIZE)"
  using reach_wf [OF assms] by (simp add: table_wf_def live_def MAX_CALLS_def A_CALL_NUMBER_MAX_SIZE_def)

theorem call_table_invariant_witness:
  "\<exists>m. call_reach m \<and> call_count m = 1 \<and> (\<forall>c \<in> set (take (call_count m) (calls m)). 1 \<le> call_id c)"
proof -
  obtain m where m: "amodem_add_inbound_call empty_table ''5550100'' = (0, m, amodem_send_calls_update)" "call_count m = 1"
    by (simp add: amodem_add_inbound_call_def amodem_alloc_call_def empty_table_def MAX_CALLS_def Let_def)
  have r: "call_reach m" using call_reach.step [OF call_reach.start call_step.inbound [OF m(1)]] .
  with m(2) show ?thesis using call_table_invariant [OF r] by blast
qed


definition two_calls :: call_table where
  "two_calls = empty_table\<lparr>calls := [empty_slot\<lparr>call_id := 1, number := ''5550100''\<rparr>,
     empty_slot\<lparr>call_id := 2, cstate := A_CALL_HELD, number := ''5550101''\<rparr>, empty_slot, empty_slot], call_count := 2\<rparr>"


text \<open>
  Property C21 (liveness). A call to a number that is no other emulator's, dialled while there is room in
  the table and a timer left, is in the table as dialling, and after its timer has fired twice it is
  active: the guest is told of both changes, and no other call is touched.
\<close>

theorem dial_connects:
  assumes wf: "table_wf m" and room: "call_count m < MAX_CALLS" and tm: "free_timers (systimers m) = t # rest"
    and num: "length num \<le> A_CALL_NUMBER_MAX_SIZE" "remote_number_string_to_port num \<le> 0"
  shows "\<exists>m1 m2 m3 c. handleDial m (''D'' @ num @ '';'') = Inr (None, m1) \<and>
    timer_fires ok m1 t = Inr (m2, amodem_send_calls_update) \<and> timer_fires ok m2 t = Inr (m3, amodem_send_calls_update) \<and>
    live m1 = live m @ [c\<lparr>cstate := A_CALL_DIALING\<rparr>] \<and> live m2 = live m @ [c\<lparr>cstate := A_CALL_ALERTING\<rparr>] \<and>
    live m3 = live m @ [c\<lparr>cstate := A_CALL_ACTIVE\<rparr>] \<and> number c = num \<and> dir c = A_CALL_OUTBOUND"
proof -
  let ?k = "call_count m"
  let ?c = "(calls m ! ?k)\<lparr>call_id := free_id m, dir := A_CALL_OUTBOUND, cstate := A_CALL_DIALING, mode := A_CALL_VOICE, multi := 0,
    number := num, is_remote := False, timer := Some t\<rparr>"
  have l: "length (calls m) = 4" "?k < 4" using wf room by (simp_all add: table_wf_def MAX_CALLS_def)
  let ?tm = "\<lambda>st p. m\<lparr>call_count := ?k + 1, calls := (calls m)[?k := ?c\<lparr>cstate := st\<rparr>],
    systimers := (systimers m)\<lparr>free_timers := rest, opaque := (opaque (systimers m))(t := Some ?k), pending := p\<rparr>\<rparr>"
  let ?p0 = "List.insert t (pending (systimers m))"
  let ?p1 = "List.insert t (removeAll t ?p0)"
  have order: "x\<lparr>call_id := free_id m, dir := A_CALL_OUTBOUND, cstate := A_CALL_DIALING, mode := A_CALL_VOICE, multi := 0,
      number := num, is_remote := False, timer := Some t\<rparr> = x\<lparr>call_id := free_id m, dir := A_CALL_OUTBOUND, mode := A_CALL_VOICE,
      multi := 0, number := num, is_remote := False, timer := Some t, cstate := A_CALL_DIALING\<rparr>" for x :: voice_call
    by (rule voice_call.equality) simp_all
  have clip: "clip_number num = num" using num(1) by (simp add: clip_number_def)
  have "handleDial m (''D'' @ num @ '';'') = Inr (None, ?tm A_CALL_DIALING ?p0)"
    using room tm num(2) l
    by (simp add: handleDial_def amodem_alloc_call_def Let_def sys_timer_create_def sys_timer_set_def clip set_slot_def order)
  moreover have "timer_fires ok (?tm A_CALL_DIALING ?p0) t = Inr (?tm A_CALL_ALERTING ?p1, amodem_send_calls_update)"
    using l by (simp add: timer_fires_def voice_call_event_def Let_def set_slot_def sys_timer_set_def)
  moreover have "timer_fires ok (?tm A_CALL_ALERTING ?p1) t = Inr (?tm A_CALL_ACTIVE (removeAll t ?p1), amodem_send_calls_update)"
    using l by (simp add: timer_fires_def voice_call_event_def Let_def set_slot_def)
  moreover have "live (?tm st p) = live m @ [?c\<lparr>cstate := st\<rparr>]" for st p
    using l by (simp add: live_def take_Suc_conv_app_nth)
  moreover have "number ?c = num" "dir ?c = A_CALL_OUTBOUND" by simp_all
  ultimately show ?thesis by (intro exI [of _ "?tm A_CALL_DIALING ?p0"] exI [of _ "?tm A_CALL_ALERTING ?p1"]
      exI [of _ "?tm A_CALL_ACTIVE (removeAll t ?p1)"] exI [of _ ?c]) simp
qed

theorem dial_connects_witness:
  "\<exists>m1 m2 m3 c. handleDial empty_table ''D5550100;'' = Inr (None, m1) \<and> timer_fires True m1 0 = Inr (m2, amodem_send_calls_update) \<and>
    timer_fires True m2 0 = Inr (m3, amodem_send_calls_update) \<and> live m3 = [c\<lparr>cstate := A_CALL_ACTIVE\<rparr>]"
proof -
  have "table_wf empty_table" "call_count empty_table < MAX_CALLS"
    by (simp_all add: table_wf_def empty_table_def live_def sys_init_timers_def MAX_CALLS_def)
  moreover have "free_timers (systimers empty_table) = 0 # [1..<32]"
    by (simp add: empty_table_def sys_init_timers_def MAX_TIMERS_def upt_conv_Cons)
  moreover have "length ''5550100'' \<le> A_CALL_NUMBER_MAX_SIZE" "remote_number_string_to_port ''5550100'' \<le> 0" by code_simp+
  ultimately show ?thesis using dial_connects [of empty_table 0 "[1..<32]" "''5550100''" True]
    by (auto simp: live_def empty_table_def)
qed

lemma free_call_others:
  assumes "amodem_free_call m nn = Inr (m1, es)" "timer (calls m ! nn) \<noteq> Some t"
  shows "opaque (systimers m1) t = opaque (systimers m) t" "t \<in> set (pending (systimers m1)) \<longleftrightarrow> t \<in> set (pending (systimers m))"
  using assms by (fastforce simp: amodem_free_call_def Let_def sys_timer_destroy_def split: sum.splits if_splits option.splits)+

lemma free_call_behind:
  assumes "amodem_free_call m nn = Inr (m1, es)" "call_count m = k + 1" "nn < k" "k < length (calls m)"
  shows "calls m1 ! k = calls m ! k"
  using assms by (auto simp: amodem_free_call_def Let_def nth_append split: sum.splits if_splits)

text \<open>
  Property C39 (error). When a call is released, the calls behind it move up one slot, but their timers keep
  pointing at the slots they were dialled in. So the last call, if it is still dialling, never
  becomes active: its timer fires on a slot that is no longer in the table, and neither that event nor
  the one it arms changes any call.
\<close>

theorem hangup_strands_call:
  assumes wf: "table_wf m" and ok: "timers_ok m" and nn: "nn < k" and k: "call_count m = k + 1"
    and c: "cstate (calls m ! k) = A_CALL_DIALING" "\<not> is_remote (calls m ! k)" "timer (calls m ! k) = Some t"
    and t: "opaque (systimers m) t = Some k" "t \<in> set (pending (systimers m))"
  shows "\<exists>m1 es m2 m3. amodem_free_call m nn = Inr (m1, es) \<and> cstate (last (live m1)) = A_CALL_DIALING \<and>
    timer_fires b m1 t = Inr (m2, amodem_send_calls_update) \<and> live m2 = live m1 \<and>
    timer_fires b m2 t = Inr (m3, amodem_send_calls_update) \<and> live m3 = live m1 \<and> t \<notin> set (pending (systimers m3))"
proof -
  have l: "length (calls m) = 4" "call_count m \<le> 4" using wf by (simp_all add: table_wf_def)
  obtain m1 es where f: "amodem_free_call m nn = Inr (m1, es)" using free_call_ok [OF ok l, of nn] nn k by auto
  note fl = free_call_live [OF f l]
  have lk: "live m ! k = calls m ! k" "k < length (live m)" "nn < length (live m)" using k l nn by (simp_all add: live_def)
  have last: "last (live m1) = calls m ! k" using lk nn k l wf unfolding fl(1) by (simp add: last_conv_nth nth_append min_def)
  have "timer (calls m ! nn) \<noteq> Some t"
  proof
    assume a: "timer (calls m ! nn) = Some t"
    have d: "live m = take k (live m) @ [calls m ! k]" using lk k l by (simp add: live_def take_Suc_conv_app_nth)
    have "calls m ! nn \<in> set (take k (live m))" using nn lk l k by (auto simp: live_def in_set_conv_nth)
    then have "t \<in> set (call_timers (take k (live m)))" using a by (force simp: call_timers_def)
    moreover have "call_timers (live m) = call_timers (take k (live m)) @ [t]"
      by (subst d) (use c(3) in \<open>simp add: call_timers_def\<close>)
    ultimately show False using ok by (simp add: timers_ok_def)
  qed
  then have m1: "opaque (systimers m1) t = Some k" "t \<in> set (pending (systimers m1))"
    "calls m1 ! k = calls m ! k" "call_count m1 = k" "length (calls m1) = 4"
    using free_call_others [OF f, of t] free_call_behind [OF f k nn] t k l fl by simp_all
  let ?ts = "\<lambda>p. (systimers m1)\<lparr>opaque := (opaque (systimers m1))(t := Some k), pending := p\<rparr>"
  let ?m = "\<lambda>st p. (set_slot m1 k (\<lambda>c. c\<lparr>cstate := st\<rparr>))\<lparr>systimers := ?ts p\<rparr>"
  let ?p = "List.insert t (removeAll t (pending (systimers m1)))"
  have "timer_fires b m1 t = Inr (?m A_CALL_ALERTING ?p, amodem_send_calls_update)"
    using m1 c by (simp add: timer_fires_def voice_call_event_def Let_def set_slot_def sys_timer_set_def)
  moreover have "timer_fires b (?m A_CALL_ALERTING ?p) t = Inr (?m A_CALL_ACTIVE (removeAll t ?p), amodem_send_calls_update)"
    using m1 k l by (simp add: timer_fires_def voice_call_event_def Let_def set_slot_def)
  moreover have "live (?m st p) = live m1" for st p using m1 by (simp add: live_def set_slot_def)
  ultimately show ?thesis using f last c(1)
    by (intro exI [of _ m1] exI [of _ es] exI [of _ "?m A_CALL_ALERTING ?p"] exI [of _ "?m A_CALL_ACTIVE (removeAll t ?p)"]) simp
qed

theorem hangup_strands_call_witness:
  "\<exists>m m1 m2 m3 es. cstate (last (live m)) = A_CALL_DIALING \<and> amodem_free_call m 0 = Inr (m1, es) \<and>
    timer_fires True m1 1 = Inr (m2, amodem_send_calls_update) \<and> timer_fires True m2 1 = Inr (m3, amodem_send_calls_update) \<and>
    live m3 = live m1"
proof -
  let ?c = "\<lambda>n. empty_slot\<lparr>call_id := int n + 1, cstate := A_CALL_DIALING, timer := Some n\<rparr>"
  let ?m = "\<lparr>calls = [?c 0, ?c 1, empty_slot, empty_slot], call_count = 2,
    systimers = \<lparr>free_timers = [2..<32], opaque = [0 \<mapsto> 0, 1 \<mapsto> 1], pending = [0, 1]\<rparr>\<rparr>"
  have "table_wf ?m" "timers_ok ?m" and l: "cstate (last (live ?m)) = A_CALL_DIALING"
    by (simp_all add: table_wf_def timers_ok_def live_def empty_slot_def call_timers_def numeral_2_eq_2)
  from hangup_strands_call [OF this(1,2), of 0 1 1 True] l show ?thesis
    by (fastforce simp: empty_slot_def)
qed

text \<open>
  Remark (roundtrip). The number of an emulator and its console port determine each other.
\<close>

theorem remote_number_round:
  "remote_number_from_port port \<noteq> -1 \<Longrightarrow> remote_number_to_port (remote_number_from_port port) = port"
  by (auto simp: remote_number_from_port_def remote_number_to_port_def remote_consts Let_def split: if_splits elim!: evenE)

theorem remote_number_round_witness: "remote_number_to_port (remote_number_from_port 5556) = 5556"
  using remote_number_round [of 5556] by (simp add: remote_number_from_port_def remote_consts)

end
