(* ===== verification/Gsm_Hex.thy ===== *)
theory Gsm_Hex
  imports Emu_Prelude "HOL-Library.Signed_Division"
begin

unbundle bit_operations_syntax

text \<open>
  The first part of \<open>telephony/gsm.c\<close>: nibble-BCD bytes, hexadecimal text, and the growable byte
  buffers (\<open>GsmRope\<close>) that the SMS code assembles its messages in.

  C \<open>int\<close> parameters are \<open>int\<close>; characters and bytes are \<open>byte\<close>. A routine that fills a destination
  the caller has sized returns the bytes it stores, in order from the start of the destination.
\<close>

section \<open>BCD and hexadecimal\<close>

definition gsm_int_to_bcdi :: "int \<Rightarrow> byte" where
  "gsm_int_to_bcdi v = to_byte ((v sdiv 10) OR push_bit 4 (v smod 10))"

definition gsm_int_from_bcdi :: "byte \<Rightarrow> int" where
  "gsm_int_from_bcdi b =
     (let val = uint b;
          ret = 0;
          ret = (if val AND 0xf0 \<le> 0x90 then drop_bit 4 val else ret)
      in if val AND 0x0f \<le> 0x90 then ret OR ((val mod 0xf) * 10) else ret)"

text \<open>
  \<open>(unsigned)(c - '0') < 10\<close>: a difference that is negative is a large unsigned number, so the test
  is a range test.
\<close>

definition in_range :: "int \<Rightarrow> int \<Rightarrow> bool" where
  "in_range x n \<longleftrightarrow> 0 \<le> x \<and> x < n"

definition gsm_hexchar_to_int :: "byte \<Rightarrow> int" where
  "gsm_hexchar_to_int ch =
     (let c = sint ch
      in if in_range (c - 48) 10 then c - 48
         else if in_range (c - 97) 6 then 10 + (c - 97)
         else if in_range (c - 65) 6 then 10 + (c - 65)
         else -1)"

definition gsm_hexchar_to_int0 :: "byte \<Rightarrow> int" where
  "gsm_hexchar_to_int0 ch = (let ret = gsm_hexchar_to_int ch in if ret < 0 then 0 else ret)"

definition gsm_hex2_to_byte :: "byte \<Rightarrow> byte \<Rightarrow> int" where
  "gsm_hex2_to_byte h0 h1 =
     (let hi = gsm_hexchar_to_int h0; lo = gsm_hexchar_to_int h1
      in if hi < 0 \<or> lo < 0 then -1 else push_bit 4 hi OR lo)"

definition gsm_hex4_to_short :: "byte \<Rightarrow> byte \<Rightarrow> byte \<Rightarrow> byte \<Rightarrow> int" where
  "gsm_hex4_to_short h0 h1 h2 h3 =
     (let hi = gsm_hex2_to_byte h0 h1; lo = gsm_hex2_to_byte h2 h3
      in if hi < 0 \<or> lo < 0 then -1 else push_bit 8 hi OR lo)"

definition gsm_hex2_to_byte0 :: "byte \<Rightarrow> byte \<Rightarrow> int" where
  "gsm_hex2_to_byte0 h0 h1 =
     uint (to_byte (push_bit 4 (gsm_hexchar_to_int0 h0) OR gsm_hexchar_to_int0 h1))"

definition hexdigits :: "byte list" where
  "hexdigits = [48, 49, 50, 51, 52, 53, 54, 55, 56, 57, 97, 98, 99, 100, 101, 102]"

definition gsm_hex_from_byte :: "int \<Rightarrow> byte list" where
  "gsm_hex_from_byte val =
     [hexdigits ! nat (drop_bit 4 val AND 15), hexdigits ! nat (val AND 15)]"

definition gsm_hex_from_short :: "int \<Rightarrow> byte list" where
  "gsm_hex_from_short val = gsm_hex_from_byte (drop_bit 8 val) @ gsm_hex_from_byte val"

text \<open>
  The conversion loops, over the text from the current position on; \<open>n\<close> is what is left of
  \<open>hexlen\<close>. Reading past the end of the text is \<open>None\<close>.
\<close>

fun gsm_hex_to_bytes0 :: "byte list \<Rightarrow> nat \<Rightarrow> byte list option" where
  "gsm_hex_to_bytes0 hex 0 = Some []"
| "gsm_hex_to_bytes0 (h # hex) (Suc 0) = Some [to_byte (push_bit 4 (gsm_hexchar_to_int0 h))]"
| "gsm_hex_to_bytes0 (h0 # h1 # hex) (Suc (Suc n)) =
     map_option (Cons (to_byte (gsm_hex2_to_byte0 h0 h1))) (gsm_hex_to_bytes0 hex n)"
| "gsm_hex_to_bytes0 _ _ = None"

text \<open>\<open>gsm_hex_to_bytes\<close>: the return value and the bytes stored before it returns.\<close>

fun hex_to_bytes_loop :: "byte list \<Rightarrow> nat \<Rightarrow> (bool \<times> byte list) option" where
  "hex_to_bytes_loop hex 0 = Some (True, [])"
| "hex_to_bytes_loop (h0 # h1 # hex) (Suc n) =
     (let c = gsm_hex2_to_byte h0 h1
      in if c < 0 then Some (False, [])
         else map_option (\<lambda>(ok, bs). (ok, to_byte c # bs)) (hex_to_bytes_loop hex n))"
| "hex_to_bytes_loop _ (Suc n) = None"

definition gsm_hex_to_bytes :: "byte list \<Rightarrow> nat \<Rightarrow> (int \<times> byte list) option" where
  "gsm_hex_to_bytes hex hexlen =
     (if odd hexlen then Some (-1, [])
      else map_option (\<lambda>(ok, bs). (if ok then int (hexlen div 2) else -1, bs))
             (hex_to_bytes_loop hex (hexlen div 2)))"

definition gsm_hex_from_bytes :: "byte list \<Rightarrow> byte list" where
  "gsm_hex_from_bytes src = concat (map (\<lambda>b. gsm_hex_from_byte (uint b)) src)"

section \<open>Ropes\<close>

text \<open>
  \<open>GsmRopeRec\<close>. The buffer \<open>data\<close> is \<open>NULL\<close>, the array \<open>data0\<close> inside the structure, or a heap block;
  a heap byte that was never written is \<open>None\<close>. \<open>malloc\<close>, \<open>calloc\<close> and \<open>realloc\<close> are assumed to
  succeed, so \<open>error\<close> is set only by the callers of the model.
\<close>

datatype rope_data = Null | Inline | Heap "byte option list"

record gsm_rope =
  rope_data :: rope_data
  rope_max :: int
  rope_pos :: int
  rope_error :: bool
  data0 :: "byte option list"

definition gsm_rope_init :: "gsm_rope \<Rightarrow> gsm_rope" where
  "gsm_rope_init r = r\<lparr>rope_data := Null, rope_pos := 0, rope_max := 0, rope_error := False\<rparr>"

definition gsm_rope_init_alloc :: "gsm_rope \<Rightarrow> int \<Rightarrow> gsm_rope" where
  "gsm_rope_init_alloc r count =
     (let r = r\<lparr>rope_data := Inline, rope_pos := 0, rope_max := int (length (data0 r)), rope_error := False\<rparr>
      in if count > 0 then r\<lparr>rope_data := Heap (replicate (nat count) (Some 0)), rope_max := count\<rparr> else r)"

definition gsm_rope_done :: "gsm_rope \<Rightarrow> bool \<times> gsm_rope" where
  "gsm_rope_done r =
     (rope_error r, r\<lparr>rope_data := Null, rope_pos := 0, rope_max := 0, rope_error := False\<rparr>)"

text \<open>The bytes at \<open>rope->data\<close>.\<close>

definition rope_bytes :: "gsm_rope \<Rightarrow> byte option list" where
  "rope_bytes r = (case rope_data r of Null \<Rightarrow> [] | Inline \<Rightarrow> data0 r | Heap bs \<Rightarrow> bs)"

definition gsm_rope_done_acquire :: "gsm_rope \<Rightarrow> byte option list option \<times> int" where
  "gsm_rope_done_acquire r =
     (case rope_data r of
        Null \<Rightarrow> (None, rope_pos r)
      | Inline \<Rightarrow> (Some (take (nat (rope_pos r)) (data0 r)), rope_pos r)
      | Heap bs \<Rightarrow> (Some bs, rope_pos r))"

text \<open>\<open>while (new_max < new_count) new_max += (new_max >> 1) + 4;\<close>\<close>

function grow_max :: "int \<Rightarrow> int \<Rightarrow> int" where
  "grow_max new_max new_count =
     (if 0 \<le> new_max \<and> new_max < new_count then grow_max (new_max + (drop_bit 1 new_max + 4)) new_count
      else new_max)"
  by auto
termination
  by (relation "measure (\<lambda>(m, c). nat (c - m))") (auto simp: drop_bit_eq_div)

declare grow_max.simps [simp del]

text \<open>
  \<open>realloc\<close> keeps the bytes of a heap block; from the inline array it is \<open>realloc(NULL, n)\<close>, a fresh
  block.
\<close>

definition gsm_rope_ensure :: "gsm_rope \<Rightarrow> int \<Rightarrow> gsm_rope" where
  "gsm_rope_ensure r new_count =
     (case rope_data r of
        Null \<Rightarrow> r\<lparr>rope_max := new_count\<rparr>
      | d \<Rightarrow>
          (let old = (case d of Heap bs \<Rightarrow> bs | _ \<Rightarrow> []);
               new_max = grow_max (rope_max r) new_count
           in r\<lparr>rope_data := Heap (take (nat new_max) old @ replicate (nat new_max - length old) None),
                rope_max := new_max\<rparr>))"

definition gsm_rope_can_grow :: "gsm_rope \<Rightarrow> int \<Rightarrow> bool \<times> gsm_rope" where
  "gsm_rope_can_grow r count =
     (if rope_data r = Null \<or> rope_error r then (False, r)
      else if rope_pos r + count > rope_max r then (True, gsm_rope_ensure r (rope_pos r + count))
      else (True, r))"

text \<open>Stores at \<open>rope->data + pos\<close>; outside the buffer is \<open>None\<close>.\<close>

definition rope_store :: "gsm_rope \<Rightarrow> int \<Rightarrow> byte list \<Rightarrow> gsm_rope option" where
  "rope_store r pos bs =
     (case memcpy (rope_bytes r) pos (map Some bs) (int (length bs)) of
        None \<Rightarrow> None
      | Some d \<Rightarrow>
          Some (case rope_data r of Inline \<Rightarrow> r\<lparr>data0 := d\<rparr> | Heap _ \<Rightarrow> r\<lparr>rope_data := Heap d\<rparr> | Null \<Rightarrow> r))"

definition gsm_rope_add_c :: "gsm_rope \<Rightarrow> byte \<Rightarrow> gsm_rope option" where
  "gsm_rope_add_c r c =
     (let (g, r) = gsm_rope_can_grow r 1
      in map_option (\<lambda>r. r\<lparr>rope_pos := rope_pos r + 1\<rparr>) (if g then rope_store r (rope_pos r) [c] else Some r))"

definition gsm_rope_add :: "gsm_rope \<Rightarrow> byte list \<Rightarrow> gsm_rope option" where
  "gsm_rope_add r bs =
     (let (g, r) = gsm_rope_can_grow r (int (length bs))
      in map_option (\<lambda>r. r\<lparr>rope_pos := rope_pos r + int (length bs)\<rparr>)
           (if g then rope_store r (rope_pos r) bs else Some r))"

text \<open>\<open>gsm_rope_reserve\<close>: the offset of the reserved bytes, or \<open>None\<close> for \<open>NULL\<close>.\<close>

definition gsm_rope_reserve :: "gsm_rope \<Rightarrow> int \<Rightarrow> int option \<times> gsm_rope" where
  "gsm_rope_reserve r count =
     (let (g, r) = gsm_rope_can_grow r count
      in (if g then Some (rope_pos r) else None, r\<lparr>rope_pos := rope_pos r + count\<rparr>))"

section \<open>Hexadecimal round trip\<close>

lemma hexchar_hexdigit_nat: "\<forall>k \<in> {0..<16}. gsm_hexchar_to_int (hexdigits ! k) = int k"
  by code_simp

lemma hexchar_hexdigit: "0 \<le> v \<Longrightarrow> v < 16 \<Longrightarrow> gsm_hexchar_to_int (hexdigits ! nat v) = v"
  using hexchar_hexdigit_nat [rule_format, of "nat v"] by simp

lemma and_15: "(v::int) AND 15 = v mod 16"
  using take_bit_eq_mask [of 4 v] by (simp add: take_bit_eq_mod mask_eq_exp_minus_1)

lemma join_nibbles: "push_bit 4 (v div 16 mod 16) OR (v mod 16) = v mod (256::int)"
proof -
  have "push_bit 4 (v div 16 mod 16) OR (v mod 16) = push_bit 4 (take_bit 4 (drop_bit 4 v)) OR take_bit 4 v"
    by (simp add: take_bit_eq_mod drop_bit_eq_div)
  also have "\<dots> = take_bit 8 v"
    by (rule bit_eqI) (auto simp: bit_simps)
  finally show ?thesis by (simp add: take_bit_eq_mod)
qed

lemma hex2_from_byte:
  "gsm_hex2_to_byte (gsm_hex_from_byte v ! 0) (gsm_hex_from_byte v ! 1) = v mod 256"
  by (simp add: gsm_hex2_to_byte_def gsm_hex_from_byte_def and_15 drop_bit_eq_div hexchar_hexdigit
      join_nibbles Let_def not_less)

lemma hex_to_bytes_loop_append:
  "hex_to_bytes_loop (gsm_hex_from_bytes bs @ r) (length bs) = Some (True, bs)"
proof (induction bs)
  case Nil
  then show ?case by simp
next
  case (Cons b bs)
  have v: "uint b mod 256 = uint b" using uint_byte_range [of b] by (simp add: mod_pos_pos_trivial)
  have "gsm_hex_from_bytes (b # bs) @ r = gsm_hex_from_byte (uint b) ! 0 # gsm_hex_from_byte (uint b) ! 1 #
      (gsm_hex_from_bytes bs @ r)"
    by (simp add: gsm_hex_from_bytes_def gsm_hex_from_byte_def)
  then show ?case using Cons hex2_from_byte [of "uint b"] v by simp
qed

lemma length_hex_from_bytes [simp]: "length (gsm_hex_from_bytes bs) = 2 * length bs"
  by (induction bs) (simp_all add: gsm_hex_from_bytes_def gsm_hex_from_byte_def)

section \<open>Ropes append\<close>

text \<open>
  The contract of an append-only buffer: adding bytes never touches memory outside the buffer and
  the buffer then holds what it held followed by the bytes. The client result is about sequences of
  additions.
\<close>

locale append_buffer =
  fixes wf :: "'r \<Rightarrow> bool"
    and stored :: "'r \<Rightarrow> 'b list"
    and add :: "'r \<Rightarrow> 'b list \<Rightarrow> 'r option"
  assumes add_law: "wf r \<Longrightarrow> \<exists>r'. add r bs = Some r' \<and> wf r' \<and> stored r' = stored r @ bs"
begin

fun add_all :: "'r \<Rightarrow> 'b list list \<Rightarrow> 'r option" where
  "add_all r [] = Some r"
| "add_all r (bs # bss) = Option.bind (add r bs) (\<lambda>r. add_all r bss)"

lemma add_all_law: "wf r \<Longrightarrow> \<exists>r'. add_all r bss = Some r' \<and> wf r' \<and> stored r' = stored r @ concat bss"
proof (induction bss arbitrary: r)
  case Nil
  then show ?case by simp
next
  case (Cons bs bss)
  obtain r1 where r1: "add r bs = Some r1" "wf r1" "stored r1 = stored r @ bs"
    using add_law [OF Cons.prems] by blast
  with Cons.IH [OF r1(2)] show ?case by auto
qed

end

text \<open>A heap rope with room or without; the first \<open>pos\<close> bytes have been written.\<close>

definition rope_wf :: "gsm_rope \<Rightarrow> bool" where
  "rope_wf r \<longleftrightarrow> (\<exists>bs. rope_data r = Heap bs) \<and> \<not> rope_error r \<and> 0 \<le> rope_pos r \<and>
     rope_pos r \<le> rope_max r \<and> rope_max r = int (length (rope_bytes r)) \<and>
     (\<forall>i < nat (rope_pos r). rope_bytes r ! i \<noteq> None)"

definition rope_text :: "gsm_rope \<Rightarrow> byte list" where
  "rope_text r = map the (take (nat (rope_pos r)) (rope_bytes r))"

lemma grow_max_ge: "0 \<le> m \<Longrightarrow> c \<le> grow_max m c \<and> m \<le> grow_max m c"
proof (induction m c rule: grow_max.induct)
  case (1 m c)
  show ?case
  proof (cases "m < c")
    case True
    have d: "0 \<le> drop_bit 1 m" using 1(2) by (simp add: drop_bit_eq_div)
    then have "c \<le> grow_max (m + (drop_bit 1 m + 4)) c \<and> m + (drop_bit 1 m + 4) \<le> grow_max (m + (drop_bit 1 m + 4)) c"
      using 1 True by auto
    then show ?thesis using True 1(2) d by (subst (1 2) grow_max.simps) simp
  next
    case False
    then show ?thesis by (subst (1 2) grow_max.simps) simp
  qed
qed

lemma can_grow_heap:
  assumes "rope_wf r" "0 \<le> n"
  shows "\<exists>r'. gsm_rope_can_grow r n = (True, r') \<and> rope_wf r' \<and> rope_text r' = rope_text r \<and>
    rope_pos r' = rope_pos r \<and> rope_pos r' + n \<le> rope_max r'"
proof (cases "rope_pos r + n > rope_max r")
  case False
  then show ?thesis using assms by (auto simp: gsm_rope_can_grow_def rope_wf_def)
next
  case True
  obtain bs where bs: "rope_data r = Heap bs" using assms by (auto simp: rope_wf_def)
  have b: "0 \<le> rope_pos r" "rope_pos r \<le> int (length bs)" "rope_max r = int (length bs)" "\<not> rope_error r"
      "\<forall>i < nat (rope_pos r). bs ! i \<noteq> None"
    using assms bs by (auto simp: rope_wf_def rope_bytes_def)
  define m where "m = grow_max (rope_max r) (rope_pos r + n)"
  have m: "rope_pos r + n \<le> m" "int (length bs) \<le> m"
    using grow_max_ge [of "rope_max r" "rope_pos r + n"] b by (auto simp: m_def)
  let ?r = "r\<lparr>rope_data := Heap (take (nat m) bs @ replicate (nat m - length bs) None), rope_max := m\<rparr>"
  have "gsm_rope_can_grow r n = (True, ?r)"
    using True bs b by (simp add: gsm_rope_can_grow_def gsm_rope_ensure_def m_def Let_def)
  moreover have "take (nat m) bs = bs" using m by simp
  moreover have "rope_wf ?r" "rope_text ?r = rope_text r"
    using b m bs assms(2) \<open>take (nat m) bs = bs\<close>
    by (auto simp: rope_wf_def rope_bytes_def rope_text_def nth_append)
  ultimately show ?thesis using m by auto
qed

lemma rope_store_heap:
  assumes "rope_wf r" "rope_pos r + int (length bs) \<le> rope_max r"
  shows "\<exists>r'. rope_store r (rope_pos r) bs = Some r' \<and>
    rope_wf (r'\<lparr>rope_pos := rope_pos r' + int (length bs)\<rparr>) \<and>
    rope_text (r'\<lparr>rope_pos := rope_pos r' + int (length bs)\<rparr>) = rope_text r @ bs"
proof -
  obtain ds where ds: "rope_data r = Heap ds" using assms by (auto simp: rope_wf_def)
  have b: "0 \<le> rope_pos r" "rope_pos r + int (length bs) \<le> int (length ds)" "rope_max r = int (length ds)"
      "\<not> rope_error r" "\<forall>i < nat (rope_pos r). ds ! i \<noteq> None"
    using assms ds by (auto simp: rope_wf_def rope_bytes_def)
  define p where "p = nat (rope_pos r)"
  have p: "rope_pos r = int p" "p + length bs \<le> length ds" using b by (auto simp: p_def)
  let ?d = "take p ds @ map Some bs @ drop (p + length bs) ds"
  have "memcpy ds (int p) (map Some bs) (int (length bs)) = Some ?d"
    using p by (simp add: memcpy_def nat_add_distrib)
  then have "rope_store r (rope_pos r) bs = Some (r\<lparr>rope_data := Heap ?d\<rparr>)"
    using ds p by (simp add: rope_store_def rope_bytes_def)
  moreover have init: "?d ! i \<noteq> None" if "i < p + length bs" for i
    using b(5) p(2) that unfolding p(1) nat_int by (cases "i < p") (auto simp: nth_append)
  have "rope_wf (r\<lparr>rope_data := Heap ?d, rope_pos := rope_pos r + int (length bs)\<rparr>)"
    unfolding rope_wf_def
  proof (intro conjI allI impI)
    fix i
    let ?r = "r\<lparr>rope_data := Heap ?d, rope_pos := rope_pos r + int (length bs)\<rparr>"
    assume "i < nat (rope_pos ?r)"
    then have "i < p + length bs" using p(1) by (simp add: nat_add_distrib)
    from init [OF this] show "rope_bytes ?r ! i \<noteq> None" by (simp add: rope_bytes_def)
  qed (use p b(3,4) in \<open>auto simp: rope_bytes_def\<close>)
  moreover have "rope_text (r\<lparr>rope_data := Heap ?d, rope_pos := rope_pos r + int (length bs)\<rparr>) = rope_text r @ bs"
    using p ds by (simp add: rope_text_def rope_bytes_def nat_add_distrib comp_def)
  ultimately show ?thesis by simp
qed

lemma rope_add_heap:
  assumes "rope_wf r"
  shows "\<exists>r'. gsm_rope_add r bs = Some r' \<and> rope_wf r' \<and> rope_text r' = rope_text r @ bs"
proof -
  obtain r1 where r1: "gsm_rope_can_grow r (int (length bs)) = (True, r1)" "rope_wf r1"
      "rope_text r1 = rope_text r" "rope_pos r1 + int (length bs) \<le> rope_max r1"
    using can_grow_heap [OF assms, of "int (length bs)"] by auto
  with rope_store_heap [OF r1(2,4)] show ?thesis by (auto simp: gsm_rope_add_def)
qed

interpretation rope_buf: append_buffer rope_wf rope_text gsm_rope_add
  by unfold_locales (rule rope_add_heap)

lemma rope_add_c_eq: "gsm_rope_add_c r c = gsm_rope_add r [c]"
  by (simp add: gsm_rope_add_c_def gsm_rope_add_def)

lemma rope_init_alloc_wf: "0 < n \<Longrightarrow> rope_wf (gsm_rope_init_alloc r n)" "rope_text (gsm_rope_init_alloc r n) = []"
  by (simp_all add: gsm_rope_init_alloc_def rope_wf_def rope_bytes_def rope_text_def Let_def)

section \<open>Properties\<close>

text \<open>
  Remark (roundtrip). Hexadecimal text: what \<open>gsm_hex_from_bytes\<close> writes, \<open>gsm_hex_to_bytes\<close>
  reads back, returning the number of bytes.
\<close>

theorem hex_roundtrip:
  "gsm_hex_to_bytes (gsm_hex_from_bytes bs @ r) (2 * length bs) = Some (int (length bs), bs)"
  using hex_to_bytes_loop_append [of bs r] by (simp add: gsm_hex_to_bytes_def)

text \<open>
  Remark (error). The BCD decoder does not invert the encoder: of the values 0 to 99 only the
  multiples of ten survive (\<open>gsm_int_from_bcdi\<close> takes the low nibble modulo 15 of the whole byte).
\<close>

theorem bcdi_roundtrip_values:
  "filter (\<lambda>v. gsm_int_from_bcdi (gsm_int_to_bcdi v) = v) [0..99] = [0, 10, 20, 30, 40, 50, 60, 70, 80, 90]"
  by code_simp

text \<open>
  Remark (safety). A heap rope grows as needed: any sequence of additions to a freshly
  allocated rope stays inside its buffer, and the rope then holds the concatenation of the data.
\<close>

theorem rope_appends:
  assumes "0 < n"
  shows "\<exists>r'. rope_buf.add_all (gsm_rope_init_alloc r n) bss = Some r' \<and> rope_text r' = concat bss"
  using rope_buf.add_all_law [OF rope_init_alloc_wf(1) [OF assms], of r bss] rope_init_alloc_wf(2) [of r n]
  by auto

theorem rope_appends_witness:
  "\<exists>r'. rope_buf.add_all (gsm_rope_init_alloc \<lparr>rope_data = Null, rope_max = 0, rope_pos = 0, rope_error = False,
      data0 = replicate 16 None\<rparr> 2) [[1, 2, 3], [4]] = Some r' \<and> rope_text r' = [1, 2, 3, 4]"
  using rope_appends [of 2 _ "[[1, 2, 3], [4]]"] by simp

text \<open>
  Remark (error). A rope that starts in its inline array loses its contents when it grows: the
  first byte written reads back as uninitialised memory after 17 additions.
\<close>

theorem rope_inline_growth_loses:
  "case gsm_rope_add (gsm_rope_init_alloc \<lparr>rope_data = Null, rope_max = 0, rope_pos = 0, rope_error = False,
        data0 = replicate 16 None\<rparr> 0) (replicate 16 65) of
     None \<Rightarrow> False
   | Some r \<Rightarrow> rope_bytes r ! 0 = Some 65 \<and>
       (case gsm_rope_add_c r 66 of
          None \<Rightarrow> False
        | Some r \<Rightarrow> rope_bytes r ! 0 = None \<and> rope_bytes r ! 16 = Some 66)"
  by code_simp

end
