(* ===== verification/Sim_Card.thy ===== *)
theory Sim_Card
  imports Gsm_Hex
begin

text \<open>
  The SIM card (\<open>telephony/sim_card.c\<close>): the PIN and PUK state machine and the canned answers to
  restricted access commands (the build has \<open>ENABLE_DYNAMIC_RECORDS\<close> at 0).

  The arguments of the operations are zero-terminated C strings, given here by their characters
  without the terminator. The PIN and PUK of the card are the arrays of the structure.
\<close>

section \<open>C strings in arrays\<close>

definition nul :: char where "nul = CHR 0x00"

text \<open>\<open>strncpy(dst, src, n)\<close>: at most \<open>n\<close> characters, padded with zeros up to \<open>n\<close>.\<close>

definition strncpy :: "char list \<Rightarrow> string \<Rightarrow> nat \<Rightarrow> char list option" where
  "strncpy dst src n =
     (if n \<le> length dst then Some (take n (src @ replicate n nul) @ drop n dst) else None)"

text \<open>The string in an array; none when it has no terminator.\<close>

definition cstr :: "char list \<Rightarrow> string option" where
  "cstr a = (if nul \<in> set a then Some (takeWhile (\<lambda>c. c \<noteq> nul) a) else None)"

section \<open>The card\<close>

definition A_SIM_PIN_SIZE :: nat where "A_SIM_PIN_SIZE = 4"
definition A_SIM_PUK_SIZE :: nat where "A_SIM_PUK_SIZE = 8"

lemmas sim_sizes = A_SIM_PIN_SIZE_def A_SIM_PUK_SIZE_def

datatype sim_status = A_SIM_STATUS_ABSENT | A_SIM_STATUS_NOT_READY | A_SIM_STATUS_READY
  | A_SIM_STATUS_PIN | A_SIM_STATUS_PUK | A_SIM_STATUS_NETWORK_PERSONALIZATION

record sim_card =
  status :: sim_status
  pin :: "char list"
  puk :: "char list"
  pin_retries :: int

definition asimcard_create :: "sim_card option" where
  "asimcard_create =
     Option.bind (strncpy (replicate (A_SIM_PIN_SIZE + 1) nul) ''0000'' (A_SIM_PIN_SIZE + 1)) (\<lambda>p.
       Option.bind (strncpy (replicate (A_SIM_PUK_SIZE + 1) nul) ''12345678'' (A_SIM_PUK_SIZE + 1)) (\<lambda>q.
         Some \<lparr>status = A_SIM_STATUS_READY, pin = p, puk = q, pin_retries = 0\<rparr>))"

definition asimcard_get_status :: "sim_card \<Rightarrow> sim_status" where
  "asimcard_get_status s = status s"

definition asimcard_set_status :: "sim_card \<Rightarrow> sim_status \<Rightarrow> sim_card" where
  "asimcard_set_status s st = s\<lparr>status := st\<rparr>"

definition asimcard_get_pin :: "sim_card \<Rightarrow> string option" where
  "asimcard_get_pin s = cstr (pin s)"

definition asimcard_get_puk :: "sim_card \<Rightarrow> string option" where
  "asimcard_get_puk s = cstr (puk s)"

definition asimcard_set_pin :: "sim_card \<Rightarrow> string \<Rightarrow> sim_card option" where
  "asimcard_set_pin s p =
     map_option (\<lambda>a. s\<lparr>pin := a, pin_retries := 0\<rparr>) (strncpy (pin s) p A_SIM_PIN_SIZE)"

definition asimcard_set_puk :: "sim_card \<Rightarrow> string \<Rightarrow> sim_card option" where
  "asimcard_set_puk s p =
     map_option (\<lambda>a. s\<lparr>puk := a, pin_retries := 0\<rparr>) (strncpy (puk s) p A_SIM_PUK_SIZE)"

definition asimcard_check_pin :: "sim_card \<Rightarrow> string \<Rightarrow> (int \<times> sim_card) option" where
  "asimcard_check_pin s p =
     (if status s \<noteq> A_SIM_STATUS_PIN \<and> status s \<noteq> A_SIM_STATUS_READY then Some (0, s)
      else
        Option.bind (cstr (pin s)) (\<lambda>own.
          if own = p then Some (1, s\<lparr>status := A_SIM_STATUS_READY, pin_retries := 0\<rparr>)
          else if status s \<noteq> A_SIM_STATUS_READY then
            (let s = s\<lparr>pin_retries := pin_retries s + 1\<rparr>
             in Some (0, if pin_retries s = 3 then s\<lparr>status := A_SIM_STATUS_PUK\<rparr> else s))
          else Some (0, s)))"

definition asimcard_check_puk :: "sim_card \<Rightarrow> string \<Rightarrow> string \<Rightarrow> (int \<times> sim_card) option" where
  "asimcard_check_puk s k p =
     (if status s \<noteq> A_SIM_STATUS_PUK then Some (0, s)
      else
        Option.bind (cstr (puk s)) (\<lambda>own.
          if own = k then
            Option.bind (strncpy (puk s) k A_SIM_PUK_SIZE) (\<lambda>a.
              Option.bind (strncpy (pin s) p A_SIM_PIN_SIZE) (\<lambda>b.
                Some (1, s\<lparr>puk := a, pin := b, status := A_SIM_STATUS_READY, pin_retries := 0\<rparr>)))
          else
            (let s = s\<lparr>pin_retries := pin_retries s + 1\<rparr>
             in Some (0, if pin_retries s = 6 then s\<lparr>status := A_SIM_STATUS_ABSENT\<rparr> else s))))"

section \<open>Restricted access\<close>

definition answers :: "(string \<times> string) list" where
  "answers =
    [(''+CRSM=192,28436,0,0,15'', ''+CRSM: 144,0,000000146f1404001aa0aa01020000''),
     (''+CRSM=176,28436,0,0,20'', ''+CRSM: 144,0,416e64726f6964ffffffffffffffffffffffffff''),
     (''+CRSM=192,28433,0,0,15'', ''+CRSM: 144,0,000000016f11040011a0aa01020000''),
     (''+CRSM=176,28433,0,0,1'', ''+CRSM: 144,0,55''),
     (''+CRSM=192,12258,0,0,15'', ''+CRSM: 144,0,0000000a2fe204000fa0aa01020000''),
     (''+CRSM=176,12258,0,0,10'', ''+CRSM: 144,0,98101430121181157002''),
     (''+CRSM=192,28435,0,0,15'', ''+CRSM: 144,0,000000016f13040011a0aa01020000''),
     (''+CRSM=176,28435,0,0,1'', ''+CRSM: 144,0,55''),
     (''+CRSM=192,28472,0,0,15'', ''+CRSM: 144,0,0000000f6f3804001aa0aa01020000''),
     (''+CRSM=176,28472,0,0,15'', ''+CRSM: 144,0,ff30ffff3c003c03000c0000f03f00''),
     (''+CRSM=192,28617,0,0,15'', ''+CRSM: 144,0,000000086fc9040011a0aa01020104''),
     (''+CRSM=178,28617,1,4,4'', ''+CRSM: 144,0,01000000''),
     (''+CRSM=192,28618,0,0,15'', ''+CRSM: 144,0,0000000a6fca040011a0aa01020105''),
     (''+CRSM=178,28618,1,4,5'', ''+CRSM: 144,0,0000000000''),
     (''+CRSM=192,28589,0,0,15'', ''+CRSM: 144,0,000000046fad04000aa0aa01020000''),
     (''+CRSM=176,28589,0,0,4'', ''+CRSM: 144,0,00000003''),
     (''+CRSM=192,28438,0,0,15'', ''+CRSM: 144,0,000000026f1604001aa0aa01020000''),
     (''+CRSM=176,28438,0,0,2'', ''+CRSM: 144,0,0233''),
     (''+CRSM=192,28486,0,0,15'', ''+CRSM: 148,4''),
     (''+CRSM=192,28621,0,0,15'', ''+CRSM: 148,4''),
     (''+CRSM=192,28613,0,0,15'', ''+CRSM: 144,0,000000f06fc504000aa0aa01020118''),
     (''+CRSM=178,28613,1,4,24'', ''+CRSM: 144,0,43058441aa890affffffffffffffffffffffffffffffffff''),
     (''+CRSM=192,28480,0,0,15'', ''+CRSM: 144,0,000000806f40040011a0aa01020120''),
     (''+CRSM=178,28480,1,4,32'', ''+CRSM: 144,0,ffffffffffffffffffffffffffffffffffff07815155258131f5ffffffffffff''),
     (''+CRSM=192,28615,0,0,15'', ''+CRSM: 144,0,000000406fc7040011a0aa01020120''),
     (''+CRSM=178,28615,1,4,32'', ''+CRSM: 144,0,566f6963656d61696cffffffffffffffffff07915155125740f9ffffffffffff'')]"

fun find_answer :: "(string \<times> string) list \<Rightarrow> string \<Rightarrow> string" where
  "find_answer [] cmd = ''ERROR: BAD COMMAND''"
| "find_answer ((c, a) # as) cmd = (if c = cmd then a else find_answer as cmd)"

text \<open>The assertion on the prefix is \<open>None\<close>.\<close>

definition asimcard_io :: "string \<Rightarrow> string option" where
  "asimcard_io cmd =
     (if take 6 cmd = ''+CRSM='' then Some (find_answer answers cmd) else None)"

section \<open>Properties of the state machine\<close>

text \<open>The arrays keep their size and their last byte stays zero, so they always hold a string.\<close>

definition card_wf :: "sim_card \<Rightarrow> bool" where
  "card_wf s \<longleftrightarrow> length (pin s) = 5 \<and> last (pin s) = nul \<and> length (puk s) = 9 \<and> last (puk s) = nul"

lemma strncpy_wf:
  assumes "length a = Suc n" and "last a = nul"
  shows "\<exists>b. strncpy a src n = Some b \<and> length b = Suc n \<and> last b = nul \<and>
    (nul \<notin> set src \<longrightarrow> cstr b = Some (take n src))"
proof -
  obtain c where d: "drop n a = [c]"
    using assms(1) by (metis Cons_nth_drop_Suc drop_all le_refl lessI)
  have c: "c = nul" using assms d by (metis last_drop last.simps lessI)
  have "takeWhile (\<lambda>c. c \<noteq> nul) (take n (src @ replicate n nul) @ [nul]) = take n src" if "nul \<notin> set src"
  proof -
    have "takeWhile (\<lambda>c. c \<noteq> nul) (replicate m nul @ [nul]) = []" for m by (cases m) simp_all
    then have "takeWhile (\<lambda>c. c \<noteq> nul) (take n src @ replicate m nul @ [nul]) = take n src" for m
      using that by (subst takeWhile_append2) (auto dest: in_set_takeD)
    then show ?thesis by (simp add: take_append)
  qed
  then show ?thesis using assms(1) d c by (simp add: strncpy_def cstr_def)
qed

lemma cstr_wf:
  assumes "length a = Suc n" "last a = nul"
  obtains s where "cstr a = Some s"
  using assms by (metis cstr_def last_in_set length_0_conv nat.simps(3))

text \<open>Attempts to unlock the card, and their results.\<close>

datatype sim_try = Try_pin string | Try_puk string string

fun sim_attempt :: "sim_card \<Rightarrow> sim_try \<Rightarrow> (int \<times> sim_card) option" where
  "sim_attempt s (Try_pin p) = asimcard_check_pin s p"
| "sim_attempt s (Try_puk k p) = asimcard_check_puk s k p"

fun sim_run :: "sim_card \<Rightarrow> sim_try list \<Rightarrow> (int list \<times> sim_card) option" where
  "sim_run s [] = Some ([], s)"
| "sim_run s (x # xs) =
     Option.bind (sim_attempt s x) (\<lambda>(r, s). map_option (\<lambda>(rs, s). (r # rs, s)) (sim_run s xs))"

text \<open>
  What a locked card promises: three wrong PINs, then three wrong PUKs, then nothing. The state is
  the number of attempts that counted.
\<close>

fun lock_count :: "nat \<Rightarrow> sim_try list \<Rightarrow> nat" where
  "lock_count n [] = n"
| "lock_count n (Try_pin p # xs) = lock_count (if n < 3 then n + 1 else n) xs"
| "lock_count n (Try_puk k p # xs) = lock_count (if 3 \<le> n \<and> n < 6 then n + 1 else n) xs"

definition lock_status :: "nat \<Rightarrow> sim_status" where
  "lock_status n =
     (if n < 3 then A_SIM_STATUS_PIN else if n < 6 then A_SIM_STATUS_PUK else A_SIM_STATUS_ABSENT)"

definition wrong :: "sim_card \<Rightarrow> sim_try \<Rightarrow> bool" where
  "wrong s x = (case x of Try_pin p \<Rightarrow> cstr (pin s) \<noteq> Some p | Try_puk k p \<Rightarrow> cstr (puk s) \<noteq> Some k)"

definition locked :: "sim_card \<Rightarrow> nat \<Rightarrow> sim_card" where
  "locked s n = s\<lparr>status := lock_status n, pin_retries := int n\<rparr>"

lemma sim_attempt_wrong:
  assumes "card_wf s" and "wrong s x" and "n \<le> 6"
  shows "sim_attempt (locked s n) x = Some (0, locked s (lock_count n [x]))"
proof -
  obtain p where p: "cstr (pin s) = Some p" using assms(1) by (auto simp: card_wf_def intro: cstr_wf [of _ 4])
  obtain k where k: "cstr (puk s) = Some k" using assms(1) by (auto simp: card_wf_def intro: cstr_wf [of _ 8])
  have cases: "n < 2 \<or> n = 2 \<or> n = 3 \<or> n = 4 \<or> n = 5 \<or> n = 6" using assms(3) by linarith
  show ?thesis
  proof (cases x)
    case (Try_pin q)
    then have "p \<noteq> q" using assms(2) p by (simp add: wrong_def)
    then show ?thesis using Try_pin p cases
      by (elim disjE) (simp_all add: locked_def lock_status_def asimcard_check_pin_def)
  next
    case (Try_puk l q)
    then have "k \<noteq> l" using assms(2) k by (simp add: wrong_def)
    then show ?thesis using Try_puk k cases
      by (elim disjE) (simp_all add: locked_def lock_status_def asimcard_check_puk_def)
  qed
qed

lemma lock_count_le: "n \<le> 6 \<Longrightarrow> lock_count n xs \<le> 6"
  by (induction n xs rule: lock_count.induct) auto

lemma lock_count_Cons: "lock_count n (x # xs) = lock_count (lock_count n [x]) xs"
  by (cases x) simp_all

lemma sim_run_wrong:
  assumes "card_wf s" and "list_all (wrong s) xs" and "n \<le> 6"
  shows "sim_run (locked s n) xs = Some (replicate (length xs) 0, locked s (lock_count n xs))"
  using assms(2,3)
proof (induction xs arbitrary: n)
  case (Cons x xs)
  have "lock_count n [x] \<le> 6" using Cons.prems(2) by (rule lock_count_le)
  then show ?case
    using Cons sim_attempt_wrong [OF assms(1), of x n] lock_count_Cons [of n x xs] by simp
qed simp

lemma create_wf: "\<exists>s. asimcard_create = Some s \<and> card_wf s \<and> cstr (pin s) = Some ''0000'' \<and> cstr (puk s) = Some ''12345678''"
  by (simp add: asimcard_create_def strncpy_def sim_sizes card_wf_def cstr_def nul_def eval_nat_numeral)

lemma set_pin_puk_wf:
  assumes "card_wf s" and "nul \<notin> set p"
  shows "\<exists>s'. asimcard_set_pin s p = Some s' \<and> card_wf s' \<and> cstr (pin s') = Some (take 4 p) \<and>
      puk s' = puk s \<and> status s' = status s \<and> pin_retries s' = 0"
    and "\<exists>s'. asimcard_set_puk s p = Some s' \<and> card_wf s' \<and> cstr (puk s') = Some (take 8 p) \<and>
      pin s' = pin s \<and> status s' = status s \<and> pin_retries s' = 0"
  using assms strncpy_wf [of "pin s" 4 p] strncpy_wf [of "puk s" 8 p]
  by (auto simp: card_wf_def asimcard_set_pin_def asimcard_set_puk_def sim_sizes)

lemma check_puk_right:
  assumes "card_wf s" and "status s = A_SIM_STATUS_PUK" and k: "cstr (puk s) = Some k" and "nul \<notin> set p"
  shows "\<exists>s'. asimcard_check_puk s k p = Some (1, s') \<and> card_wf s' \<and> status s' = A_SIM_STATUS_READY \<and>
    pin_retries s' = 0 \<and> cstr (pin s') = Some (take 4 p)"
  using assms strncpy_wf [of "pin s" 4 p] strncpy_wf [of "puk s" 8 k]
  by (auto simp: card_wf_def asimcard_check_puk_def sim_sizes)

text \<open>
  Property C14 (refinement). Guessing on a locked card: whatever sequence of wrong PINs and wrong PUKs
  is tried, every attempt is refused, the secrets do not change, and the card goes through exactly
  the states of the three-and-three rule: PIN for up to two counted attempts, PUK from the third
  wrong PIN, absent from the third wrong PUK after that.
\<close>

theorem sim_lockout:
  assumes "card_wf s" and "status s = A_SIM_STATUS_PIN" and "pin_retries s = 0" and "list_all (wrong s) xs"
  shows "\<exists>s'. sim_run s xs = Some (replicate (length xs) 0, s') \<and> pin s' = pin s \<and> puk s' = puk s \<and>
    status s' = lock_status (lock_count 0 xs)"
proof -
  have "locked s 0 = s" using assms(2,3) by (simp add: locked_def lock_status_def)
  then show ?thesis using sim_run_wrong [OF assms(1,4), of 0] by (simp add: locked_def)
qed

theorem sim_lockout_witness:
  "\<exists>c s'. asimcard_create = Some c \<and>
     sim_run (asimcard_set_status c A_SIM_STATUS_PIN)
       [Try_pin ''1'', Try_pin ''2'', Try_pin ''3'', Try_puk ''1'' ''2'', Try_puk ''1'' ''2'', Try_puk ''1'' ''2''] =
       Some ([0, 0, 0, 0, 0, 0], s') \<and> status s' = A_SIM_STATUS_ABSENT"
proof -
  obtain c where c: "asimcard_create = Some c" "card_wf c" "cstr (pin c) = Some ''0000''"
    "cstr (puk c) = Some ''12345678''" using create_wf by blast
  let ?s = "asimcard_set_status c A_SIM_STATUS_PIN"
  have "card_wf ?s" "status ?s = A_SIM_STATUS_PIN" using c(2) by (simp_all add: asimcard_set_status_def card_wf_def)
  moreover have "pin_retries ?s = 0" using c(1)
    by (auto simp: asimcard_create_def asimcard_set_status_def strncpy_def sim_sizes)
  ultimately have "\<exists>s'. sim_run ?s [Try_pin ''1'', Try_pin ''2'', Try_pin ''3'', Try_puk ''1'' ''2'',
        Try_puk ''1'' ''2'', Try_puk ''1'' ''2''] = Some ([0, 0, 0, 0, 0, 0], s') \<and> status s' = A_SIM_STATUS_ABSENT"
    using c(3,4) sim_lockout [of ?s "[Try_pin ''1'', Try_pin ''2'', Try_pin ''3'', Try_puk ''1'' ''2'',
        Try_puk ''1'' ''2'', Try_puk ''1'' ''2'']"]
    by (simp add: wrong_def asimcard_set_status_def lock_status_def eval_nat_numeral del: sim_run.simps) blast
  then show ?thesis using c(1) by blast
qed

text \<open>
  Remark (functional). Unlocking: after any wrong attempts, a card that is not yet absent is
  opened by the secret it asks for. In the PIN state the right PIN makes it ready, in the PUK state
  the right PUK does and installs the new PIN, cut to four characters; an absent card refuses
  everything and does not change.
\<close>

theorem sim_unlock:
  assumes "card_wf s" and "status s = A_SIM_STATUS_PIN" and "pin_retries s = 0" and "list_all (wrong s) xs"
    and "cstr (pin s) = Some p" and "cstr (puk s) = Some k" and "nul \<notin> set q"
    and "sim_run s xs = Some (rs, s')"
  shows "case status s' of
      A_SIM_STATUS_PIN \<Rightarrow> asimcard_check_pin s' p = Some (1, s'\<lparr>status := A_SIM_STATUS_READY, pin_retries := 0\<rparr>)
    | A_SIM_STATUS_PUK \<Rightarrow> (\<exists>s2. asimcard_check_puk s' k q = Some (1, s2) \<and> status s2 = A_SIM_STATUS_READY \<and>
        cstr (pin s2) = Some (take 4 q) \<and> pin_retries s2 = 0)
    | st \<Rightarrow> st = A_SIM_STATUS_ABSENT \<and> asimcard_check_pin s' p = Some (0, s') \<and> asimcard_check_puk s' k q = Some (0, s')"
proof -
  have "locked s 0 = s" using assms(2,3) by (simp add: locked_def lock_status_def)
  then have s': "s' = locked s (lock_count 0 xs)" using sim_run_wrong [OF assms(1,4), of 0] assms(8) by simp
  then have wf: "card_wf s'" and sec: "cstr (pin s') = Some p" "cstr (puk s') = Some k"
    using assms(1,5,6) by (simp_all add: locked_def card_wf_def)
  have "status s' \<in> {A_SIM_STATUS_PIN, A_SIM_STATUS_PUK, A_SIM_STATUS_ABSENT}"
    by (simp add: s' locked_def lock_status_def)
  then show ?thesis
    using check_puk_right [OF wf _ sec(2) assms(7)] sec(1)
    by (auto simp: asimcard_check_pin_def asimcard_check_puk_def)
qed

theorem sim_unlock_witness:
  "\<exists>c s1 s2. asimcard_create = Some c \<and>
     sim_run (asimcard_set_status c A_SIM_STATUS_PIN) [Try_pin ''1'', Try_pin ''2'', Try_pin ''3''] =
       Some ([0, 0, 0], s1) \<and>
     asimcard_check_puk s1 ''12345678'' ''4711'' = Some (1, s2) \<and> cstr (pin s2) = Some ''4711''"
proof -
  obtain c where c: "asimcard_create = Some c" "card_wf c" "cstr (pin c) = Some ''0000''"
    "cstr (puk c) = Some ''12345678''" using create_wf by blast
  let ?s = "asimcard_set_status c A_SIM_STATUS_PIN"
  let ?xs = "[Try_pin ''1'', Try_pin ''2'', Try_pin ''3'']"
  have wf: "card_wf ?s" "status ?s = A_SIM_STATUS_PIN" using c(2) by (simp_all add: asimcard_set_status_def card_wf_def)
  have r: "pin_retries ?s = 0" using c(1)
    by (auto simp: asimcard_create_def asimcard_set_status_def strncpy_def sim_sizes)
  have w: "list_all (wrong ?s) ?xs" "cstr (pin ?s) = Some ''0000''" "cstr (puk ?s) = Some ''12345678''"
    using c by (simp_all add: wrong_def asimcard_set_status_def)
  have "locked ?s 0 = ?s" using wf r by (simp add: locked_def lock_status_def)
  then have run: "sim_run ?s ?xs = Some ([0, 0, 0], locked ?s 3)"
    using sim_run_wrong [OF wf(1) w(1), of 0] by (simp add: eval_nat_numeral)
  have "status (locked ?s 3) = A_SIM_STATUS_PUK" by (simp add: locked_def lock_status_def)
  then show ?thesis
    using sim_unlock [OF wf r w _ run, of "''4711''"] c(1) run by (auto simp: nul_def)
qed

section \<open>Consistency of the canned answers\<close>

text \<open>
  The bytes of an answer, the numbers of a command, and what TS 51.011 lets the guest rely on: a
  read returns as many bytes as were asked for, and the response to \<open>GET RESPONSE\<close> names the file.
\<close>

fun decimals :: "nat \<Rightarrow> string \<Rightarrow> nat list" where
  "decimals n [] = [n]"
| "decimals n (c # cs) = (if c = CHR '','' then n # decimals 0 cs else decimals (10 * n + of_char c - 48) cs)"

definition answer_bytes :: "string \<Rightarrow> byte list option" where
  "answer_bytes a =
     (let hex = map of_char (drop 13 a)
      in case gsm_hex_to_bytes hex (length hex) of
           Some (n, bs) \<Rightarrow> if n = int (length bs) then Some bs else None
         | None \<Rightarrow> None)"

definition answer_ok :: "string \<times> string \<Rightarrow> bool" where
  "answer_ok ca = (case ca of (cmd, a) \<Rightarrow>
     (case decimals 0 (drop 6 cmd) of
        [cmdno, fid, p1, p2, p3] \<Rightarrow>
          (if take 13 a = ''+CRSM: 144,0,'' then
             (case answer_bytes a of
                None \<Rightarrow> False
              | Some bs \<Rightarrow> length bs = p3 \<and>
                  (cmdno = 192 \<longrightarrow> unat (bs ! 4) * 256 + unat (bs ! 5) = fid))
           else a = ''+CRSM: 148,4'')
      | _ \<Rightarrow> False))"

lemma find_answer_distinct:
  "distinct (map fst as) \<Longrightarrow> (c, a) \<in> set as \<Longrightarrow> find_answer as c = a"
  by (induction as) (force simp: image_iff)+

lemma answers_distinct: "distinct (map fst answers)"
  by (simp add: answers_def)

lemma answers_prefix: "list_all (\<lambda>(c, a). take 6 c = ''+CRSM='') answers"
  by (simp add: answers_def)

lemma answers_ok: "list_all answer_ok answers"
  unfolding answers_def list.pred_inject
  by (intro conjI TrueI; simp add: answer_ok_def answer_bytes_def gsm_hex_to_bytes_def gsm_hex2_to_byte_def
      gsm_hexchar_to_int_def in_range_def)

text \<open>
  Remark (functional). The canned answers are usable and consistent: every command of the table
  gets its own answer, a read returns valid hexadecimal of exactly the number of bytes the command
  asks for, and a file description is 15 bytes and carries the identifier the command named.
\<close>

theorem sim_answers_consistent:
  "list_all (\<lambda>(cmd, a). asimcard_io cmd = Some a \<and> answer_ok (cmd, a)) answers"
  using answers_ok answers_prefix find_answer_distinct [OF answers_distinct]
  by (fastforce simp: list_all_iff asimcard_io_def)

end
