(* ===== verification/Gsm_Text.thy ===== *)
theory Gsm_Text
  imports Gsm_Hex
begin

unbundle bit_operations_syntax

text \<open>
  The text part of \<open>telephony/gsm.c\<close>: UTF-8, UCS-2 and the GSM alphabet in its 8-bit and packed
  7-bit forms.

  A pair of C pointers \<open>p\<close>, \<open>end\<close> into a string is the list of the bytes between them; advancing \<open>p\<close>
  takes a suffix. A routine with a destination that may be \<open>NULL\<close> returns the bytes it stores; its
  C result is their number, and with a \<open>NULL\<close> destination only that number is computed.
\<close>

section \<open>UTF-8 and UCS-2\<close>

definition is_cont :: "byte \<Rightarrow> bool" where
  "is_cont b \<longleftrightarrow> uint b AND 0xc0 = 0x80"

text \<open>\<open>while (p < end && (p[0] & 0xc0) == 0x80) p++;\<close>\<close>

fun skip_conts :: "byte list \<Rightarrow> byte list" where
  "skip_conts [] = []"
| "skip_conts (b # p) = (if is_cont b then skip_conts p else b # p)"

fun utf8_skip :: "byte list \<Rightarrow> nat \<Rightarrow> byte list" where
  "utf8_skip p 0 = p"
| "utf8_skip [] (Suc n) = []"
| "utf8_skip (b # p) (Suc n) = utf8_skip (if uint b > 128 then skip_conts p else p) n"

text \<open>The continuation bytes of a character; the shift wraps like a 32-bit \<open>int\<close>.\<close>

fun take_conts :: "int \<Rightarrow> byte list \<Rightarrow> int \<times> byte list" where
  "take_conts c [] = (c, [])"
| "take_conts c (b # p) =
     (if is_cont b then take_conts (int32 (push_bit 6 c OR (uint b AND 0x3f))) p else (c, b # p))"

fun utf8_next :: "byte list \<Rightarrow> int \<times> byte list" where
  "utf8_next [] = (-1, [])"
| "utf8_next (b # p) =
     (let c = uint b
      in if c \<ge> 128 then
           take_conts
             (if c AND 0xe0 = 0xc0 then c AND 0x1f else if c AND 0xf0 = 0xe0 then c AND 0x0f else c AND 0x07) p
         else (c, p))"

definition utf8_write :: "int \<Rightarrow> byte list" where
  "utf8_write v =
     (if v < 128 then [to_byte v]
      else if v < 0x800 then [to_byte (0xc0 OR drop_bit 6 v), to_byte (0x80 OR (v AND 0x3f))]
      else if v < 0x10000 then
        [to_byte (0xe0 OR drop_bit 12 v), to_byte (0x80 OR (drop_bit 6 v AND 0x3f)),
         to_byte (0x80 OR (v AND 0x3f))]
      else
        [to_byte (0xf0 OR (drop_bit 18 v AND 0x7)), to_byte (0x80 OR (drop_bit 12 v AND 0x3f)),
         to_byte (0x80 OR (drop_bit 6 v AND 0x3f)), to_byte (0x80 OR (v AND 0x3f))])"

definition ucs2_write :: "int \<Rightarrow> byte list" where
  "ucs2_write v = [to_byte (drop_bit 8 v), to_byte v]"

text \<open>The \<open>for\<close> loop of \<open>utf8_check\<close> over \<open>len\<close> continuation bytes.\<close>

fun check_conts :: "nat \<Rightarrow> byte list \<Rightarrow> byte list option" where
  "check_conts 0 p = Some p"
| "check_conts (Suc n) [] = None"
| "check_conts (Suc n) (b # p) = (if is_cont b then check_conts n p else None)"

lemma check_conts_length: "check_conts n p = Some q \<Longrightarrow> length q \<le> length p"
  by (induction n p rule: check_conts.induct) (auto split: if_splits)

definition utf8_len :: "int \<Rightarrow> nat option" where
  "utf8_len c =
     (if c AND 0xe0 = 0xc0 then Some 1 else if c AND 0xf0 = 0xe0 then Some 2
      else if c AND 0xf8 = 0xf0 then Some 3 else None)"

function utf8_check :: "byte list \<Rightarrow> bool" where
  "utf8_check [] = True"
| "utf8_check (b # p) =
     (let c = uint b
      in if c \<ge> 128 then
           (case utf8_len c of
              None \<Rightarrow> False
            | Some len \<Rightarrow> (case check_conts len p of None \<Rightarrow> False | Some q \<Rightarrow> utf8_check q))
         else utf8_check p)"
  by pat_completeness auto
termination
  by (relation "measure length") (auto dest: check_conts_length)

declare utf8_check.simps(2) [simp del]

fun ucs2_to_utf8 :: "byte list \<Rightarrow> nat \<Rightarrow> byte list option" where
  "ucs2_to_utf8 ucs2 0 = Some []"
| "ucs2_to_utf8 (h # l # ucs2) (Suc n) =
     map_option (append (utf8_write (push_bit 8 (uint h) OR uint l))) (ucs2_to_utf8 ucs2 n)"
| "ucs2_to_utf8 _ (Suc n) = None"

lemma take_conts_length: "length (snd (take_conts c p)) \<le> length p"
  by (induction c p rule: take_conts.induct) (auto simp: le_SucI)

lemma utf8_next_length: "p \<noteq> [] \<Longrightarrow> length (snd (utf8_next p)) < length p"
  by (cases p) (auto simp: Let_def intro: le_less_trans [OF take_conts_length])

lemma utf8_next_shorter [termination_simp]: "(c, q) = utf8_next (b # p) \<Longrightarrow> length q < Suc (length p)"
  using utf8_next_length [of "b # p"] by (metis length_Cons list.distinct(1) snd_conv)

text \<open>
  The loops that read a string with \<open>utf8_next\<close> until its end or a negative character.
\<close>

function utf8_chars :: "byte list \<Rightarrow> int list" where
  "utf8_chars [] = []"
| "utf8_chars (b # p) = (let (c, q) = utf8_next (b # p) in if c < 0 then [] else c # utf8_chars q)"
  by pat_completeness auto
termination
  by (relation "measure length") (auto dest: utf8_next_shorter simp del: utf8_next.simps)

declare utf8_chars.simps(2) [simp del]

definition utf8_to_ucs2 :: "byte list \<Rightarrow> byte list" where
  "utf8_to_ucs2 utf8 = concat (map ucs2_write (utf8_chars utf8))"

section \<open>The GSM alphabet\<close>

definition GSM_7BITS_ESCAPE :: int where "GSM_7BITS_ESCAPE = 0x1b"

definition gsm7bits_to_unicode :: "int list" where
  "gsm7bits_to_unicode =
    [0x40, 0xa3, 0x24, 0xa5, 0xe8, 0xe9, 0xf9, 0xec, 0xf2, 0xc7, 0x0a, 0xd8, 0xf8, 0x0d, 0xc5, 0xe5,
     0x394, 0x5f, 0x3a6, 0x393, 0x39b, 0x3a9, 0x3a0, 0x3a8, 0x3a3, 0x398, 0x39e, 0, 0xc6, 0xe6, 0xdf, 0xc9,
     0x20, 0x21, 0x22, 0x23, 0xa4, 0x25, 0x26, 0x27, 0x28, 0x29, 0x2a, 0x2b, 0x2c, 0x2d, 0x2e, 0x2f,
     0x30, 0x31, 0x32, 0x33, 0x34, 0x35, 0x36, 0x37, 0x38, 0x39, 0x3a, 0x3b, 0x3c, 0x3d, 0x3e, 0x3f,
     0xa1, 0x41, 0x42, 0x43, 0x44, 0x45, 0x46, 0x47, 0x48, 0x49, 0x4a, 0x4b, 0x4c, 0x4d, 0x4e, 0x4f,
     0x50, 0x51, 0x52, 0x53, 0x54, 0x55, 0x56, 0x57, 0x58, 0x59, 0x5a, 0xc4, 0xd6, 0x147, 0xdc, 0xa7,
     0xbf, 0x61, 0x62, 0x63, 0x64, 0x65, 0x66, 0x67, 0x68, 0x69, 0x6a, 0x6b, 0x6c, 0x6d, 0x6e, 0x6f,
     0x70, 0x71, 0x72, 0x73, 0x74, 0x75, 0x76, 0x77, 0x78, 0x79, 0x7a, 0xe4, 0xf6, 0xf1, 0xfc, 0xe0]"

definition gsm7bits_extend_to_unicode :: "int list" where
  "gsm7bits_extend_to_unicode =
     (replicate 128 0)[10 := 0x0c, 20 := 0x5e, 40 := 0x7b, 41 := 0x7d, 47 := 0x5c, 60 := 0x5b, 61 := 0x7e,
       62 := 0x5d, 64 := 0x7c, 101 := 0x20ac]"

text \<open>The search loops over the 128 entries of a table.\<close>

fun table_index :: "int list \<Rightarrow> int \<Rightarrow> int \<Rightarrow> int" where
  "table_index [] u nn = -1"
| "table_index (x # xs) u nn = (if x = u then nn else table_index xs u (nn + 1))"

definition unichar_to_gsm7 :: "int \<Rightarrow> int" where
  "unichar_to_gsm7 u = table_index gsm7bits_to_unicode u 0"

definition unichar_to_gsm7_extend :: "int \<Rightarrow> int" where
  "unichar_to_gsm7_extend u = table_index gsm7bits_extend_to_unicode u 0"

definition unichar_to_gsm7_count :: "int \<Rightarrow> int" where
  "unichar_to_gsm7_count u =
     (if unichar_to_gsm7 u \<ge> 0 then 1 else if unichar_to_gsm7_extend u \<ge> 0 then 2 else 0)"

function utf8_skip_gsm7 :: "byte list \<Rightarrow> int \<Rightarrow> byte list" where
  "utf8_skip_gsm7 p gsm7len =
     (if gsm7len > 0 then
        (let (c, q) = utf8_next p;
             len = unichar_to_gsm7_count c;
             len = (if len = 0 then 1 else len)
         in if c < 0 then p
            else if len > gsm7len then p
            else utf8_skip_gsm7 q (gsm7len - len))
      else p)"
  by auto
termination
  by (relation "measure (\<lambda>(p, n). nat n)") (auto simp: unichar_to_gsm7_count_def split: if_splits)

declare utf8_skip_gsm7.simps [simp del]

function utf8_check_gsm7 :: "byte list \<Rightarrow> bool" where
  "utf8_check_gsm7 [] = True"
| "utf8_check_gsm7 (b # p) =
     (let (c, q) = utf8_next (b # p) in if unichar_to_gsm7_count c = 0 then False else utf8_check_gsm7 q)"
  by pat_completeness auto
termination
  by (relation "measure length") (auto dest: utf8_next_shorter simp del: utf8_next.simps)

declare utf8_check_gsm7.simps(2) [simp del]

text \<open>
  One septet at the byte position \<open>i\<close> and bit position \<open>shift\<close> of \<open>src\<close>, as \<open>utf8_from_gsm7\<close> and
  \<open>ucs2_from_gsm7\<close> read it.
\<close>

definition read_septet :: "byte list \<Rightarrow> int \<Rightarrow> nat \<Rightarrow> int option" where
  "read_septet src i shift =
     Option.bind (rd src i) (\<lambda>b0.
       let c = drop_bit shift (uint b0) AND 0x7f
       in if shift > 1
          then map_option (\<lambda>b1. (push_bit (8 - shift) (uint b1) OR c) AND 0x7f) (rd src (i + 1))
          else Some c)"

fun from_gsm7_loop :: "byte list \<Rightarrow> int \<Rightarrow> nat \<Rightarrow> bool \<Rightarrow> nat \<Rightarrow> byte list option" where
  "from_gsm7_loop src i shift escaped 0 = Some []"
| "from_gsm7_loop src i shift escaped (Suc n) =
     Option.bind (read_septet src i shift) (\<lambda>c.
       let (shift', i') = (if shift + 7 \<ge> 8 then (shift + 7 - 8, i + 1) else (shift + 7, i))
       in if \<not> escaped \<and> c = GSM_7BITS_ESCAPE then from_gsm7_loop src i' shift' True n
          else
            (let v = (if escaped then gsm7bits_extend_to_unicode ! nat c else gsm7bits_to_unicode ! nat c)
             in map_option (append (utf8_write v)) (from_gsm7_loop src i' shift' escaped n)))"

definition utf8_from_gsm7 :: "byte list \<Rightarrow> int \<Rightarrow> int \<Rightarrow> byte list option" where
  "utf8_from_gsm7 src septet_offset septet_count =
     from_gsm7_loop src (drop_bit 3 septet_offset) (nat (septet_offset AND 7)) False (nat septet_count)"

fun from_gsm8_loop :: "byte list \<Rightarrow> bool \<Rightarrow> nat \<Rightarrow> byte list option" where
  "from_gsm8_loop src escaped 0 = Some []"
| "from_gsm8_loop [] escaped (Suc n) = None"
| "from_gsm8_loop (b # src) escaped (Suc n) =
     (let c = uint b
      in if c = 0xff then Some []
         else if c = GSM_7BITS_ESCAPE then
           (if escaped then map_option (append (utf8_write 0x20)) (from_gsm8_loop src False n)
            else from_gsm8_loop src True n)
         else if c \<ge> 0x80 then map_option (append (utf8_write 0x20)) (from_gsm8_loop src False n)
         else if escaped then
           map_option (append (utf8_write (gsm7bits_extend_to_unicode ! nat c))) (from_gsm8_loop src escaped n)
         else map_option (append (utf8_write (gsm7bits_to_unicode ! nat c))) (from_gsm8_loop src escaped n))"

definition utf8_from_gsm8 :: "byte list \<Rightarrow> int \<Rightarrow> byte list option" where
  "utf8_from_gsm8 src count = from_gsm8_loop src False (nat count)"

text \<open>\<open>ucs2_from_gsm7\<close>, whose loop does not advance in the source.\<close>

fun ucs2_from_gsm7_loop :: "byte list \<Rightarrow> int \<Rightarrow> nat \<Rightarrow> bool \<Rightarrow> nat \<Rightarrow> byte list option" where
  "ucs2_from_gsm7_loop src i shift escaped 0 = Some []"
| "ucs2_from_gsm7_loop src i shift escaped (Suc n) =
     Option.bind (read_septet src i shift) (\<lambda>c.
       if escaped then
         map_option (append (ucs2_write (gsm7bits_to_unicode ! nat c))) (ucs2_from_gsm7_loop src i shift False n)
       else if c = GSM_7BITS_ESCAPE then ucs2_from_gsm7_loop src i shift True n
       else
         (let v = gsm7bits_extend_to_unicode ! nat c;
              v = (if v = 0 then 0x20 else v)
          in map_option (append (ucs2_write v)) (ucs2_from_gsm7_loop src i shift False n)))"

definition ucs2_from_gsm7 :: "byte list \<Rightarrow> int \<Rightarrow> int \<Rightarrow> byte list option" where
  "ucs2_from_gsm7 src septet_offset septet_count =
     ucs2_from_gsm7_loop src (drop_bit 3 septet_offset) (nat (septet_offset AND 7)) False (nat septet_count)"

definition utf8_to_gsm7_count :: "byte list \<Rightarrow> int" where
  "utf8_to_gsm7_count utf8 =
     sum_list (map (\<lambda>c. let len = unichar_to_gsm7_count c in if len = 0 then 1 else len) (utf8_chars utf8))"

section \<open>The septet writer\<close>

record bwriter =
  bw_dst :: "byte list"
  bw_idx :: int
  bw_pad :: int
  bw_bits :: nat
  bw_offset :: int

text \<open>\<open>pad\<close> is an \<open>unsigned\<close>, \<open>dst\<close> the array with the index of \<open>writer->dst\<close> in it.\<close>

definition bwriter_init :: "byte list \<Rightarrow> int \<Rightarrow> bwriter option" where
  "bwriter_init dst start =
     (let shift = nat (start AND 7);
          idx = drop_bit 3 start
      in if shift > 0
         then map_option (\<lambda>b. \<lparr>bw_dst = dst, bw_idx = idx, bw_pad = uint b AND NOT (push_bit shift 0xff),
                               bw_bits = shift, bw_offset = start\<rparr>) (rd dst idx)
         else Some \<lparr>bw_dst = dst, bw_idx = idx, bw_pad = 0, bw_bits = shift, bw_offset = start\<rparr>)"

definition bwriter_add7 :: "bwriter \<Rightarrow> int \<Rightarrow> bwriter option" where
  "bwriter_add7 w value =
     (let w = w\<lparr>bw_pad := take_bit 32 (bw_pad w OR push_bit (bw_bits w) value), bw_bits := bw_bits w + 7\<rparr>
      in map_option (\<lambda>w. w\<lparr>bw_offset := bw_offset w + 7\<rparr>)
           (if bw_bits w \<ge> 8
            then map_option (\<lambda>d. w\<lparr>bw_dst := d, bw_bits := bw_bits w - 8, bw_pad := drop_bit 8 (bw_pad w),
                                    bw_idx := bw_idx w + 1\<rparr>)
                   (wr (bw_dst w) (bw_idx w) (to_byte (bw_pad w)))
            else Some w))"

definition bwriter_done :: "bwriter \<Rightarrow> (int \<times> byte list) option" where
  "bwriter_done w =
     (if bw_bits w > 0
      then map_option (\<lambda>d. (bw_offset w, d)) (wr (bw_dst w) (bw_idx w) (to_byte (bw_pad w)))
      else Some (bw_offset w, bw_dst w))"

fun bwriter_add_all :: "bwriter \<Rightarrow> int list \<Rightarrow> bwriter option" where
  "bwriter_add_all w [] = Some w"
| "bwriter_add_all w (v # vs) = Option.bind (bwriter_add7 w v) (\<lambda>w. bwriter_add_all w vs)"

text \<open>The septets a character is written as: itself, escaped, or a space.\<close>

definition gsm7_septets :: "int \<Rightarrow> int list" where
  "gsm7_septets c =
     (if unichar_to_gsm7 c \<ge> 0 then [unichar_to_gsm7 c]
      else if unichar_to_gsm7_extend c \<ge> 0 then [GSM_7BITS_ESCAPE, unichar_to_gsm7_extend c]
      else [0x20])"

definition write_gsm7 :: "byte list \<Rightarrow> int \<Rightarrow> int list \<Rightarrow> (int \<times> byte list) option" where
  "write_gsm7 dst start cs =
     Option.bind (bwriter_init dst start) (\<lambda>w.
       Option.bind (bwriter_add_all w (concat (map gsm7_septets cs))) bwriter_done)"

text \<open>With a \<open>NULL\<close> destination \<open>utf8_to_gsm7\<close> is \<open>utf8_to_gsm7_count\<close>.\<close>

definition utf8_to_gsm7 :: "byte list \<Rightarrow> byte list \<Rightarrow> int \<Rightarrow> (int \<times> byte list) option" where
  "utf8_to_gsm7 utf8 dst start = write_gsm7 dst start (utf8_chars utf8)"

definition utf8_to_gsm8 :: "byte list \<Rightarrow> byte list" where
  "utf8_to_gsm8 utf8 = map to_byte (concat (map gsm7_septets (utf8_chars utf8)))"

text \<open>The UCS-2 variants take one byte of the input at a time in the source.\<close>

definition ucs2_to_gsm7 :: "byte list \<Rightarrow> nat \<Rightarrow> byte list \<Rightarrow> int \<Rightarrow> (int \<times> byte list) option" where
  "ucs2_to_gsm7 ucs2 ucs2len dst start =
     (if ucs2len * 2 \<le> length ucs2 then write_gsm7 dst start (map uint (take (ucs2len * 2) ucs2)) else None)"

definition ucs2_to_gsm8 :: "byte list \<Rightarrow> nat \<Rightarrow> byte list option" where
  "ucs2_to_gsm8 ucs2 ucs2len =
     (if ucs2len * 2 \<le> length ucs2
      then Some (map to_byte (concat (map (\<lambda>b. gsm7_septets (uint b)) (take (ucs2len * 2) ucs2)))) else None)"

section \<open>UTF-8 decoding inverts encoding\<close>

lemma or_disjoint: "0 \<le> a \<Longrightarrow> a < 2 ^ n \<Longrightarrow> push_bit n c OR a = c * 2 ^ n + (a::int)"
proof -
  assume a: "0 \<le> a" "a < 2 ^ n"
  then have t: "take_bit n a = a" by (simp add: take_bit_int_eq_self)
  have "push_bit n c OR take_bit n a = push_bit n c + take_bit n a"
    by (rule disjunctive_add [symmetric]) (auto simp: bit_simps)
  then show ?thesis using t by (simp add: push_bit_eq_mult)
qed

lemma and_63: "(v::int) AND 0x3f = v mod 64"
  using take_bit_eq_mask [of 6 v] by (simp add: take_bit_eq_mod mask_eq_exp_minus_1)

lemma and_7_int: "(v::int) AND 7 = v mod 8"
  using take_bit_eq_mask [of 3 v] by (simp add: take_bit_eq_mod mask_eq_exp_minus_1)

lemma cont_table:
  "list_all (\<lambda>a. uint (to_byte (0x80 OR a)) AND 0xc0 = 0x80 \<and> uint (to_byte (0x80 OR a)) AND 0x3f = a) [0..63]"
  by code_simp

lemma lead2_table:
  "list_all (\<lambda>a. uint (to_byte (0xc0 OR a)) \<ge> 128 \<and> uint (to_byte (0xc0 OR a)) AND 0xe0 = 0xc0 \<and>
     uint (to_byte (0xc0 OR a)) AND 0x1f = a) [0..31]"
  by code_simp

lemma lead3_table:
  "list_all (\<lambda>a. uint (to_byte (0xe0 OR a)) \<ge> 128 \<and> uint (to_byte (0xe0 OR a)) AND 0xe0 \<noteq> 0xc0 \<and>
     uint (to_byte (0xe0 OR a)) AND 0xf0 = 0xe0 \<and> uint (to_byte (0xe0 OR a)) AND 0x0f = a) [0..15]"
  by code_simp

lemma lead4_table:
  "list_all (\<lambda>a. uint (to_byte (0xf0 OR a)) \<ge> 128 \<and> uint (to_byte (0xf0 OR a)) AND 0xe0 \<noteq> 0xc0 \<and>
     uint (to_byte (0xf0 OR a)) AND 0xf0 \<noteq> 0xe0 \<and> uint (to_byte (0xf0 OR a)) AND 0xf8 = 0xf0 \<and>
     uint (to_byte (0xf0 OR a)) AND 0x07 = a) [0..7]"
  by code_simp

lemmas utf8_tables = cont_table [unfolded list_all_iff, rule_format] lead2_table [unfolded list_all_iff, rule_format]
  lead3_table [unfolded list_all_iff, rule_format] lead4_table [unfolded list_all_iff, rule_format]

definition no_cont :: "byte list \<Rightarrow> bool" where
  "no_cont r \<longleftrightarrow> r = [] \<or> \<not> is_cont (hd r)"

lemma take_conts_stop: "no_cont r \<Longrightarrow> take_conts c r = (c, r)"
  by (cases r) (auto simp: no_cont_def)

lemma take_conts_step:
  assumes "0 \<le> c" "c < 0x8000" "0 \<le> a" "a < 64"
  shows "take_conts c (to_byte (0x80 OR a) # p) = take_conts (c * 64 + a) p"
proof -
  have t: "is_cont (to_byte (0x80 OR a))" "uint (to_byte (0x80 OR a)) AND 0x3f = a"
    using utf8_tables(1) [of a] assms by (auto simp: is_cont_def)
  have "push_bit 6 c OR a = c * 64 + a" using or_disjoint [of a 6 c] assms by simp
  then show ?thesis using t assms by simp
qed

lemma utf8_next_write:
  assumes "0 \<le> v" "v < 0x200000" "no_cont r"
  shows "utf8_next (utf8_write v @ r) = (v, r)"
proof -
  have d: "v div 4096 * 64 + v div 64 mod 64 = v div 64" "v div 262144 * 64 + v div 4096 mod 64 = v div 4096"
    using div_mult_mod_eq [of "v div 64" 64] div_mult_mod_eq [of "v div 4096" 64]
    by (simp_all only: zdiv_zmult2_eq [symmetric, of 64 v 64, simplified] zdiv_zmult2_eq [symmetric, of 64 v 4096, simplified])
  consider "v < 128" | "128 \<le> v" "v < 0x800" | "0x800 \<le> v" "v < 0x10000" | "0x10000 \<le> v" by linarith
  then show ?thesis
  proof cases
    case 1
    then show ?thesis using assms by (simp add: utf8_write_def uint_to_byte_id)
  next
    case 2
    then have b: "0 \<le> v div 64" "v div 64 < 32" using assms by auto
    then show ?thesis using 2 utf8_tables(2) [of "v div 64"] assms
      by (simp add: utf8_write_def drop_bit_eq_div and_63 take_conts_step take_conts_stop Let_def del: take_conts.simps)
  next
    case 3
    then have b: "0 \<le> v div 4096" "v div 4096 < 16" using assms by auto
    then show ?thesis using 3 utf8_tables(3) [of "v div 4096"] assms d
      by (simp add: utf8_write_def drop_bit_eq_div and_63 take_conts_step take_conts_stop Let_def del: take_conts.simps)
  next
    case 4
    then have b: "0 \<le> v div 262144" "v div 262144 < 8" "v div 4096 < 0x8000" "v div 64 < 0x8000" "0 \<le> v div 4096" "0 \<le> v div 64"
      using assms by auto
    then show ?thesis using 4 utf8_tables(4) [of "v div 262144"] assms d
      by (simp add: utf8_write_def drop_bit_eq_div and_63 and_7_int take_conts_step take_conts_stop Let_def
          mod_pos_pos_trivial del: take_conts.simps)
  qed
qed

lemma utf8_write_not_Nil: "utf8_write v \<noteq> []"
  by (simp add: utf8_write_def)

lemma lead_no_cont:
  assumes "0 \<le> v" "v < 0x200000"
  shows "no_cont (utf8_write v @ r)"
proof -
  have "uint (to_byte v) AND 0xc0 \<noteq> 0x80" if "v < 128"
  proof -
    have "list_all (\<lambda>a. uint (to_byte a) AND 0xc0 \<noteq> 0x80) [0..127]" by code_simp
    then show ?thesis using assms that by (simp add: list_all_iff)
  qed
  moreover have "list_all (\<lambda>a. uint (to_byte (0xc0 OR a)) AND 0xc0 \<noteq> 0x80) [0..31]"
    "list_all (\<lambda>a. uint (to_byte (0xe0 OR a)) AND 0xc0 \<noteq> 0x80) [0..15]"
    "list_all (\<lambda>a. uint (to_byte (0xf0 OR a)) AND 0xc0 \<noteq> 0x80) [0..7]" by code_simp+
  moreover have "v < 0x800 \<Longrightarrow> v div 64 \<in> {0..31}" "v < 0x10000 \<Longrightarrow> v div 4096 \<in> {0..15}"
      "v div 262144 mod 8 \<in> {0..7}" using assms by auto
  ultimately show ?thesis
    by (simp add: no_cont_def utf8_write_def is_cont_def drop_bit_eq_div and_7_int list_all_iff del: atLeastAtMost_iff)
qed

abbreviation unichar :: "int \<Rightarrow> bool" where
  "unichar v \<equiv> 0 \<le> v \<and> v < 0x200000"

lemma concat_no_cont: "list_all unichar vs \<Longrightarrow> no_cont (concat (map utf8_write vs))"
  by (cases vs) (auto simp: lead_no_cont, simp add: no_cont_def)

lemma utf8_chars_next: "p \<noteq> [] \<Longrightarrow> utf8_chars p = (let (c, q) = utf8_next p in if c < 0 then [] else c # utf8_chars q)"
  by (cases p) (simp_all add: utf8_chars.simps(2) del: utf8_next.simps)

lemma utf8_chars_concat: "list_all unichar vs \<Longrightarrow> utf8_chars (concat (map utf8_write vs)) = vs"
proof (induction vs)
  case Nil
  then show ?case by simp
next
  case (Cons v vs)
  let ?r = "concat (map utf8_write vs)"
  have "utf8_next (utf8_write v @ ?r) = (v, ?r)"
    using Cons.prems by (intro utf8_next_write concat_no_cont) auto
  then show ?case using Cons utf8_chars_next [of "utf8_write v @ ?r"] utf8_write_not_Nil by simp
qed

lemma ucs2_write_join: "ucs2_write (push_bit 8 (uint h) OR uint l) = [h, l]"
proof -
  have "to_byte (drop_bit 8 (push_bit 8 (uint h) OR uint l)) = h"
    by (rule bit_word_eqI) (auto simp: bit_simps dest: bit_imp_le_length)
  moreover have "to_byte (push_bit 8 (uint h) OR uint l) = l"
    by (rule bit_word_eqI) (auto simp: bit_simps)
  ultimately show ?thesis by (simp add: ucs2_write_def)
qed

lemma ucs2_to_utf8_units:
  "ucs2_to_utf8 u n = Some w \<Longrightarrow>
   \<exists>vs. list_all unichar vs \<and> w = concat (map utf8_write vs) \<and> concat (map ucs2_write vs) = take (2 * n) u"
proof (induction u n arbitrary: w rule: ucs2_to_utf8.induct)
  case (1 ucs2)
  then show ?case by (intro exI [of _ "[]"]) simp
next
  case (2 h l ucs2 n)
  then obtain w' where w': "ucs2_to_utf8 ucs2 n = Some w'"
      "w = utf8_write (push_bit 8 (uint h) OR uint l) @ w'" by auto
  obtain vs where vs: "list_all unichar vs" "w' = concat (map utf8_write vs)"
      "concat (map ucs2_write vs) = take (2 * n) ucs2" using 2(1) [OF w'(1)] by blast
  have "push_bit 8 (uint h) OR uint l = uint h * 256 + uint l"
    using or_disjoint [of "uint l" 8 "uint h"] uint_byte_range [of l] by simp
  then have "unichar (push_bit 8 (uint h) OR uint l)"
    using uint_byte_range [of h] uint_byte_range [of l] by linarith
  then show ?case using vs w'
    by (intro exI [of _ "(push_bit 8 (uint h) OR uint l) # vs"]) (simp add: ucs2_write_join)
qed simp_all

lemma check_conts_step: "0 \<le> a \<Longrightarrow> a < 64 \<Longrightarrow> check_conts (Suc n) (to_byte (0x80 OR a) # p) = check_conts n p"
  using utf8_tables(1) [of a] by (simp add: is_cont_def)

lemma utf8_len_tables:
  "list_all (\<lambda>a. uint (to_byte (0xc0 OR a)) \<ge> 128 \<and> utf8_len (uint (to_byte (0xc0 OR a))) = Some (Suc 0)) [0..31]"
  "list_all (\<lambda>a. uint (to_byte (0xe0 OR a)) \<ge> 128 \<and> utf8_len (uint (to_byte (0xe0 OR a))) = Some 2) [0..15]"
  "list_all (\<lambda>a. uint (to_byte (0xf0 OR a)) \<ge> 128 \<and> utf8_len (uint (to_byte (0xf0 OR a))) = Some 3) [0..7]"
  by code_simp+

lemmas utf8_lens = utf8_len_tables [unfolded list_all_iff, rule_format]

lemma utf8_check_write:
  assumes "0 \<le> v" "v < 0x200000"
  shows "utf8_check (utf8_write v @ r) = utf8_check r"
proof -
  have b: "v < 0x800 \<Longrightarrow> v div 64 < 32" "v < 0x10000 \<Longrightarrow> v div 4096 < 16" "v div 262144 < 8" using assms by auto
  consider "v < 128" | "128 \<le> v" "v < 0x800" | "0x800 \<le> v" "v < 0x10000" | "0x10000 \<le> v" by linarith
  then show ?thesis
  proof cases
    case 1
    then show ?thesis using assms by (simp add: utf8_write_def utf8_check.simps(2) uint_to_byte_id)
  next
    case 2
    then show ?thesis using assms b utf8_lens(1) [of "v div 64"]
      by (simp add: utf8_write_def utf8_check.simps(2) drop_bit_eq_div and_63 check_conts_step
          Let_def pos_imp_zdiv_nonneg_iff del: check_conts.simps(3))
  next
    case 3
    then show ?thesis using assms b utf8_lens(2) [of "v div 4096"]
      by (simp add: utf8_write_def utf8_check.simps(2) drop_bit_eq_div and_63 numeral_2_eq_2 check_conts_step
          Let_def pos_imp_zdiv_nonneg_iff del: check_conts.simps(3))
  next
    case 4
    then show ?thesis using assms b utf8_lens(3) [of "v div 262144"]
      by (simp add: utf8_write_def utf8_check.simps(2) drop_bit_eq_div and_63 and_7_int numeral_3_eq_3 check_conts_step
          Let_def pos_imp_zdiv_nonneg_iff del: check_conts.simps(3))
  qed
qed

section \<open>Septet packing\<close>

text \<open>Bit \<open>k\<close> of a byte string, least significant bit of each byte first.\<close>

definition bufbit :: "byte list \<Rightarrow> nat \<Rightarrow> bool" where
  "bufbit d k = bit (d ! (k div 8)) (k mod 8)"

definition bw_pos :: "bwriter \<Rightarrow> nat" where
  "bw_pos w = 8 * nat (bw_idx w) + bw_bits w"

definition bw_ok :: "bwriter \<Rightarrow> bool" where
  "bw_ok w \<longleftrightarrow> 0 \<le> bw_idx w \<and> bw_bits w < 8 \<and> 0 \<le> bw_pad w \<and> bw_pad w < 2 ^ bw_bits w \<and>
     bw_offset w = int (bw_pos w)"

text \<open>The bits written so far: stored bytes, then the pad.\<close>

definition bw_bit :: "bwriter \<Rightarrow> nat \<Rightarrow> bool" where
  "bw_bit w k = (if k < 8 * nat (bw_idx w) then bufbit (bw_dst w) k
                 else bit (bw_pad w) (k - 8 * nat (bw_idx w)))"

lemma bit_small: "0 \<le> (a::int) \<Longrightarrow> a < 2 ^ n \<Longrightarrow> n \<le> k \<Longrightarrow> \<not> bit a k"
  by (metis bit_take_bit_iff not_less take_bit_int_eq_self)

lemma bufbit_upd_below: "k < 8 * i \<Longrightarrow> bufbit (d[i := b]) k = bufbit d k"
  by (simp add: bufbit_def less_mult_imp_div_less mult.commute)

lemma byte_index: "8 * i \<le> k \<Longrightarrow> k < 8 * i + 8 \<Longrightarrow> k div 8 = i \<and> k mod 8 = k - 8 * (i::nat)"
proof -
  assume "8 * i \<le> k" "k < 8 * i + 8"
  then obtain m where "k = 8 * i + m" "m < 8" using le_Suc_ex by fastforce
  then show ?thesis by simp
qed

lemma bufbit_upd_at: "i < length d \<Longrightarrow> 8 * i \<le> k \<Longrightarrow> k < 8 * i + 8 \<Longrightarrow> bufbit (d[i := b]) k = bit b (k - 8 * i)"
proof -
  assume a: "i < length d" "8 * i \<le> k" "k < 8 * i + 8"
  then show ?thesis using byte_index [of i k] by (simp add: bufbit_def)
qed

lemma bit_to_byte: "j < 8 \<Longrightarrow> bit (to_byte p) j = bit p j"
  by (simp add: bit_word_of_int_iff)

lemma add7_bits:
  assumes ok: "bw_ok w" and v: "0 \<le> v" "v < 128" and room: "bw_pos w + 7 \<le> 8 * length (bw_dst w)"
  shows "\<exists>w'. bwriter_add7 w v = Some w' \<and> bw_ok w' \<and> bw_pos w' = bw_pos w + 7 \<and>
    length (bw_dst w') = length (bw_dst w) \<and> (\<forall>k < bw_pos w. bw_bit w' k = bw_bit w k) \<and>
    (\<forall>j < 7. bw_bit w' (bw_pos w + j) = bit v j)"
proof -
  define n i pad where "n = bw_bits w" and "i = nat (bw_idx w)" and "pad = bw_pad w OR push_bit n v"
  have i: "bw_idx w = int i" "n < 8" "0 \<le> bw_pad w" "bw_pad w < 2 ^ n"
    using ok by (auto simp: bw_ok_def i_def n_def)
  have pad_eq: "pad = v * 2 ^ n + bw_pad w"
    unfolding pad_def or.commute [of "bw_pad w"] using or_disjoint i by simp
  have "v * 2 ^ n + bw_pad w < (v + 1) * 2 ^ n" using i by (simp add: distrib_right)
  also have "\<dots> \<le> 128 * 2 ^ n" using v by (intro mult_right_mono) auto
  finally have pad: "0 \<le> pad" "pad < 2 ^ (n + 7)" using v i pad_eq by (auto simp: power_add)
  moreover have "(2::int) ^ (n + 7) \<le> 2 ^ 32" using i by (intro power_increasing) auto
  ultimately have t32: "take_bit 32 pad = pad" by (intro take_bit_int_eq_self) auto
  have pbit: "bit pad m = (if m < n then bit (bw_pad w) m else bit v (m - n))" for m
    using bit_small [OF i(3,4)] by (auto simp: pad_def bit_simps)
  show ?thesis
  proof (cases "n = 0")
    case True
    let ?w = "w\<lparr>bw_pad := pad, bw_bits := n + 7, bw_offset := bw_offset w + 7\<rparr>"
    have "bwriter_add7 w v = Some ?w"
      using True t32 by (simp add: bwriter_add7_def n_def [symmetric] pad_def)
    moreover have "bw_ok ?w" "bw_pos ?w = bw_pos w + 7"
      using ok pad True by (auto simp: bw_ok_def bw_pos_def n_def)
    moreover have "bw_bit ?w k = bw_bit w k" if "k < bw_pos w" for k
      using that True by (simp add: bw_bit_def bw_pos_def n_def)
    moreover have "bw_bit ?w (bw_pos w + j) = bit v j" for j
      using True pbit by (simp add: bw_bit_def bw_pos_def n_def [symmetric])
    ultimately show ?thesis by auto
  next
    case False
    let ?d = "(bw_dst w)[i := to_byte pad]"
    let ?w = "w\<lparr>bw_dst := ?d, bw_pad := drop_bit 8 pad, bw_bits := n - 1, bw_idx := bw_idx w + 1,
        bw_offset := bw_offset w + 7\<rparr>"
    have il: "i < length (bw_dst w)" using room False by (auto simp: bw_pos_def i_def [symmetric] n_def [symmetric])
    have step: "bwriter_add7 w v = Some ?w"
      using False t32 il i(1) by (simp add: bwriter_add7_def n_def [symmetric] pad_def wr_def)
    have pos: "bw_pos ?w = bw_pos w + 7" using False i(1) by (simp add: bw_pos_def n_def [symmetric])
    have "drop_bit 8 pad < 2 ^ (n - 1)"
    proof -
      have "(2::int) ^ (n + 7) = 2 ^ (n - 1) * 256" using False by (cases n) (simp_all add: power_add)
      then show ?thesis using pad by (simp add: drop_bit_eq_div)
    qed
    then have okw: "bw_ok ?w" using ok pad pos i by (auto simp: bw_ok_def drop_bit_eq_div)
    have i1: "nat (bw_idx w + 1) = Suc i" using i(1) by simp
    have all: "bw_bit ?w k = (if k < 8 * i then bufbit (bw_dst w) k else bit pad (k - 8 * i))" for k
    proof -
      consider "k < 8 * i" | "8 * i \<le> k" "k < 8 * i + 8" | "8 * i + 8 \<le> k" by linarith
      then show ?thesis
      proof cases
        case 1
        then show ?thesis using i1 by (simp add: bw_bit_def bufbit_upd_below)
      next
        case 2
        then show ?thesis using i1 il by (simp add: bw_bit_def bufbit_upd_at bit_to_byte)
      next
        case 3
        then show ?thesis using i1 by (simp add: bw_bit_def bit_drop_bit_eq comp_def)
      qed
    qed
    have "bw_bit ?w k = bw_bit w k" if "k < bw_pos w" for k
      unfolding all using that pbit by (auto simp: bw_bit_def bw_pos_def i_def n_def)
    moreover have "bw_bit ?w (bw_pos w + j) = bit v j" for j
      unfolding all using pbit by (simp add: bw_pos_def i_def [symmetric] n_def [symmetric])
    ultimately show ?thesis using step pos okw by auto
  qed
qed

lemma add_all_bits:
  "bw_ok w \<Longrightarrow> \<forall>v \<in> set vs. 0 \<le> v \<and> v < 128 \<Longrightarrow> bw_pos w + 7 * length vs \<le> 8 * length (bw_dst w) \<Longrightarrow>
   \<exists>w'. bwriter_add_all w vs = Some w' \<and> bw_ok w' \<and> bw_pos w' = bw_pos w + 7 * length vs \<and>
     length (bw_dst w') = length (bw_dst w) \<and> (\<forall>k < bw_pos w. bw_bit w' k = bw_bit w k) \<and>
     (\<forall>m < length vs. \<forall>j < 7. bw_bit w' (bw_pos w + 7 * m + j) = bit (vs ! m) j)"
proof (induction vs arbitrary: w)
  case Nil
  then show ?case by simp
next
  case (Cons v vs)
  obtain w1 where w1: "bwriter_add7 w v = Some w1" "bw_ok w1" "bw_pos w1 = bw_pos w + 7"
      "length (bw_dst w1) = length (bw_dst w)" "\<forall>k < bw_pos w. bw_bit w1 k = bw_bit w k"
      "\<forall>j < 7. bw_bit w1 (bw_pos w + j) = bit v j"
    using add7_bits [of w v] Cons.prems by auto
  obtain w2 where w2: "bwriter_add_all w1 vs = Some w2" "bw_ok w2" "bw_pos w2 = bw_pos w1 + 7 * length vs"
      "length (bw_dst w2) = length (bw_dst w1)" "\<forall>k < bw_pos w1. bw_bit w2 k = bw_bit w1 k"
      "\<forall>m < length vs. \<forall>j < 7. bw_bit w2 (bw_pos w1 + 7 * m + j) = bit (vs ! m) j"
    using Cons.IH [OF w1(2)] Cons.prems(2,3) w1(3,4) by auto
  have "bw_bit w2 (bw_pos w + 7 * m + j) = bit ((v # vs) ! m) j" if "m < Suc (length vs)" "j < 7" for m j
    using that w1 w2 by (cases m) (auto simp: add.assoc add.commute add.left_commute)
  then show ?case using w1 w2 by auto
qed

lemma bw_done_bits:
  assumes "bw_ok w" "bw_pos w \<le> 8 * length (bw_dst w)"
  shows "\<exists>d. bwriter_done w = Some (bw_offset w, d) \<and> length d = length (bw_dst w) \<and>
    (\<forall>k < bw_pos w. bufbit d k = bw_bit w k)"
proof (cases "bw_bits w = 0")
  case True
  then show ?thesis by (simp add: bwriter_done_def bw_bit_def bw_pos_def)
next
  case False
  let ?i = "nat (bw_idx w)" and ?d = "(bw_dst w)[nat (bw_idx w) := to_byte (bw_pad w)]"
  have i: "?i < length (bw_dst w)" "0 \<le> bw_idx w" "bw_bits w < 8"
    using assms False by (auto simp: bw_ok_def bw_pos_def)
  have "bwriter_done w = Some (bw_offset w, ?d)" using False i by (simp add: bwriter_done_def wr_def nat_less_iff)
  moreover have "bufbit ?d k = bw_bit w k" if "k < bw_pos w" for k
    using that i by (cases "k < 8 * ?i") (auto simp: bw_bit_def bw_pos_def bufbit_upd_below bufbit_upd_at bit_to_byte)
  ultimately show ?thesis by auto
qed

lemma bw_init_bits:
  assumes "0 \<le> start" "nat start \<le> 8 * length dst"
  shows "\<exists>w. bwriter_init dst start = Some w \<and> bw_ok w \<and> bw_pos w = nat start \<and> bw_dst w = dst \<and>
    (\<forall>k < nat start. bw_bit w k = bufbit dst k)"
proof -
  define n i where "n = nat start mod 8" and "i = nat start div 8"
  have ni: "nat (start AND 7) = n" "drop_bit 3 start = int i" "start = 8 * int i + int n" "n < 8"
    using assms(1) by (auto simp: n_def i_def and_7_int nat_mod_distrib drop_bit_eq_div zdiv_int zmod_int)
  show ?thesis
  proof (cases "n = 0")
    case True
    let ?w = "\<lparr>bw_dst = dst, bw_idx = int i, bw_pad = 0, bw_bits = 0, bw_offset = start\<rparr>"
    have "bwriter_init dst start = Some ?w" using True ni by (simp add: bwriter_init_def Let_def)
    moreover have "nat start = 8 * i" using True ni by simp
    ultimately show ?thesis using True ni by (simp add: bw_ok_def bw_pos_def bw_bit_def)
  next
    case False
    then have il: "i < length dst" using assms ni by auto
    define pad where "pad = uint (dst ! i) AND NOT (push_bit n 0xff)"
    have ff: "(0xff :: int) = mask 8" by (simp add: mask_eq_exp_minus_1)
    have pbit: "bit pad m = (m < n \<and> bit (dst ! i) m)" for m
      unfolding pad_def ff using ni(4)
      by (auto simp: bit_simps dest: bit_imp_le_length)
    have "pad = take_bit n pad" by (rule bit_eqI) (auto simp: bit_take_bit_iff pbit)
    then have "0 \<le> pad" "pad < 2 ^ n" by (metis take_bit_nonnegative, metis take_bit_int_less_exp)
    moreover have "bw_bit \<lparr>bw_dst = dst, bw_idx = int i, bw_pad = pad, bw_bits = n, bw_offset = start\<rparr> k = bufbit dst k"
      if "k < 8 * i + n" for k
    proof (cases "k < 8 * i")
      case True
      then show ?thesis by (simp add: bw_bit_def)
    next
      case False
      then have "k div 8 = i \<and> k mod 8 = k - 8 * i" using that ni(4) by (intro byte_index) auto
      then have b: "bufbit dst k = bit (dst ! i) (k - 8 * i)" by (simp only: bufbit_def)
      have "k - 8 * i < n" using that False by linarith
      then have "bit pad (k - 8 * i) = bit (dst ! i) (k - 8 * i)" unfolding pbit by simp
      then show ?thesis unfolding b bw_bit_def using False by simp
    qed
    moreover have "bwriter_init dst start =
        Some \<lparr>bw_dst = dst, bw_idx = int i, bw_pad = pad, bw_bits = n, bw_offset = start\<rparr>"
      unfolding bwriter_init_def Let_def ni(1,2) pad_def using False il by (simp add: rd_def)
    moreover have "nat start = 8 * i + n" using ni(3) by simp
    ultimately show ?thesis using ni(3,4) unfolding bw_ok_def bw_pos_def by (intro exI conjI) auto
  qed
qed

text \<open>Reading a septet back.\<close>

lemma and_7f: "(v::int) AND 0x7f = take_bit 7 v"
  by (simp add: take_bit_eq_mask mask_eq_exp_minus_1)

lemma bufbit_plus: "j < 8 \<Longrightarrow> bufbit d (8 * i + j) = bit (d ! i) j"
  by (simp add: bufbit_def)

lemma read_septet_bits:
  assumes sh: "shift < 8" and room: "8 * i + shift + 7 \<le> 8 * length src"
  shows "\<exists>c. read_septet src (int i) shift = Some c \<and> 0 \<le> c \<and> c < 128 \<and>
    (\<forall>j < 7. bit c j = bufbit src (8 * i + shift + j))"
proof -
  have i: "i < length src" using room by linarith
  define c0 where "c0 = take_bit 7 (drop_bit shift (uint (src ! i)))"
  have c0: "bit c0 j = bit (src ! i) (shift + j)" if "j < 7" for j
    using that by (simp add: c0_def bit_simps)
  have b0: "bufbit src (8 * i + shift + j) = bit (src ! i) (shift + j)" if "shift + j < 8" for j
    using bufbit_plus [OF that, of src i] by (simp add: add.assoc)
  have b1: "bufbit src (8 * i + shift + j) = bit (src ! Suc i) (shift + j - 8)" if "8 \<le> shift + j" "j < 7" for j
  proof -
    have "8 * i + shift + j = 8 * Suc i + (shift + j - 8)" "shift + j - 8 < 8" using that sh by auto
    then show ?thesis using bufbit_plus by metis
  qed
  show ?thesis
  proof (cases "shift > 1")
    case False
    then have "read_septet src (int i) shift = Some c0"
      using i by (simp add: read_septet_def rd_def c0_def and_7f Let_def)
    moreover have "0 \<le> c0" "c0 < 128" by (simp_all add: c0_def take_bit_int_less_exp [of 7, simplified])
    moreover have "\<forall>j < 7. bit c0 j = bufbit src (8 * i + shift + j)" using False c0 b0 by auto
    ultimately show ?thesis by blast
  next
    case True
    then have i1: "Suc i < length src" using room by linarith
    define c where "c = take_bit 7 (push_bit (8 - shift) (uint (src ! Suc i)) OR c0)"
    have "rd src (int i + 1) = Some (src ! Suc i)" using i1 by (simp add: rd_def nat_add_distrib)
    then have r: "read_septet src (int i) shift = Some c"
      using i True by (simp add: read_septet_def rd_def [of src "int i"] c0_def c_def and_7f Let_def)
    moreover have "0 \<le> c" "c < 2 ^ 7"
      unfolding c_def by (rule take_bit_nonnegative, rule take_bit_int_less_exp)
    then have "0 \<le> c" "c < 128" by simp_all
    moreover have "bit c j = bufbit src (8 * i + shift + j)" if j: "j < 7" for j
    proof (cases "shift + j < 8")
      case True
      then have "\<not> 8 - shift \<le> j" by linarith
      then show ?thesis using j c0 [OF j] b0 [OF True] by (simp add: c_def bit_simps)
    next
      case False
      then have "\<not> bit (src ! i) (shift + j)" by (auto dest: bit_imp_le_length)
      moreover have "j - (8 - shift) = shift + j - 8" "8 - shift \<le> j" using sh False by linarith+
      ultimately show ?thesis using j False sh c0 [OF j] b1 [OF _ j] by (simp add: c_def bit_simps not_less)
    qed
    ultimately show ?thesis by blast
  qed
qed

lemma septet_eqI:
  assumes "0 \<le> c" "c < 128" "0 \<le> v" "v < 128" "\<forall>j < 7. bit c j = bit (v::int) j"
  shows "c = v"
proof (rule bit_eqI)
  fix n
  show "bit c n = bit v n"
    using assms bit_small [of c 7 n] bit_small [of v 7 n] by (cases "n < 7") auto
qed

text \<open>Decoding septets of the basic table that are laid out in the source from a bit position on.\<close>

definition septets_at :: "byte list \<Rightarrow> nat \<Rightarrow> int list \<Rightarrow> bool" where
  "septets_at src pos vs \<longleftrightarrow> pos + 7 * length vs \<le> 8 * length src \<and>
     (\<forall>m < length vs. \<forall>j < 7. bufbit src (pos + 7 * m + j) = bit (vs ! m) j)"

lemma septets_at_Cons:
  "septets_at src pos (v # vs) \<longleftrightarrow>
     pos + 7 \<le> 8 * length src \<and> (\<forall>j < 7. bufbit src (pos + j) = bit v j) \<and> septets_at src (pos + 7) vs"
  (is "?l = ?r")
proof
  assume l: ?l
  then have "\<forall>j < 7. bufbit src (pos + 7 * Suc m + j) = bit (vs ! m) j" if "m < length vs" for m
    using that unfolding septets_at_def by (metis Suc_mono length_Cons nth_Cons_Suc)
  with l show ?r unfolding septets_at_def by (auto simp: add.assoc dest: spec [of _ 0])
next
  assume r: ?r
  have "bufbit src (pos + 7 * m + j) = bit ((v # vs) ! m) j" if "m < Suc (length vs)" "j < 7" for m j
    using r that by (cases m) (auto simp: septets_at_def add.assoc)
  with r show ?l by (auto simp: septets_at_def)
qed

lemma from_gsm7_loop_basic:
  assumes "septets_at src (8 * i + shift) vs" "shift < 8"
    and "\<forall>v \<in> set vs. 0 \<le> v \<and> v < 128 \<and> v \<noteq> GSM_7BITS_ESCAPE"
  shows "from_gsm7_loop src (int i) shift False (length vs) =
    Some (concat (map (\<lambda>v. utf8_write (gsm7bits_to_unicode ! nat v)) vs))"
  using assms
proof (induction vs arbitrary: i shift)
  case Nil
  then show ?case by simp
next
  case (Cons v vs)
  have at: "8 * i + shift + 7 \<le> 8 * length src" "\<forall>j < 7. bufbit src (8 * i + shift + j) = bit v j"
      "septets_at src (8 * i + shift + 7) vs"
    using Cons.prems(1) by (auto simp: septets_at_Cons)
  obtain c where c: "read_septet src (int i) shift = Some c" "0 \<le> c" "c < 128"
      "\<forall>j < 7. bit c j = bufbit src (8 * i + shift + j)"
    using read_septet_bits [OF Cons.prems(2) at(1)] by blast
  have "c = v" using c at(2) Cons.prems(3) by (intro septet_eqI) auto
  define i' shift' where "i' = (if shift + 7 \<ge> 8 then Suc i else i)"
    and "shift' = (if shift + 7 \<ge> 8 then shift + 7 - 8 else shift + 7)"
  have pos: "8 * i' + shift' = 8 * i + shift + 7" "shift' < 8"
    using Cons.prems(2) by (auto simp: i'_def shift'_def)
  have "from_gsm7_loop src (int i') shift' False (length vs) =
      Some (concat (map (\<lambda>v. utf8_write (gsm7bits_to_unicode ! nat v)) vs))"
    using Cons.IH [of i' shift'] at(3) pos Cons.prems(3) by simp
  then show ?case using c(1) \<open>c = v\<close> Cons.prems(3) by (auto simp: i'_def shift'_def Let_def add.commute)
qed

text \<open>The character table and its search.\<close>

lemma table_index_nth:
  "0 \<le> table_index xs u nn \<Longrightarrow> 0 \<le> nn \<Longrightarrow>
   nn \<le> table_index xs u nn \<and> table_index xs u nn < nn + int (length xs) \<and> xs ! nat (table_index xs u nn - nn) = u"
proof (induction xs u nn rule: table_index.induct)
  case (1 u nn)
  then show ?case by simp
next
  case (2 x xs u nn)
  show ?case
  proof (cases "x = u")
    case False
    with 2 have ih: "nn + 1 \<le> table_index xs u (nn + 1)" "table_index xs u (nn + 1) < nn + 1 + int (length xs)"
        "xs ! nat (table_index xs u (nn + 1) - (nn + 1)) = u" by auto
    then have "nat (table_index xs u (nn + 1) - nn) = Suc (nat (table_index xs u (nn + 1) - (nn + 1)))" by simp
    then show ?thesis using False ih by simp
  qed simp
qed

lemma length_gsm7_table: "length gsm7bits_to_unicode = 128"
  by (simp add: gsm7bits_to_unicode_def)

lemma gsm7_table_escape: "gsm7bits_to_unicode ! 27 = 0"
  by (simp add: gsm7bits_to_unicode_def)

lemma gsm7_lookup:
  assumes "unichar_to_gsm7 c \<ge> 0"
  shows "unichar_to_gsm7 c < 128" "gsm7bits_to_unicode ! nat (unichar_to_gsm7 c) = c"
  using table_index_nth [of gsm7bits_to_unicode c 0] assms by (simp_all add: unichar_to_gsm7_def length_gsm7_table)

lemma gsm7_table_range: "list_all (\<lambda>c. 0 \<le> c \<and> c < 0x200000) gsm7bits_to_unicode"
  by (simp add: gsm7bits_to_unicode_def)

lemma gsm7_unichar: "unichar_to_gsm7 c \<ge> 0 \<Longrightarrow> unichar c"
  using gsm7_lookup [of c] gsm7_table_range length_gsm7_table
  by (metis list_all_length nat_less_iff of_nat_numeral)

lemma write_gsm7_septets:
  assumes "\<forall>v \<in> set (concat (map gsm7_septets cs)). 0 \<le> v \<and> v < 128" "0 \<le> start"
    and "nat start + 7 * length (concat (map gsm7_septets cs)) \<le> 8 * length dst"
  shows "\<exists>d. write_gsm7 dst start cs = Some (start + 7 * int (length (concat (map gsm7_septets cs))), d) \<and>
    septets_at d (nat start) (concat (map gsm7_septets cs)) \<and> (\<forall>k < nat start. bufbit d k = bufbit dst k)"
proof -
  let ?vs = "concat (map gsm7_septets cs)"
  obtain w where w: "bwriter_init dst start = Some w" "bw_ok w" "bw_pos w = nat start" "bw_dst w = dst"
      "\<forall>k < nat start. bw_bit w k = bufbit dst k"
    using bw_init_bits [of start dst] assms by auto
  obtain w' where w': "bwriter_add_all w ?vs = Some w'" "bw_ok w'" "bw_pos w' = nat start + 7 * length ?vs"
      "length (bw_dst w') = length dst" "\<forall>k < nat start. bw_bit w' k = bw_bit w k"
      "\<forall>m < length ?vs. \<forall>j < 7. bw_bit w' (nat start + 7 * m + j) = bit (?vs ! m) j"
    using add_all_bits [OF w(2) assms(1)] assms(3) w(3,4) by auto
  obtain d where d: "bwriter_done w' = Some (bw_offset w', d)" "length d = length dst"
      "\<forall>k < bw_pos w'. bufbit d k = bw_bit w' k"
    using bw_done_bits [OF w'(2)] w'(3,4) assms(3) by auto
  have "bw_offset w' = start + 7 * int (length ?vs)" using w'(2,3) assms(2) by (simp add: bw_ok_def)
  moreover have "septets_at d (nat start) ?vs" unfolding septets_at_def
  proof (intro conjI allI impI)
    fix m j :: nat
    assume "m < length ?vs" "j < 7"
    moreover from this have "nat start + 7 * m + j < bw_pos w'" using w'(3) by linarith
    ultimately show "bufbit d (nat start + 7 * m + j) = bit (?vs ! m) j" using d(3) w'(6) by simp
  qed (use assms(3) d(2) in simp)
  moreover have "\<forall>k < nat start. bufbit d k = bufbit dst k" using d(3) w'(3,5) w(5) by simp
  ultimately show ?thesis using w(1) w'(1) d(1) by (simp add: write_gsm7_def)
qed

lemma gsm7_pack_unpack:
  assumes basic: "\<forall>c \<in> set cs. unichar_to_gsm7 c \<ge> 0 \<and> c \<noteq> 0" and "0 \<le> start"
    and room: "nat start + 7 * length cs \<le> 8 * length dst"
    and utf8: "utf8 = concat (map utf8_write cs)"
  shows "\<exists>d. utf8_to_gsm7 utf8 dst start = Some (start + 7 * int (length cs), d) \<and>
    utf8_from_gsm7 d start (int (length cs)) = Some utf8 \<and> (\<forall>k < nat start. bufbit d k = bufbit dst k)"
proof -
  define vs where "vs = map unichar_to_gsm7 cs"
  have sept: "concat (map gsm7_septets cs) = vs"
    using basic unfolding vs_def by (induction cs) (auto simp: gsm7_septets_def)
  have vs: "\<forall>v \<in> set vs. 0 \<le> v \<and> v < 128 \<and> v \<noteq> GSM_7BITS_ESCAPE"
  proof
    fix v assume "v \<in> set vs"
    then obtain c where c: "c \<in> set cs" "v = unichar_to_gsm7 c" by (auto simp: vs_def)
    then have "0 \<le> v" "v < 128" "gsm7bits_to_unicode ! nat v = c" using basic gsm7_lookup by auto
    then show "0 \<le> v \<and> v < 128 \<and> v \<noteq> GSM_7BITS_ESCAPE"
      using basic c(1) gsm7_table_escape by (auto simp: GSM_7BITS_ESCAPE_def)
  qed
  have "list_all unichar cs" using basic gsm7_unichar by (auto simp: list_all_iff)
  then have chars: "utf8_chars utf8 = cs" using utf8_chars_concat utf8 by simp
  obtain d where d: "write_gsm7 dst start cs = Some (start + 7 * int (length vs), d)"
      "septets_at d (nat start) vs" "\<forall>k < nat start. bufbit d k = bufbit dst k"
    using write_gsm7_septets [of cs start dst] sept vs assms(2) room by (auto simp: vs_def)
  have st: "drop_bit 3 start = int (nat start div 8)" "nat (start AND 7) = nat start mod 8"
    using assms(2) by (auto simp: and_7_int nat_mod_distrib drop_bit_eq_div zdiv_int)
  have "8 * (nat start div 8) + nat start mod 8 = nat start" by simp
  then have "from_gsm7_loop d (int (nat start div 8)) (nat start mod 8) False (length vs) =
      Some (concat (map (\<lambda>v. utf8_write (gsm7bits_to_unicode ! nat v)) vs))"
    using from_gsm7_loop_basic [of d "nat start div 8" "nat start mod 8" vs] d(2) vs by simp
  moreover have "map (\<lambda>v. utf8_write (gsm7bits_to_unicode ! nat v)) vs = map utf8_write cs"
    using basic gsm7_lookup by (simp add: vs_def)
  ultimately have "from_gsm7_loop d (int (nat start div 8)) (nat start mod 8) False (length vs) = Some utf8"
    unfolding utf8 by simp
  then have "utf8_from_gsm7 d start (int (length cs)) = Some utf8"
    by (simp add: utf8_from_gsm7_def st vs_def)
  then show ?thesis using d chars by (auto simp: utf8_to_gsm7_def vs_def)
qed

section \<open>Properties\<close>

text \<open>
  Remark (roundtrip). UTF-8: reading back what \<open>utf8_write\<close> wrote gives the same characters, for
  every string of code points below \<open>0x200000\<close>, and \<open>utf8_check\<close> accepts the bytes.
\<close>

theorem utf8_roundtrip:
  assumes "list_all unichar vs"
  shows "utf8_chars (concat (map utf8_write vs)) = vs \<and> utf8_check (concat (map utf8_write vs))"
proof -
  have "utf8_check (concat (map utf8_write vs))"
    using assms by (induction vs) (simp_all add: utf8_check_write)
  then show ?thesis using utf8_chars_concat [OF assms] by blast
qed

theorem utf8_roundtrip_witness:
  "utf8_chars (concat (map utf8_write [0x41, 0xe9, 0x20ac, 0x1f600])) = [0x41, 0xe9, 0x20ac, 0x1f600]"
  using utf8_roundtrip [of "[0x41, 0xe9, 0x20ac, 0x1f600]"] by simp

text \<open>
  Remark (roundtrip). UCS-2 to UTF-8 and back is the identity on the units converted, surrogates
  included.
\<close>

theorem ucs2_utf8_roundtrip:
  assumes "ucs2_to_utf8 u n = Some w"
  shows "utf8_to_ucs2 w = take (2 * n) u"
  using ucs2_to_utf8_units [OF assms] utf8_chars_concat by (auto simp: utf8_to_ucs2_def)

theorem ucs2_utf8_roundtrip_witness:
  "\<exists>w. ucs2_to_utf8 [0x20, 0xac, 0, 0x41] 2 = Some w \<and> utf8_to_ucs2 w = [0x20, 0xac, 0, 0x41]"
proof -
  obtain w where w: "ucs2_to_utf8 [0x20, 0xac, 0, 0x41] (Suc (Suc 0)) = Some w" by simp
  from ucs2_utf8_roundtrip [OF w] w show ?thesis by (auto simp: numeral_2_eq_2)
qed



text \<open>
  Remark (error). The escape state is never left: in \<open>utf8_from_gsm7\<close> every septet after an
  extension character is looked up in the extension table. The text "[A" packs to three septets and
  reads back as "[" and a zero byte.
\<close>

theorem gsm7_escape_sticks:
  "\<exists>d. utf8_to_gsm7 [0x5b, 0x41] (replicate 3 0) 0 = Some (21, d) \<and>
     utf8_from_gsm7 d 0 3 = Some [0x5b, 0]"
proof (intro exI conjI)
  show "utf8_to_gsm7 [0x5b, 0x41] (replicate 3 0) 0 = Some (21, [0x1b, 0x5e, 0x10])" by code_simp
  show "utf8_from_gsm7 [0x1b, 0x5e, 0x10] 0 3 = Some [0x5b, 0]" by code_simp
qed

end
