(* ===== verification/Sms_Text.thy ===== *)
theory Sms_Text
  imports Gsm_Text
begin

unbundle bit_operations_syntax

text \<open>
  The first part of \<open>telephony/sms.c\<close>: the quoted message text of the console, timestamps, and
  addresses in their string, byte and hexadecimal forms.
\<close>

section \<open>Message text\<close>

text \<open>
  The character at the start of a string, as both conversions read it: after a lead byte the source
  advances once more before it collects continuation bytes.
\<close>

fun msg_next :: "byte list \<Rightarrow> int \<times> byte list" where
  "msg_next [] = (-1, [])"
| "msg_next (b # p) =
     (let c = uint b
      in if c \<ge> 128 then
           take_conts
             (if c AND 0xe0 = 0xc0 then c AND 0x1f else if c AND 0xf0 = 0xe0 then c AND 0x0f else c AND 0x07)
             (drop 1 p)
         else (c, p))"

lemma msg_next_shorter: "(c, q) = msg_next (b # p) \<Longrightarrow> length q < Suc (length p)"
proof -
  assume a: "(c, q) = msg_next (b # p)"
  have "length (snd (msg_next (b # p))) \<le> length p"
    by (auto simp: Let_def intro: order_trans [OF take_conts_length])
  then show ?thesis using a by (metis le_imp_less_Suc snd_conv)
qed

definition msg_emit :: "int \<Rightarrow> byte list" where
  "msg_emit c =
     (if c < 128 then [to_byte c]
      else if c < 0x800 then
        [to_byte (0xc0 OR (drop_bit 6 c AND 0x1f)), to_byte (0x80 OR (c AND 0x3f))]
      else
        [to_byte (0xc0 OR (drop_bit 12 c AND 0xf)), to_byte (0x80 OR (drop_bit 6 c AND 0x3f)),
         to_byte (0x80 OR (c AND 0x3f))])"

text \<open>
  What an escape sequence stands for: the value and the rest of the string, or \<open>None\<close> for an error.
\<close>

definition msg_escape :: "int \<Rightarrow> byte list \<Rightarrow> (int \<times> byte list) option" where
  "msg_escape c q =
     (if c = 92 then Some (c, q)
      else if c = 110 then Some (10, q)
      else if c = 120 then
        (case q of
           h0 # h1 # q' \<Rightarrow> (let v = gsm_hex2_to_byte h0 h1 in if v < 0 then None else Some (v, q'))
         | _ \<Rightarrow> None)
      else if c = 117 then
        (case q of
           h0 # h1 # h2 # h3 # q' \<Rightarrow>
             (let v = gsm_hex4_to_short h0 h1 h2 h3 in if v < 0 then None else Some (v, q'))
         | _ \<Rightarrow> None)
      else None)"

lemma msg_escape_length: "msg_escape c q = Some (v, q') \<Longrightarrow> length q' \<le> length q"
  by (auto simp: msg_escape_def Let_def split: if_splits list.splits)

text \<open>The loop: the result of the function and all bytes of the text, stored or not.\<close>

function from_msg_loop :: "byte list \<Rightarrow> bool \<Rightarrow> byte list \<Rightarrow> int \<times> byte list" where
  "from_msg_loop [] escaped out = (if escaped then -1 else int (length out), out)"
| "from_msg_loop (b # p) escaped out =
     (let (c, q) = msg_next (b # p)
      in if escaped then
           (case msg_escape c q of
              None \<Rightarrow> (-1, out)
            | Some (v, q') \<Rightarrow> from_msg_loop q' False (out @ msg_emit v))
         else if c = 92 then from_msg_loop q True out
         else from_msg_loop q False (out @ msg_emit c))"
  by pat_completeness auto
termination
  by (relation "measure (\<lambda>(p, e, out). length p)")
    (auto dest: msg_next_shorter msg_escape_length simp del: msg_next.simps intro: le_less_trans)

declare from_msg_loop.simps(2) [simp del]

text \<open>\<open>sms_utf8_from_message_str\<close>: the result and what is stored in a destination of \<open>utf8len\<close> bytes.\<close>

definition sms_utf8_from_message_str :: "byte list \<Rightarrow> nat \<Rightarrow> int \<times> byte list" where
  "sms_utf8_from_message_str str utf8len = map_prod id (take utf8len) (from_msg_loop str False [])"

text \<open>
  The pieces of the quoted text: a character byte by byte, a control character as \<open>\\xNN\<close>, or a
  backslash pair; the last two are stored only when the source's test finds room for all of them.
\<close>

definition quote_piece :: "int \<Rightarrow> byte list \<times> nat option" where
  "quote_piece c =
     (if c < 32 then
        (if c = 10 then ([92, 110], Some 2) else ([92, 120] @ gsm_hex_from_byte c, Some 3))
      else if c = 92 then ([92, 92], Some 2)
      else (msg_emit c, None))"

definition store_piece :: "nat \<Rightarrow> nat \<Rightarrow> byte list \<times> nat option \<Rightarrow> byte list" where
  "store_piece strlen count pc =
     (case pc of
        (bs, None) \<Rightarrow> take (strlen - count) bs
      | (bs, Some k) \<Rightarrow> if count + k < strlen then bs else [])"

function to_msg_loop :: "nat \<Rightarrow> byte list \<Rightarrow> nat \<Rightarrow> byte list \<Rightarrow> int \<times> byte list" where
  "to_msg_loop strlen [] count out = (int count, out)"
| "to_msg_loop strlen (b # p) count out =
     (let (c, q) = msg_next (b # p);
          pc = quote_piece c
      in to_msg_loop strlen q (count + length (fst pc)) (out @ store_piece strlen count pc))"
  by pat_completeness auto
termination
  by (relation "measure (\<lambda>(s, p, c, out). length p)") (auto dest: msg_next_shorter simp del: msg_next.simps)

declare to_msg_loop.simps(2) [simp del]

definition sms_utf8_to_message_str :: "byte list \<Rightarrow> nat \<Rightarrow> int \<times> byte list" where
  "sms_utf8_to_message_str utf8 strlen = to_msg_loop strlen utf8 0 []"

section \<open>Timestamps\<close>

text \<open>The fields of \<open>struct tm\<close> the code uses; \<open>gmtime\<close> and \<open>localtime\<close> are arguments.\<close>

record tm =
  tm_sec :: int
  tm_min :: int
  tm_hour :: int
  tm_mday :: int
  tm_mon :: int
  tm_year :: int
  tm_yday :: int
  tm_isdst :: int

definition sms_timestamp_now :: "tm \<Rightarrow> tm \<Rightarrow> byte list" where
  "sms_timestamp_now gm local_tm =
     (let tzdiff = (tm_hour local_tm * 4 + tm_min local_tm sdiv 15) - (tm_hour gm * 4 + tm_min gm sdiv 15);
          tzdiff = (if tm_yday local_tm > tm_yday gm then tzdiff + 24 * 4
                    else if tm_yday local_tm < tm_yday gm then tzdiff - 24 * 4 else tzdiff);
          zone = gsm_int_to_bcdi (if tzdiff \<ge> 0 then tzdiff else - tzdiff)
      in [gsm_int_to_bcdi (tm_year local_tm smod 100), gsm_int_to_bcdi (tm_mon local_tm + 1),
          gsm_int_to_bcdi (tm_mday local_tm), gsm_int_to_bcdi (tm_hour local_tm),
          gsm_int_to_bcdi (tm_min local_tm), gsm_int_to_bcdi (tm_sec local_tm),
          if tzdiff < 0 then zone OR 0x08 else zone])"

definition sms_timestamp_to_tm :: "byte list \<Rightarrow> tm \<Rightarrow> int \<times> tm" where
  "sms_timestamp_to_tm data t =
     (let year = gsm_int_from_bcdi (data ! 0);
          year = (if year < 50 then year + 100 else year);
          t = t\<lparr>tm_year := year, tm_mon := gsm_int_from_bcdi (data ! 1) - 1,
                tm_mday := gsm_int_from_bcdi (data ! 2), tm_hour := gsm_int_from_bcdi (data ! 3),
                tm_min := gsm_int_from_bcdi (data ! 4), tm_sec := gsm_int_from_bcdi (data ! 5),
                tm_isdst := -1\<rparr>;
          tzdiff = gsm_int_from_bcdi (data ! 6 AND 0xf7)
      in (if data ! 6 AND 0x8 \<noteq> 0 then - tzdiff else tzdiff, t))"

section \<open>Addresses\<close>

text \<open>\<open>SmsAddressRec\<close>; \<open>data\<close> has \<open>SMS_ADDRESS_MAX_SIZE\<close> = 16 bytes.\<close>

record sms_address =
  addr_len :: byte
  toa :: byte
  addr_data :: "byte list"

definition SMS_ADDRESS_MAX_SIZE :: int where "SMS_ADDRESS_MAX_SIZE = 16"

text \<open>The digit loop, at byte \<open>i\<close> and bit \<open>shift\<close> of \<open>data\<close>; the result is \<open>(ok, len, data)\<close>.\<close>

fun addr_digits :: "byte list \<Rightarrow> int \<Rightarrow> nat \<Rightarrow> int \<Rightarrow> byte list \<Rightarrow> (bool \<times> int \<times> byte list) option" where
  "addr_digits [] i shift len data =
     (if shift \<noteq> 0
      then Option.bind (rd data i) (\<lambda>b. map_option (\<lambda>d. (True, len, d)) (wr data i (b OR 0xf0)))
      else Some (True, len, data))"
| "addr_digits (ch # src) i shift len data =
     (let c = uint ch - 48
      in if \<not> in_range c 10 \<or> i \<ge> SMS_ADDRESS_MAX_SIZE then Some (False, len, data)
         else
           Option.bind (rd data i) (\<lambda>b.
             Option.bind (wr data i (b OR to_byte (push_bit shift c))) (\<lambda>data.
               if shift + 4 = 8 then addr_digits src (i + 1) 0 (len + 1) data
               else addr_digits src i (shift + 4) (len + 1) data)))"

definition sms_address_from_str :: "sms_address \<Rightarrow> byte list \<Rightarrow> (int \<times> sms_address) option" where
  "sms_address_from_str a src =
     (let a = a\<lparr>addr_len := 0, toa := 0x81\<rparr>
      in case src of
           [] \<Rightarrow> Some (-1, a)
         | ch # rest \<Rightarrow>
             (let a = (if ch = 43 then a\<lparr>toa := 0x91\<rparr> else a);
                  digits = (if ch = 43 then rest else src)
              in if digits = [] then Some (-1, a)
                 else
                   map_option (\<lambda>(ok, len, d).
                     if ok then (0, a\<lparr>addr_len := to_byte len, addr_data := d\<rparr>) else (-1, a\<lparr>addr_data := d\<rparr>))
                     (addr_digits digits 0 0 0 (replicate 16 0))))"

definition dialdigits :: "byte list" where
  "dialdigits = [48, 49, 50, 51, 52, 53, 54, 55, 56, 57, 42, 35, 44, 78, 37, 0]"

text \<open>
  The loop of \<open>sms_address_to_str\<close> over \<open>n\<close>, which steps by two; the characters it produces, of which
  the first \<open>strlen\<close> are stored.
\<close>

function addr_str_loop :: "byte list \<Rightarrow> int \<Rightarrow> int \<Rightarrow> byte list option" where
  "addr_str_loop data n len =
     (if n < len then
        Option.bind (rd data (n div 2)) (\<lambda>b.
          let c = uint b;
              lo = dialdigits ! nat (c AND 0xf);
              hi = dialdigits ! nat (drop_bit 4 c AND 0xf)
          in if n + 1 > len then Some [lo]
             else map_option (\<lambda>cs. lo # hi # cs) (addr_str_loop data (n + 2) len))
      else Some [])"
  by auto
termination by (relation "measure (\<lambda>(d, n, len). nat (len - n))") auto

declare addr_str_loop.simps [simp del]

definition sms_address_to_str :: "sms_address \<Rightarrow> nat \<Rightarrow> (int \<times> byte list) option" where
  "sms_address_to_str a strlen =
     map_option (\<lambda>cs. let cs = (if toa a = 0x91 then 43 # cs else cs) in (int (length cs), take strlen cs))
       (addr_str_loop (addr_data a) 0 (uint (addr_len a)))"

definition sms_address_from_bytes :: "sms_address \<Rightarrow> byte list \<Rightarrow> int \<Rightarrow> (int \<times> sms_address) option" where
  "sms_address_from_bytes a data buflen =
     (if buflen < 2 then Some (-1, a)
      else
        Option.bind (rd data 0) (\<lambda>b0. Option.bind (rd data 1) (\<lambda>b1.
          let a = a\<lparr>addr_len := b0, toa := b1\<rparr>;
              len = (uint b0 + 1) div 2
          in if len > SMS_ADDRESS_MAX_SIZE then Some (-1, a)
             else map_option (\<lambda>d. (0, a\<lparr>addr_data := d\<rparr>)) (memcpy (addr_data a) 0 (drop 2 data) len))))"

text \<open>\<open>sms_address_to_bytes\<close>: the result and the bytes stored in a buffer of \<open>bufsize\<close> bytes.\<close>

definition sms_address_to_bytes :: "sms_address \<Rightarrow> nat \<Rightarrow> (int \<times> byte list) option" where
  "sms_address_to_bytes a bufsize =
     (let len = (uint (addr_len a) + 1) div 2 + 2;
          k = min (bufsize - 2) (nat (len - 2))
      in if bufsize < 1 then Some (len, []) else if bufsize < 2 then Some (len, [addr_len a])
         else if k \<le> length (addr_data a) then Some (len, addr_len a # toa a # take k (addr_data a))
         else None)"

text \<open>The copy loop of \<open>sms_address_from_hex\<close>.\<close>

fun hex_copy :: "byte list \<Rightarrow> byte list \<Rightarrow> int \<Rightarrow> nat \<Rightarrow> byte list option" where
  "hex_copy hex data nn 0 = Some data"
| "hex_copy (h0 # h1 # hex) data nn (Suc k) =
     Option.bind (wr data nn (to_byte (gsm_hex2_to_byte h0 h1))) (\<lambda>data. hex_copy hex data (nn + 1) k)"
| "hex_copy _ data nn (Suc k) = None"

definition sms_address_from_hex :: "sms_address \<Rightarrow> byte list \<Rightarrow> (int \<times> sms_address) option" where
  "sms_address_from_hex a hex =
     (case hex of
        h0 # h1 # h2 # h3 # rest \<Rightarrow>
          (let num_digits = gsm_hex2_to_byte h0 h1;
               a = a\<lparr>addr_len := to_byte num_digits, toa := to_byte (gsm_hex2_to_byte h2 h3)\<rparr>;
               len = (num_digits + 1) sdiv 2
           in if len * 2 > int (length rest) then Some (-1, a)
              else map_option (\<lambda>d. (0, a\<lparr>addr_data := d\<rparr>)) (hex_copy rest (addr_data a) 0 (nat len)))
      | _ \<Rightarrow> Some (-1, a))"

text \<open>
  \<open>sms_address_to_hex\<close>: the result and the characters stored. When the buffer has more room than the
  digits need, the source limits the loop to \<open>(len - 2)/2\<close> characters.
\<close>

definition sms_address_to_hex :: "sms_address \<Rightarrow> nat \<Rightarrow> (int \<times> byte list) option" where
  "sms_address_to_hex a hexlen =
     (let len = (uint (addr_len a) + 1) div 2 + 2;
          k = int hexlen - 4;
          k = (if k > 2 * (len - 2) then (len - 2) div 2 else k);
          m = nat ((k + 1) div 2)
      in if hexlen < 2 then Some (len * 2, [])
         else if hexlen < 4 then Some (len * 2, gsm_hex_from_byte (uint (addr_len a)))
         else if m \<le> length (addr_data a) then
           Some (len * 2, gsm_hex_from_byte (uint (addr_len a)) @ gsm_hex_from_byte (uint (toa a)) @
                          gsm_hex_from_bytes (take m (addr_data a)))
         else None)"

text \<open>\<open>memcmp\<close> over \<open>len\<close> bytes, the number of digits; past the arrays it is \<open>None\<close>.\<close>

definition sms_address_eq :: "sms_address \<Rightarrow> sms_address \<Rightarrow> bool option" where
  "sms_address_eq a1 a2 =
     (if toa a1 \<noteq> toa a2 \<or> addr_len a1 \<noteq> addr_len a2 then Some False
      else
        (let n = unat (addr_len a1)
         in if n \<le> length (addr_data a1) \<and> n \<le> length (addr_data a2)
            then Some (take n (addr_data a1) = take n (addr_data a2)) else None))"

section \<open>Quoted text\<close>

lemma ctrl_table:
  "list_all (\<lambda>c. gsm_hex2_to_byte (gsm_hex_from_byte c ! 0) (gsm_hex_from_byte c ! 1) = c \<and>
     uint (gsm_hex_from_byte c ! 0) < 128 \<and> uint (gsm_hex_from_byte c ! 1) < 128) [0..31]"
  by code_simp

text \<open>The full quoted form of an ASCII text.\<close>

definition quote_text :: "byte list \<Rightarrow> byte list" where
  "quote_text bs = concat (map (\<lambda>b. fst (quote_piece (uint b))) bs)"

lemma to_msg_loop_ascii:
  assumes "\<forall>b \<in> set bs. uint b < 128" "count + length (quote_text bs) + 1 < strlen"
  shows "to_msg_loop strlen bs count out = (int (count + length (quote_text bs)), out @ quote_text bs)"
  using assms
proof (induction bs arbitrary: count out)
  case Nil
  then show ?case by (simp add: quote_text_def)
next
  case (Cons b bs)
  let ?pc = "quote_piece (uint b)"
  have q: "quote_text (b # bs) = fst ?pc @ quote_text bs" by (simp add: quote_text_def)
  then have room: "count + length (fst ?pc) + 1 < strlen" using Cons.prems(2) by simp
  have "store_piece strlen count ?pc = fst ?pc"
    using room by (auto simp: store_piece_def quote_piece_def gsm_hex_from_byte_def)
  then show ?case
    using Cons q by (simp add: to_msg_loop.simps(2) add.assoc Let_def)
qed

lemma to_msg_loop_count:
  "\<forall>b \<in> set bs. uint b < 128 \<Longrightarrow>
   fst (to_msg_loop strlen bs count out) = int (count + length (quote_text bs))"
  by (induction bs arbitrary: count out)
    (simp_all add: to_msg_loop.simps(2) quote_text_def Let_def)

lemma from_msg_ascii:
  assumes "\<forall>b \<in> set bs. uint b < 128"
  shows "from_msg_loop (quote_text bs) False out = (int (length out + length bs), out @ bs)"
  using assms
proof (induction bs arbitrary: out)
  case Nil
  then show ?case by (simp add: quote_text_def)
next
  case (Cons b bs)
  have b: "uint b < 128" "0 \<le> uint b" using Cons.prems by auto
  have q: "quote_text (b # bs) = fst (quote_piece (uint b)) @ quote_text bs" by (simp add: quote_text_def)
  have bk: "to_byte (uint b) = b" by simp
  have ih: "from_msg_loop (quote_text bs) False (out @ [b]) = (int (length out + length (b # bs)), out @ b # bs)"
    using Cons by simp
  consider "uint b = 10" | "uint b < 32" "uint b \<noteq> 10" | "uint b = 92" | "uint b \<ge> 32" "uint b \<noteq> 92" by linarith
  then show ?case
  proof cases
    case 1
    then show ?thesis unfolding q using ih bk
      by (simp add: quote_piece_def from_msg_loop.simps(2) msg_escape_def msg_emit_def)
  next
    case 2
    let ?h = "gsm_hex_from_byte (uint b)"
    have h: "?h = [?h ! 0, ?h ! 1]" by (simp add: gsm_hex_from_byte_def)
    have v: "gsm_hex2_to_byte (?h ! 0) (?h ! 1) = uint b"
      using ctrl_table 2 b by (simp add: list_all_iff)
    have "quote_text (b # bs) = 92 # 120 # ?h ! 0 # ?h ! 1 # quote_text bs"
      unfolding q using 2 by (subst h) (simp add: quote_piece_def gsm_hex_from_byte_def)
    then show ?thesis using ih bk b v
      by (simp add: from_msg_loop.simps(2) msg_escape_def msg_emit_def Let_def)
  next
    case 3
    then show ?thesis unfolding q using ih bk
      by (simp add: quote_piece_def from_msg_loop.simps(2) msg_escape_def msg_emit_def)
  next
    case 4
    then show ?thesis unfolding q using ih bk b
      by (simp add: quote_piece_def from_msg_loop.simps(2) msg_emit_def)
  qed
qed

section \<open>Packed digits\<close>

fun pack_digits :: "int list \<Rightarrow> byte list" where
  "pack_digits [] = []"
| "pack_digits [a] = [to_byte a OR 0xf0]"
| "pack_digits (a # b # ds) = (to_byte a OR to_byte (push_bit 4 b)) # pack_digits ds"

abbreviation digit :: "int \<Rightarrow> bool" where
  "digit d \<equiv> 0 \<le> d \<and> d < 10"

abbreviation digit_char :: "int \<Rightarrow> byte" where
  "digit_char d \<equiv> to_byte (d + 48)"

lemma digit_tables:
  "list_all (\<lambda>a. list_all (\<lambda>b. uint (to_byte a OR to_byte (push_bit 4 b)) AND 0xf = a \<and>
     drop_bit 4 (uint (to_byte a OR to_byte (push_bit 4 b))) AND 0xf = b) [0..9]) [0..9]"
  "list_all (\<lambda>a. uint (to_byte a OR 0xf0) AND 0xf = a \<and> drop_bit 4 (uint (to_byte a OR 0xf0)) AND 0xf = 15) [0..9]"
  "list_all (\<lambda>a. dialdigits ! nat a = digit_char a \<and> uint (digit_char a) = a + 48) [0..9]"
  by code_simp+

lemma digit_pair:
  assumes "digit a" "digit b"
  shows "uint (to_byte a OR to_byte (push_bit 4 b)) AND 0xf = a"
    and "drop_bit 4 (uint (to_byte a OR to_byte (push_bit 4 b))) AND 0xf = b"
proof -
  have "a \<in> set [0..9]" "b \<in> set [0..9]" using assms by auto
  then show "uint (to_byte a OR to_byte (push_bit 4 b)) AND 0xf = a"
    "drop_bit 4 (uint (to_byte a OR to_byte (push_bit 4 b))) AND 0xf = b"
    using digit_tables(1) unfolding list_all_iff by blast+
qed

lemma digit_single:
  assumes "digit a"
  shows "uint (to_byte a OR 0xf0) AND 0xf = a" and "drop_bit 4 (uint (to_byte a OR 0xf0)) AND 0xf = 15"
    and "dialdigits ! nat a = digit_char a" and "uint (digit_char a) = a + 48"
proof -
  have "a \<in> set [0..9]" using assms by auto
  then show "uint (to_byte a OR 0xf0) AND 0xf = a" "drop_bit 4 (uint (to_byte a OR 0xf0)) AND 0xf = 15"
    "dialdigits ! nat a = digit_char a" "uint (digit_char a) = a + 48"
    using digit_tables(2,3) unfolding list_all_iff by blast+
qed

lemma length_pack: "length (pack_digits ds) = (length ds + 1) div 2"
  by (induction ds rule: pack_digits.induct) auto

lemma rd_mid: "rd (xs @ y # ys) (int (length xs)) = Some y"
  by (simp add: rd_def)

lemma wr_mid: "wr (xs @ y # ys) (int (length xs)) v = Some (xs @ v # ys)"
  by (simp add: wr_def)

lemma addr_digits_pack:
  assumes "list_all digit ds" "length xs + k = 16" "length ds \<le> 2 * k"
  shows "addr_digits (map digit_char ds) (int (length xs)) 0 len (xs @ replicate k 0) =
    Some (True, len + int (length ds), xs @ pack_digits ds @ replicate (k - length (pack_digits ds)) 0)"
  using assms
proof (induction ds arbitrary: xs k len rule: pack_digits.induct)
  case 1
  then show ?case by simp
next
  case (2 a)
  then obtain k' where k: "k = Suc k'" by (cases k) auto
  have i: "int (length xs) < 16" using 2 k by simp
  show ?case using 2 k i digit_single [of a]
    by (simp add: SMS_ADDRESS_MAX_SIZE_def in_range_def rd_mid wr_mid Let_def)
next
  case (3 a b ds)
  then obtain k' where k: "k = Suc k'" by (cases k) auto
  have i: "int (length xs) < 16" using 3 k by simp
  let ?y = "to_byte a OR to_byte (push_bit 4 b)"
  have "addr_digits (map digit_char ds) (int (length (xs @ [?y]))) 0 (len + 2) ((xs @ [?y]) @ replicate k' 0) =
      Some (True, len + 2 + int (length ds), (xs @ [?y]) @ pack_digits ds @ replicate (k' - length (pack_digits ds)) 0)"
    by (rule 3(1)) (use 3 k in auto)
  then show ?case using 3 k i digit_single(4) [of a] digit_single(4) [of b]
    by (simp add: SMS_ADDRESS_MAX_SIZE_def in_range_def rd_mid wr_mid Let_def add.commute add.left_commute)
qed

lemma addr_str_pack:
  assumes "list_all digit ds" "n = 2 * int (length xs)"
  shows "addr_str_loop (xs @ pack_digits ds @ ys) n (n + int (length ds)) =
    Some (map digit_char ds @ (if odd (length ds) then [0] else []))"
  using assms
proof (induction ds arbitrary: xs n rule: pack_digits.induct)
  case 1
  then show ?case by (simp add: addr_str_loop.simps)
next
  case (2 a)
  have "dialdigits ! 15 = 0" by (simp add: dialdigits_def)
  then show ?case using 2 digit_single [of a]
    by (subst addr_str_loop.simps, subst addr_str_loop.simps) (simp add: rd_mid Let_def)
next
  case (3 a b ds)
  let ?y = "to_byte a OR to_byte (push_bit 4 b)"
  have "addr_str_loop ((xs @ [?y]) @ pack_digits ds @ ys) (n + 2) (n + 2 + int (length ds)) =
      Some (map digit_char ds @ (if odd (length ds) then [0] else []))"
    by (rule 3(1)) (use 3 in auto)
  then show ?case using 3 digit_pair [of a b] digit_single(3) [of a] digit_single(3) [of b]
    by (subst addr_str_loop.simps) (simp add: rd_mid Let_def add.assoc)
qed

section \<open>Properties\<close>

text \<open>
  Remark (roundtrip). Quoting an ASCII text with \<open>sms_utf8_to_message_str\<close> and reading the result
  with \<open>sms_utf8_from_message_str\<close> gives the text back, control characters, newlines and backslashes
  included, when both buffers have room.
\<close>

theorem message_text_roundtrip:
  assumes "\<forall>b \<in> set bs. uint b < 128" and "sms_utf8_to_message_str bs strlen = (n, str)"
    and "n + 1 < int strlen" and "length bs \<le> utf8len"
  shows "n = int (length str) \<and> sms_utf8_from_message_str str utf8len = (int (length bs), bs)"
proof -
  have "n = int (length (quote_text bs))"
    using to_msg_loop_count [OF assms(1), of strlen 0 "[]"] assms(2) by (simp add: sms_utf8_to_message_str_def)
  then have "str = quote_text bs"
    using to_msg_loop_ascii [OF assms(1), of 0 strlen "[]"] assms(2,3) by (simp add: sms_utf8_to_message_str_def)
  with \<open>n = int (length (quote_text bs))\<close> show ?thesis
    using from_msg_ascii [OF assms(1), of "[]"] assms(4) by (simp add: sms_utf8_from_message_str_def)
qed

theorem message_text_roundtrip_witness:
  "sms_utf8_from_message_str [0x41, 0x5c, 0x6e, 0x5c, 0x78, 0x30, 0x37] 3 = (3, [0x41, 0x0a, 0x07])"
proof -
  have t: "sms_utf8_to_message_str [0x41, 0x0a, 0x07] 20 = (7, [0x41, 0x5c, 0x6e, 0x5c, 0x78, 0x30, 0x37])"
    by code_simp
  from message_text_roundtrip [OF _ t, of 3] show ?thesis by simp
qed

text \<open>
  Remark (error). Any character outside ASCII is damaged: the readers skip the byte after a lead
  byte before they look for continuation bytes. The two bytes of "e" with acute accent become the
  control character 3.
\<close>

theorem message_text_nonascii:
  "sms_utf8_from_message_str [0xc3, 0xa9] 10 = (1, [3])"
  by code_simp

text \<open>
  Remark (roundtrip). A number of 1 to 32 digits, with or without a leading plus, survives
  \<open>sms_address_from_str\<close> and \<open>sms_address_to_str\<close>, except that an odd number of digits comes back with
  a zero byte appended and counted.
\<close>

theorem address_str_roundtrip:
  assumes "list_all digit ds" and "ds \<noteq> []" and "length ds \<le> 32"
    and "src = (if intl then [43] else []) @ map digit_char ds" and "length src + 1 \<le> strlen"
  shows "\<exists>a'. sms_address_from_str a src = Some (0, a') \<and> unat (addr_len a') = length ds \<and>
    sms_address_to_str a' strlen =
      Some (int (length src) + (if odd (length ds) then 1 else 0), src @ (if odd (length ds) then [0] else []))"
proof -
  let ?d = "pack_digits ds @ replicate (16 - length (pack_digits ds)) 0"
  let ?a = "a\<lparr>toa := if intl then 0x91 else 0x81, addr_len := to_byte (int (length ds)), addr_data := ?d\<rparr>"
  have dig: "addr_digits (map digit_char ds) 0 0 0 (replicate 16 0) = Some (True, int (length ds), ?d)"
    using addr_digits_pack [OF assms(1), of "[]" 16 0] assms(3) by simp
  obtain d ds' where ds: "ds = d # ds'" "digit d" using assms(1,2) by (cases ds) auto
  have "digit_char d \<noteq> 43"
  proof
    assume "digit_char d = 43"
    then have "uint (digit_char d) = uint (43 :: byte)" by (rule arg_cong)
    then have "uint (digit_char d) = 43" unfolding uint_numeral by simp
    then show False using digit_single(4) [OF ds(2)] ds(2) by linarith
  qed
  then have parsed: "sms_address_from_str a src = Some (0, ?a)"
    using dig assms(4) ds by (cases intl) (simp_all add: sms_address_from_str_def)
  have len: "uint (addr_len ?a) = int (length ds)"
    using uint_to_byte_id [of "int (length ds)"] assms(3) by simp
  have "addr_str_loop ?d 0 (int (length ds)) = Some (map digit_char ds @ (if odd (length ds) then [0] else []))"
    using addr_str_pack [OF assms(1), of 0 "[]"] by simp
  then have "sms_address_to_str ?a strlen =
      Some (int (length src) + (if odd (length ds) then 1 else 0), src @ (if odd (length ds) then [0] else []))"
    using assms(4,5) len by (cases intl) (auto simp: sms_address_to_str_def)
  moreover have "unat (addr_len ?a) = length ds" using len by (simp add: unat_eq_nat_uint)
  ultimately show ?thesis using parsed by blast
qed

theorem address_str_roundtrip_witness:
  "\<exists>a'. sms_address_from_str \<lparr>addr_len = 0, toa = 0, addr_data = []\<rparr> [43, 49, 50, 51] = Some (0, a') \<and>
     sms_address_to_str a' 32 = Some (5, [43, 49, 50, 51, 0])"
  using address_str_roundtrip [of "[1, 2, 3]" "[43, 49, 50, 51]" True 32 "\<lparr>addr_len = 0, toa = 0, addr_data = []\<rparr>"]
  by auto

end
