(* ===== verification/Sms_Pdu.thy ===== *)
theory Sms_Pdu
  imports Sms_Text
begin

unbundle bit_operations_syntax

text \<open>
  The second part of \<open>telephony/sms.c\<close>: the PDU parser, the accessors of a PDU, and the construction
  of SMS-DELIVER PDUs.

  A cursor \<open>*pcur\<close> with its \<open>end\<close> is the list of the bytes between them; a parser returns its result
  (0 or -1) and the cursor after it. \<open>None\<close> is an access outside an array, a failed assertion, or,
  for \<open>user_ref_loop\<close>, a loop that does not end. Memory allocation succeeds.
\<close>

section \<open>Parser\<close>

fun sms_get_byte :: "byte list \<Rightarrow> int \<times> byte list" where
  "sms_get_byte [] = (-1, [])"
| "sms_get_byte (b # cur) = (uint b, cur)"

text \<open>
  The digit loop of \<open>sms_get_sc_address\<close>: \<open>n\<close> iterations are left, \<open>cur\<close> is \<open>cur[dlen]\<close> and on. The
  result is \<open>(result, dlen, adjust, data)\<close>.
\<close>

fun sc_digits :: "byte list \<Rightarrow> nat \<Rightarrow> int \<Rightarrow> int \<Rightarrow> byte list \<Rightarrow> (int \<times> int \<times> int \<times> byte list) option" where
  "sc_digits cur 0 dlen adjust data = Some (0, dlen, adjust, data)"
| "sc_digits [] (Suc n) dlen adjust data = None"
| "sc_digits (b # cur) (Suc n) dlen adjust data =
     (let c = uint b
      in if dlen \<ge> SMS_ADDRESS_MAX_SIZE then Some (-1, dlen, 0, data)
         else if c AND 0xf \<ge> 0xe then Some (0, dlen, 0, data)
         else
           Option.bind (wr data dlen b) (\<lambda>data.
             if drop_bit 4 c AND 0xf \<ge> 0xe then Some (0, dlen, 1, data)
             else sc_digits cur n (dlen + 1) 1 data))"

text \<open>On success the cursor is left on the first digit byte, after the type of address.\<close>

fun sms_get_sc_address :: "byte list \<Rightarrow> sms_address \<Rightarrow> (int \<times> byte list \<times> sms_address) option" where
  "sms_get_sc_address [] a = Some (-1, [], a)"
| "sms_get_sc_address (b # cur) a =
     (let len = uint b
      in if len = 0 then Some (0, cur, a\<lparr>addr_len := 0, toa := 0\<rparr>)
         else if len > int (length cur) then Some (-1, b # cur, a)
         else
           map_option (\<lambda>(result, dlen, adjust, data).
             (result, if result = 0 then tl cur else b # cur,
              a\<lparr>toa := hd cur, addr_len := to_byte (2 * dlen + adjust), addr_data := data\<rparr>))
             (sc_digits (tl cur) (nat (len - 1)) 0 0 (addr_data a)))"

fun sms_skip_sc_address :: "byte list \<Rightarrow> int \<times> byte list" where
  "sms_skip_sc_address [] = (-1, [])"
| "sms_skip_sc_address (b # cur) =
     (if unat b > length cur then (-1, b # cur) else (0, drop (unat b) cur))"

fun sms_get_address :: "byte list \<Rightarrow> sms_address \<Rightarrow> (int \<times> byte list \<times> sms_address) option" where
  "sms_get_address [] a = Some (-1, [], a)"
| "sms_get_address (b # cur) a =
     (let dlen = uint b;
          len = (dlen + 1) div 2
      in if dlen = 0 then Some (0, cur, a\<lparr>addr_len := 0, toa := 0\<rparr>)
         else if 1 + len > int (length cur) then Some (-1, b # cur, a)
         else
           (let a = a\<lparr>addr_len := b, toa := hd cur\<rparr>
            in if len > SMS_ADDRESS_MAX_SIZE then Some (-1, b # cur, a)
               else map_option (\<lambda>d. (0, drop (nat len) (tl cur), a\<lparr>addr_data := d\<rparr>))
                      (memcpy (addr_data a) 0 (tl cur) len)))"

text \<open>\<open>sms_skip_address\<close> checks that an address is there but does not move the cursor.\<close>

definition sms_skip_address :: "byte list \<Rightarrow> int \<times> byte list" where
  "sms_skip_address cur =
     (if length cur < 2 then (-1, cur)
      else if 2 + (uint (hd cur) + 1) div 2 > int (length cur) then (-1, cur)
      else (0, cur))"

definition sms_get_timestamp :: "byte list \<Rightarrow> byte list \<Rightarrow> int \<times> byte list \<times> byte list" where
  "sms_get_timestamp cur ts = (if length cur < 7 then (-1, cur, ts) else (0, drop 7 cur, take 7 cur))"

definition sms_skip_timestamp :: "byte list \<Rightarrow> int \<times> byte list" where
  "sms_skip_timestamp cur = (if length cur < 7 then (-1, cur) else (0, drop 7 cur))"

definition sms_skip_validity_period :: "byte list \<Rightarrow> int \<Rightarrow> int \<times> byte list" where
  "sms_skip_validity_period cur mtiByte =
     (let k = (case drop_bit 3 mtiByte AND 3 of v \<Rightarrow> if v = 1 then 1 else if v = 2 \<or> v = 3 then 7 else 0)
      in if k > length cur then (-1, cur) else (0, drop k cur))"

section \<open>PDU accessors\<close>

text \<open>\<open>SmsPDURec\<close>: the bytes from \<open>base\<close> to \<open>end\<close> and the offset of \<open>tpdu\<close>.\<close>

record sms_pdu =
  pdu_base :: "byte list"
  pdu_tpdu :: nat

definition tpdu :: "sms_pdu \<Rightarrow> byte list" where
  "tpdu p = drop (pdu_tpdu p) (pdu_base p)"

datatype sms_pdu_type = SMS_PDU_INVALID | SMS_PDU_DELIVER | SMS_PDU_SUBMIT | SMS_PDU_STATUS_REPORT

definition smspdu_get_type :: "sms_pdu \<Rightarrow> sms_pdu_type" where
  "smspdu_get_type p =
     (let (mtiByte, data) = sms_get_byte (tpdu p)
      in if mtiByte AND 3 = 0 then SMS_PDU_DELIVER
         else if mtiByte AND 3 = 1 then SMS_PDU_SUBMIT
         else if mtiByte AND 3 = 2 then SMS_PDU_STATUS_REPORT
         else SMS_PDU_INVALID)"

definition smspdu_get_sender_address :: "sms_pdu \<Rightarrow> sms_address \<Rightarrow> (int \<times> sms_address) option" where
  "smspdu_get_sender_address p a =
     (let (mtiByte, data) = sms_get_byte (tpdu p)
      in if mtiByte AND 3 = 0 then map_option (\<lambda>(r, c, a). (r, a)) (sms_get_sc_address data a)
         else Some (-1, a))"

definition smspdu_get_sc_timestamp :: "sms_pdu \<Rightarrow> byte list \<Rightarrow> (int \<times> byte list) option" where
  "smspdu_get_sc_timestamp p ts =
     (let (mtiByte, data) = sms_get_byte (tpdu p)
      in if mtiByte AND 3 = 0 then
           map_option (\<lambda>(r, data, a).
             if r < 0 then (-1, ts)
             else (let (r, c, ts) = sms_get_timestamp (drop 2 data) ts in (r, ts)))
             (sms_get_sc_address data \<lparr>addr_len = 0, toa = 0, addr_data = replicate 16 0\<rparr>)
         else Some (-1, ts))"

definition smspdu_get_receiver_address :: "sms_pdu \<Rightarrow> sms_address \<Rightarrow> (int \<times> sms_address) option" where
  "smspdu_get_receiver_address p a =
     (let (mtiByte, data) = sms_get_byte (tpdu p)
      in if mtiByte AND 3 = 1 then map_option (\<lambda>(r, c, a). (r, a)) (sms_get_address (drop 1 data) a)
         else Some (-1, a))"

datatype sms_coding = SMS_CODING_SCHEME_UNKNOWN | SMS_CODING_SCHEME_GSM7 | SMS_CODING_SCHEME_UCS2

fun sms_get_coding_scheme :: "byte list \<Rightarrow> sms_coding \<times> byte list" where
  "sms_get_coding_scheme [] = (SMS_CODING_SCHEME_UNKNOWN, [])"
| "sms_get_coding_scheme (b # cur) =
     (let d = uint b;
          h = drop_bit 4 d
      in (if h = 0 \<or> h = 2 \<or> h = 3 then SMS_CODING_SCHEME_GSM7
          else if h = 1 then
            (if d = 0x10 then SMS_CODING_SCHEME_GSM7
             else if d = 0x11 then SMS_CODING_SCHEME_UCS2 else SMS_CODING_SCHEME_UNKNOWN)
          else if h = 4 \<or> h = 5 \<or> h = 6 \<or> h = 7 then
            (if d AND 0x20 \<noteq> 0 then SMS_CODING_SCHEME_UNKNOWN
             else if drop_bit 2 d AND 3 = 0 then SMS_CODING_SCHEME_GSM7
             else if drop_bit 2 d AND 3 = 2 then SMS_CODING_SCHEME_UCS2 else SMS_CODING_SCHEME_UNKNOWN)
          else if h = 15 then (if d AND 4 = 0 then SMS_CODING_SCHEME_GSM7 else SMS_CODING_SCHEME_UNKNOWN)
          else SMS_CODING_SCHEME_UNKNOWN, cur))"

text \<open>
  \<open>count\<close> bytes reserved in a rope and filled with the bytes \<open>bs\<close> when the rope has memory.
\<close>

definition reserve_and_fill :: "gsm_rope \<Rightarrow> byte list \<Rightarrow> gsm_rope option" where
  "reserve_and_fill rope bs =
     (case gsm_rope_reserve rope (int (length bs)) of
        (None, rope) \<Rightarrow> Some rope
      | (Some off, rope) \<Rightarrow> rope_store rope off bs)"

text \<open>
  \<open>sms_get_text_utf8\<close> after the length byte and the optional header: the text of \<open>len\<close> septets or
  bytes at the cursor is appended to the rope.
\<close>

definition get_text_body ::
  "byte list \<Rightarrow> int \<Rightarrow> sms_coding \<Rightarrow> gsm_rope \<Rightarrow> (int \<times> byte list \<times> gsm_rope) option" where
  "get_text_body cur len coding rope =
     (case coding of
        SMS_CODING_SCHEME_GSM7 \<Rightarrow>
          Option.bind (utf8_from_gsm7 cur 0 len) (\<lambda>bs.
            map_option (\<lambda>rope. (0, drop (nat ((len + 1) div 2)) cur, rope)) (reserve_and_fill rope bs))
      | SMS_CODING_SCHEME_UCS2 \<Rightarrow>
          Option.bind (ucs2_to_utf8 cur (nat (len div 2))) (\<lambda>bs.
            map_option (\<lambda>rope. (0, drop (nat len) cur, rope)) (reserve_and_fill rope bs))
      | SMS_CODING_SCHEME_UNKNOWN \<Rightarrow> Some (0, cur, rope))"

definition sms_get_text_utf8 ::
  "byte list \<Rightarrow> bool \<Rightarrow> sms_coding \<Rightarrow> gsm_rope \<Rightarrow> (int \<times> byte list \<times> gsm_rope) option" where
  "sms_get_text_utf8 cur0 hasUDH coding rope =
     (case cur0 of
        [] \<Rightarrow> Some (-1, cur0, rope)
      | b # cur \<Rightarrow>
          (let len = uint b
           in if hasUDH then
                (case cur of
                   [] \<Rightarrow> Some (-1, cur0, rope)
                 | h # cur \<Rightarrow>
                     (let hlen = uint h
                      in if hlen > int (length cur) then Some (-1, cur0, rope)
                         else
                           (let cur = drop (nat hlen) cur;
                                len = (if coding = SMS_CODING_SCHEME_GSM7 then len - 2 * (hlen + 1)
                                       else len - (hlen + 1))
                            in if len < 0 then Some (-1, cur0, rope)
                               else get_text_body cur len coding rope)))
              else get_text_body cur len coding rope))"

definition stack_rope :: gsm_rope where
  "stack_rope = \<lparr>rope_data = Null, rope_max = 0, rope_pos = 0, rope_error = False, data0 = replicate 16 None\<rparr>"

text \<open>The result of a text extraction: the length and the first \<open>utf8len\<close> bytes of the rope.\<close>

definition rope_result :: "gsm_rope \<Rightarrow> nat \<Rightarrow> (int \<times> byte list) option" where
  "rope_result rope utf8len =
     (let n = min utf8len (nat (rope_pos rope))
      in if n \<le> length (rope_bytes rope) \<and> (\<forall>x \<in> set (take n (rope_bytes rope)). x \<noteq> None)
         then Some (rope_pos rope, map the (take n (rope_bytes rope))) else None)"

text \<open>
  \<open>smspdu_get_text_message\<close>. In the DELIVER case the source never initialises the rope, so a text
  that is reached is undefined behaviour.
\<close>

definition smspdu_get_text_message :: "sms_pdu \<Rightarrow> nat \<Rightarrow> (int \<times> byte list) option" where
  "smspdu_get_text_message p utf8len =
     (let (mtiByte, data) = sms_get_byte (tpdu p);
          a0 = \<lparr>addr_len = 0, toa = 0, addr_data = replicate 16 0\<rparr>;
          hasUDH = (mtiByte AND 0x40 \<noteq> 0)
      in if mtiByte AND 3 = 0 then
           Option.bind (sms_get_sc_address data a0) (\<lambda>(r, data, a).
             if r < 0 then Some (-1, [])
             else
               (let (coding, data) = sms_get_coding_scheme (drop 1 data);
                    (r, data, ts) = sms_get_timestamp data []
                in if coding = SMS_CODING_SCHEME_UNKNOWN \<or> r < 0 then Some (-1, [])
                   else (case sms_get_text_utf8 data hasUDH coding stack_rope of
                           Some (r, _, _) \<Rightarrow> if r < 0 then Some (-1, []) else None
                         | None \<Rightarrow> None)))
         else if mtiByte AND 3 = 1 then
           Option.bind (sms_get_address (drop 1 data) a0) (\<lambda>(r, data, a).
             if r < 0 then Some (-1, [])
             else
               (let (coding, data) = sms_get_coding_scheme (drop 1 data)
                in if coding = SMS_CODING_SCHEME_UNKNOWN then Some (-1, [])
                   else
                     Option.bind (sms_get_text_utf8 data hasUDH coding (gsm_rope_init_alloc stack_rope 0))
                       (\<lambda>(r, data, rope). if r < 0 then Some (-1, []) else rope_result rope utf8len)))
         else Some (-1, []))"

text \<open>The search for the concatenation element; \<open>Some None\<close> is \<open>NULL\<close>.\<close>

partial_function (option) user_ref_loop :: "byte list \<Rightarrow> int \<Rightarrow> byte list option option" where
  "user_ref_loop data len =
     (if len \<ge> 2 \<and> length data \<ge> 2 then
        (let htype = uint (data ! 0);
             hlen = uint (data ! 1)
         in if htype = 0 \<and> hlen = 3 \<and> length data \<ge> 5 then Some (Some (drop 2 data))
            else user_ref_loop (drop (nat hlen) data) (len - (hlen - 2)))
      else Some None)"

definition smspdu_get_user_data_ref :: "sms_pdu \<Rightarrow> byte list option option" where
  "smspdu_get_user_data_ref p =
     (let (mtiByte, data) = sms_get_byte (tpdu p);
          finish = (\<lambda>data. if length data \<le> 1 then Some None
                           else user_ref_loop (drop 2 data) (uint (data ! 1)))
      in if mtiByte AND 0x40 = 0 then Some None
         else if mtiByte AND 3 = 0 then
           (let (r, data) = sms_skip_address data
            in if r < 0 then Some None
               else (let (r, data) = sms_skip_timestamp (drop 2 data)
                     in if r < 0 then Some None else finish data))
         else if mtiByte AND 3 = 1 then
           (let (r, data) = sms_skip_address (drop 1 data)
            in if r < 0 then Some None
               else (let (r, data) = sms_skip_validity_period (drop 2 data) mtiByte
                     in if r < 0 then Some None else finish data))
         else Some None)"

definition smspdu_get_ref :: "sms_pdu \<Rightarrow> int option" where
  "smspdu_get_ref p =
     map_option (\<lambda>user_ref.
       case user_ref of
         Some u \<Rightarrow> uint (u ! 0)
       | None \<Rightarrow>
           (let (mtiByte, data) = sms_get_byte (tpdu p)
            in if mtiByte AND 3 = 1 \<and> data \<noteq> [] then uint (hd data) else -1))
       (smspdu_get_user_data_ref p)"

definition smspdu_get_max_index :: "sms_pdu \<Rightarrow> int option" where
  "smspdu_get_max_index p =
     map_option (\<lambda>u. case u of Some u \<Rightarrow> uint (u ! 1) | None \<Rightarrow> 1) (smspdu_get_user_data_ref p)"

definition smspdu_get_cur_index :: "sms_pdu \<Rightarrow> int option" where
  "smspdu_get_cur_index p =
     map_option (\<lambda>u. case u of Some u \<Rightarrow> uint (u ! 2) - 1 | None \<Rightarrow> 0) (smspdu_get_user_data_ref p)"

section \<open>Building SMS-DELIVER PDUs\<close>

definition gsm_rope_add_timestamp :: "gsm_rope \<Rightarrow> byte list \<Rightarrow> gsm_rope option" where
  "gsm_rope_add_timestamp rope ts = gsm_rope_add rope (take 7 ts)"

text \<open>\<open>rope->data[rope->pos-1] |= 0xf0\<close>\<close>

definition rope_or_last :: "gsm_rope \<Rightarrow> byte \<Rightarrow> gsm_rope option" where
  "rope_or_last rope m =
     (case rd (rope_bytes rope) (rope_pos rope - 1) of
        Some (Some b) \<Rightarrow> rope_store rope (rope_pos rope - 1) [b OR m]
      | _ \<Rightarrow> None)"

definition gsm_rope_add_address :: "gsm_rope \<Rightarrow> sms_address \<Rightarrow> gsm_rope option" where
  "gsm_rope_add_address rope a =
     (let n = (unat (addr_len a) + 1) div 2
      in if n > length (addr_data a) then None
         else
           Option.bind (gsm_rope_add_c rope (addr_len a)) (\<lambda>rope.
           Option.bind (gsm_rope_add_c rope (toa a)) (\<lambda>rope.
           Option.bind (gsm_rope_add rope (take n (addr_data a))) (\<lambda>rope.
             if odd (unat (addr_len a)) \<and> \<not> rope_error rope \<and> rope_data rope \<noteq> Null
             then rope_or_last rope 0xf0 else Some rope))))"

fun add_cs :: "gsm_rope \<Rightarrow> byte list \<Rightarrow> gsm_rope option" where
  "add_cs rope [] = Some rope"
| "add_cs rope (c # cs) = Option.bind (gsm_rope_add_c rope c) (\<lambda>rope. add_cs rope cs)"

definition gsm_rope_add_sms_user_header :: "gsm_rope \<Rightarrow> int \<Rightarrow> int \<Rightarrow> int \<Rightarrow> gsm_rope option" where
  "gsm_rope_add_sms_user_header rope ref_number pdu_count pdu_index =
     add_cs rope [0x05, 0x00, 0x03, to_byte ref_number, to_byte pdu_count, to_byte pdu_index + 1]"

text \<open>The reserved bytes are written by \<open>utf8_to_gsm7\<close>, which also reads the first of them.\<close>

definition reserve_gsm7 :: "gsm_rope \<Rightarrow> int \<Rightarrow> byte list \<Rightarrow> int \<Rightarrow> gsm_rope option" where
  "reserve_gsm7 rope count utf8 pad =
     (case gsm_rope_reserve rope count of
        (None, rope) \<Rightarrow> Some rope
      | (Some off, rope) \<Rightarrow>
          (let cells = drop (nat off) (rope_bytes rope)
           in if \<forall>x \<in> set cells. x \<noteq> None then
                Option.bind (utf8_to_gsm7 utf8 (map the cells) pad) (\<lambda>(n, d). rope_store rope off d)
              else None))"

definition gsm_rope_add_sms_deliver_pdu ::
  "gsm_rope \<Rightarrow> byte list \<Rightarrow> bool \<Rightarrow> sms_address \<Rightarrow> byte list \<Rightarrow> int \<Rightarrow> int \<Rightarrow> int \<Rightarrow> gsm_rope option" where
  "gsm_rope_add_sms_deliver_pdu rope utf8 use_gsm7 sender ts ref_num pdu_count pdu_index =
     Option.bind (add_cs rope [0, if pdu_count > 1 then 0x60 else 0x20]) (\<lambda>rope.
     Option.bind (gsm_rope_add_address rope sender) (\<lambda>rope.
     Option.bind (add_cs rope [0, if use_gsm7 then 0x00 else 0x09]) (\<lambda>rope.
     Option.bind (gsm_rope_add_timestamp rope ts) (\<lambda>rope.
       if use_gsm7 then
         (let count = utf8_to_gsm7_count utf8
          in if count > 154 then None
             else if pdu_count > 1 then
               Option.bind (add_cs rope [to_byte (count + 7)]) (\<lambda>rope.
               Option.bind (gsm_rope_add_sms_user_header rope ref_num pdu_count pdu_index) (\<lambda>rope.
                 reserve_gsm7 rope ((count * 7 + 1 + 7) div 8) utf8 1))
             else
               Option.bind (add_cs rope [to_byte count]) (\<lambda>rope.
                 reserve_gsm7 rope ((count * 7 + 0 + 7) div 8) utf8 0))
       else
         (let count = int (length (utf8_to_ucs2 utf8)) div 2
          in if count * 2 > 134 then None
             else
               Option.bind
                 (if pdu_count > 1 then
                    Option.bind (add_cs rope [to_byte (count * 2 + 6)]) (\<lambda>rope.
                      gsm_rope_add_sms_user_header rope ref_num pdu_count pdu_index)
                  else add_cs rope [to_byte (count * 2)]) (\<lambda>rope.
               Option.bind (add_cs rope [to_byte (count * 2)]) (\<lambda>rope.
                 reserve_and_fill rope (utf8_to_ucs2 utf8))))))))"

text \<open>\<open>smspdu_create_deliver\<close>: a first pass on an empty rope counts, a second one stores.\<close>

definition smspdu_create_deliver ::
  "byte list \<Rightarrow> bool \<Rightarrow> sms_address \<Rightarrow> byte list \<Rightarrow> int \<Rightarrow> int \<Rightarrow> int \<Rightarrow> sms_pdu option" where
  "smspdu_create_deliver utf8 use_gsm7 sender ts ref_num pdu_count pdu_index =
     Option.bind (gsm_rope_add_sms_deliver_pdu (gsm_rope_init stack_rope) utf8 use_gsm7 sender ts
        ref_num pdu_count pdu_index) (\<lambda>rope.
     Option.bind (gsm_rope_add_sms_deliver_pdu (gsm_rope_init_alloc rope (rope_pos rope)) utf8 use_gsm7
        sender ts ref_num pdu_count pdu_index) (\<lambda>rope.
       (case gsm_rope_done_acquire rope of
          (Some cells, sz) \<Rightarrow>
            if nat sz \<le> length cells \<and> (\<forall>x \<in> set (take (nat sz) cells). x \<noteq> None)
            then Some \<lparr>pdu_base = map the (take (nat sz) cells), pdu_tpdu = 1\<rparr> else None
        | (None, sz) \<Rightarrow> None)))"

text \<open>
  The loop of \<open>smspdu_create_deliver_utf8\<close> over the \<open>num_pdus\<close> PDUs: \<open>nn\<close> is the next index and \<open>k\<close>
  the number left; a message is cut with \<open>utf8_skip_gsm7\<close> in both codings.
\<close>

fun create_pdus ::
  "byte list \<Rightarrow> nat \<Rightarrow> int \<Rightarrow> int \<Rightarrow> int \<Rightarrow> int \<Rightarrow> bool \<Rightarrow> sms_address \<Rightarrow> byte list \<Rightarrow> int \<Rightarrow> sms_pdu list option" where
  "create_pdus src 0 nn num_pdus leftover block use_gsm7 sender ts ref_num = Some []"
| "create_pdus src (Suc k) nn num_pdus leftover block use_gsm7 sender ts ref_num =
     (let skip = (if leftover > 0 \<and> nn = num_pdus - 1 then leftover else block);
          src_next = utf8_skip_gsm7 src skip
      in Option.bind (smspdu_create_deliver (take (length src - length src_next) src) use_gsm7 sender ts
           ref_num num_pdus nn) (\<lambda>p.
         map_option (Cons p)
           (create_pdus src_next k (nn + 1) num_pdus leftover block use_gsm7 sender ts ref_num)))"

text \<open>The result with the static \<open>ref_num\<close> counter after the call.\<close>

definition smspdu_create_deliver_utf8 ::
  "byte list \<Rightarrow> sms_address \<Rightarrow> byte list \<Rightarrow> byte \<Rightarrow> (sms_pdu list \<times> byte) option" where
  "smspdu_create_deliver_utf8 utf8 sender ts ref_num =
     (let use_gsm7 = utf8_check_gsm7 utf8;
          (count, block) = (if use_gsm7 then (utf8_to_gsm7_count utf8, 154)
                            else (int (length (utf8_to_ucs2 utf8)) div 2, 134));
          num_pdus = count div block;
          leftover = count - num_pdus * block;
          num_pdus = (if leftover > 0 then num_pdus + 1 else num_pdus)
      in map_option (\<lambda>ps. (ps, ref_num + 1))
           (create_pdus utf8 (nat num_pdus) 0 num_pdus leftover block use_gsm7 sender ts (uint ref_num)))"

definition smspdu_create_from_hex :: "byte list \<Rightarrow> sms_pdu option option" where
  "smspdu_create_from_hex hex =
     map_option (\<lambda>(n, bs).
       if n < 0 then None
       else (let (r, data) = sms_skip_sc_address bs
             in if r < 0 then None else Some \<lparr>pdu_base = bs, pdu_tpdu = length bs - length data\<rparr>))
       (gsm_hex_to_bytes hex (length hex))"

definition smspdu_to_hex :: "sms_pdu \<Rightarrow> nat \<Rightarrow> int \<times> byte list" where
  "smspdu_to_hex p hexlen =
     (let result = 2 * length (pdu_base p);
          k = min hexlen result
      in (int result, gsm_hex_from_bytes (take ((k + 1) div 2) (pdu_base p))))"

section \<open>The two passes over a rope\<close>

text \<open>A counting rope at position \<open>n\<close>, and a heap rope that holds \<open>xs\<close> and has \<open>k\<close> zero bytes left.\<close>

definition nrope :: "gsm_rope \<Rightarrow> int \<Rightarrow> gsm_rope" where
  "nrope r n = r\<lparr>rope_data := Null, rope_pos := n, rope_max := 0, rope_error := False\<rparr>"

definition hrope :: "gsm_rope \<Rightarrow> byte list \<Rightarrow> nat \<Rightarrow> gsm_rope" where
  "hrope r xs k = r\<lparr>rope_data := Heap (map Some (xs @ replicate k 0)), rope_pos := int (length xs),
     rope_max := int (length xs + k), rope_error := False\<rparr>"

lemma nrope_alloc: "0 < n \<Longrightarrow> gsm_rope_init_alloc (nrope r (int n)) (int n) = hrope r [] n"
  by (simp add: gsm_rope_init_alloc_def nrope_def hrope_def Let_def)

lemma nrope_add: "gsm_rope_add (nrope r n) bs = Some (nrope r (n + int (length bs)))"
  by (simp add: gsm_rope_add_def gsm_rope_can_grow_def nrope_def)

lemma hrope_store:
  "rope_store (hrope r xs (length bs + k)) (int (length xs)) bs =
     Some (r\<lparr>rope_data := Heap (map Some ((xs @ bs) @ replicate k 0)), rope_pos := int (length xs),
       rope_max := int (length xs + (length bs + k)), rope_error := False\<rparr>)"
  by (simp add: rope_store_def hrope_def rope_bytes_def memcpy_def nat_add_distrib replicate_add)

lemma hrope_add: "gsm_rope_add (hrope r xs (length bs + k)) bs = Some (hrope r (xs @ bs) k)"
proof -
  let ?h = "hrope r xs (length bs + k)"
  have "gsm_rope_can_grow ?h (int (length bs)) = (True, ?h)" and "rope_pos ?h = int (length xs)"
    by (simp_all add: gsm_rope_can_grow_def hrope_def)
  then show ?thesis
    unfolding gsm_rope_add_def using hrope_store [of r xs bs k] by (simp add: hrope_def add.assoc)
qed

lemma nrope_add_cs: "add_cs (nrope r n) cs = Some (nrope r (n + int (length cs)))"
  by (induction cs arbitrary: n) (simp_all add: rope_add_c_eq nrope_add add.assoc)

lemma hrope_add_cs: "add_cs (hrope r xs (length cs + k)) cs = Some (hrope r (xs @ cs) k)"
proof (induction cs arbitrary: xs)
  case (Cons c cs)
  have "gsm_rope_add_c (hrope r xs (length (c # cs) + k)) c = Some (hrope r (xs @ [c]) (length cs + k))"
    using hrope_add [of r xs "[c]" "length cs + k"] by (simp add: rope_add_c_eq)
  then show ?case using Cons.IH [of "xs @ [c]"] by simp
qed simp

text \<open>The bytes of an address in a PDU: the last digit pair of an odd number is filled with ones.\<close>

definition addr_bytes :: "sms_address \<Rightarrow> byte list" where
  "addr_bytes a =
     (let ds = take ((unat (addr_len a) + 1) div 2) (addr_data a)
      in addr_len a # toa a # (if odd (unat (addr_len a)) then butlast ds @ [last ds OR 0xf0] else ds))"

definition addr_ok :: "sms_address \<Rightarrow> bool" where
  "addr_ok a \<longleftrightarrow> (unat (addr_len a) + 1) div 2 \<le> length (addr_data a)"

lemma length_addr_bytes: "addr_ok a \<Longrightarrow> length (addr_bytes a) = 2 + (unat (addr_len a) + 1) div 2"
  by (auto simp: addr_bytes_def addr_ok_def Let_def)

lemma nrope_add_address:
  assumes "addr_ok a"
  shows "gsm_rope_add_address (nrope r n) a = Some (nrope r (n + int (length (addr_bytes a))))"
proof -
  have "rope_data (nrope r m) = Null" for m by (simp add: nrope_def)
  then show ?thesis using assms length_addr_bytes [OF assms]
    by (simp add: gsm_rope_add_address_def rope_add_c_eq nrope_add addr_ok_def min_def algebra_simps Let_def)
qed

lemma hrope_or_last: "rope_or_last (hrope r (xs @ [b]) k) m = Some (hrope r (xs @ [b OR m]) k)"
proof -
  have "rope_store (hrope r (xs @ [b]) k) (int (length xs)) [b OR m] = Some (hrope r (xs @ [b OR m]) k)"
    by (simp add: rope_store_def hrope_def rope_bytes_def memcpy_def nat_add_distrib)
  moreover have "rd (rope_bytes (hrope r (xs @ [b]) k)) (int (length xs)) = Some (Some b)"
    by (simp add: hrope_def rope_bytes_def rd_def nth_append)
  moreover have "rope_pos (hrope r (xs @ [b]) k) - 1 = int (length xs)" by (simp add: hrope_def)
  ultimately show ?thesis by (simp add: rope_or_last_def)
qed

lemma hrope_add_address:
  assumes "addr_ok a"
  shows "gsm_rope_add_address (hrope r xs (length (addr_bytes a) + k)) a = Some (hrope r (xs @ addr_bytes a) k)"
proof -
  define ds where "ds = take ((unat (addr_len a) + 1) div 2) (addr_data a)"
  have ds: "length ds = (unat (addr_len a) + 1) div 2" using assms by (simp add: ds_def addr_ok_def)
  have len: "length (addr_bytes a) + k = length [addr_len a] + (length [toa a] + (length ds + k))"
    using ds length_addr_bytes [OF assms] by simp
  let ?r = "hrope r (xs @ [addr_len a, toa a] @ ds) k"
  have adds: "gsm_rope_add_address (hrope r xs (length (addr_bytes a) + k)) a =
      (if odd (unat (addr_len a)) then rope_or_last ?r 0xf0 else Some ?r)"
    unfolding gsm_rope_add_address_def len rope_add_c_eq hrope_add Option.bind.simps ds_def [symmetric] Let_def
    using assms hrope_add [of r "xs @ [addr_len a, toa a]" ds k] by (simp add: addr_ok_def hrope_def)
  show ?thesis
  proof (cases "odd (unat (addr_len a))")
    case True
    then have "ds \<noteq> []" using ds by auto
    then have "xs @ [addr_len a, toa a] @ ds = (xs @ [addr_len a, toa a] @ butlast ds) @ [last ds]" by simp
    then show ?thesis using True adds hrope_or_last [of r "xs @ [addr_len a, toa a] @ butlast ds" "last ds" k]
      by (simp add: addr_bytes_def ds_def Let_def)
  qed (use adds in \<open>simp add: addr_bytes_def ds_def Let_def\<close>)
qed

lemma nrope_reserve_gsm7: "reserve_gsm7 (nrope r n) count utf8 pad = Some (nrope r (n + count))"
  by (simp add: reserve_gsm7_def gsm_rope_reserve_def gsm_rope_can_grow_def nrope_def)

lemma hrope_reserve_gsm7:
  assumes "utf8_to_gsm7 utf8 (replicate k 0) pad = Some (m, d)" "length d = k"
  shows "reserve_gsm7 (hrope r xs k) (int k) utf8 pad = Some (hrope r (xs @ d) 0)"
proof -
  let ?h = "r\<lparr>rope_data := Heap (map Some (xs @ replicate k 0)), rope_pos := int (length xs) + int k,
       rope_max := int (length xs + k), rope_error := False\<rparr>"
  have "gsm_rope_reserve (hrope r xs k) (int k) = (Some (int (length xs)), ?h)"
    by (simp add: gsm_rope_reserve_def gsm_rope_can_grow_def hrope_def)
  moreover have "drop (length xs) (rope_bytes ?h) = map Some (replicate k 0)"
    by (simp add: rope_bytes_def)
  moreover have "rope_store ?h (int (length xs)) d = Some (hrope r (xs @ d) 0)"
    using assms(2) by (simp add: rope_store_def rope_bytes_def memcpy_def nat_add_distrib hrope_def)
  ultimately show ?thesis using assms(1) by (simp add: reserve_gsm7_def Let_def comp_def)
qed

text \<open>The layout of a GSM-alphabet SMS-DELIVER PDU before the packed text.\<close>

definition deliver_head :: "sms_address \<Rightarrow> byte list \<Rightarrow> int \<Rightarrow> int \<Rightarrow> int \<Rightarrow> int \<Rightarrow> byte list" where
  "deliver_head a ts count ref cnt idx =
     [0, if cnt > 1 then 0x60 else 0x20] @ addr_bytes a @ [0, 0] @ take 7 ts @
     (if cnt > 1 then [to_byte (count + 7), 5, 0, 3, to_byte ref, to_byte cnt, to_byte idx + 1]
      else [to_byte count])"

abbreviation deliver_pad :: "int \<Rightarrow> int" where
  "deliver_pad cnt \<equiv> (if cnt > 1 then 1 else 0)"

lemma nrope_deliver:
  assumes "addr_ok a" "utf8_to_gsm7_count utf8 \<le> 154"
  shows "gsm_rope_add_sms_deliver_pdu (nrope r 0) utf8 True a ts ref cnt idx =
    Some (nrope r (int (length (deliver_head a ts (utf8_to_gsm7_count utf8) ref cnt idx)) +
       (utf8_to_gsm7_count utf8 * 7 + deliver_pad cnt + 7) div 8))"
  using assms
  by (simp add: gsm_rope_add_sms_deliver_pdu_def gsm_rope_add_timestamp_def gsm_rope_add_sms_user_header_def
      nrope_add_cs nrope_add nrope_add_address nrope_reserve_gsm7 deliver_head_def Let_def add.assoc
      del: add_cs.simps)

lemma hrope_add_cs': "n = length cs + k \<Longrightarrow> add_cs (hrope r xs n) cs = Some (hrope r (xs @ cs) k)"
  by (simp add: hrope_add_cs del: add_cs.simps)

lemma hrope_deliver:
  assumes a: "addr_ok a" and c: "utf8_to_gsm7_count utf8 \<le> 154"
    and k: "int k = (utf8_to_gsm7_count utf8 * 7 + deliver_pad cnt + 7) div 8"
    and d: "utf8_to_gsm7 utf8 (replicate k 0) (deliver_pad cnt) = Some (m, d)" "length d = k"
  shows "gsm_rope_add_sms_deliver_pdu
      (hrope r [] (length (deliver_head a ts (utf8_to_gsm7_count utf8) ref cnt idx) + k)) utf8 True a ts ref cnt idx =
    Some (hrope r (deliver_head a ts (utf8_to_gsm7_count utf8) ref cnt idx @ d) 0)"
proof -
  let ?c = "utf8_to_gsm7_count utf8"
  define tl3 where "tl3 = (if cnt > 1 then [to_byte (?c + 7), 5, 0, 3, to_byte ref, to_byte cnt, to_byte idx + 1]
      else [to_byte ?c])"
  define h0 where "h0 = [0, if cnt > 1 then 0x60 else 0x20 :: byte]"
  have head: "deliver_head a ts ?c ref cnt idx = h0 @ addr_bytes a @ [0, 0] @ take 7 ts @ tl3"
    by (simp add: deliver_head_def tl3_def h0_def)
  have s1: "add_cs (hrope r [] (length (deliver_head a ts ?c ref cnt idx) + k)) h0 =
      Some (hrope r h0 (length (addr_bytes a) + (2 + (length (take 7 ts) + (length tl3 + k)))))"
    by (subst hrope_add_cs' [where k = "length (addr_bytes a) + (2 + (length (take 7 ts) + (length tl3 + k)))"])
      (simp_all add: head)
  have s2: "gsm_rope_add_address (hrope r h0 (length (addr_bytes a) + (2 + (length (take 7 ts) + (length tl3 + k))))) a =
      Some (hrope r (h0 @ addr_bytes a) (2 + (length (take 7 ts) + (length tl3 + k))))"
    by (rule hrope_add_address [OF a])
  have s3: "add_cs (hrope r (h0 @ addr_bytes a) (2 + (length (take 7 ts) + (length tl3 + k)))) [0, 0] =
      Some (hrope r ((h0 @ addr_bytes a) @ [0, 0]) (length (take 7 ts) + (length tl3 + k)))"
    by (rule hrope_add_cs') simp
  have s4: "gsm_rope_add_timestamp (hrope r ((h0 @ addr_bytes a) @ [0, 0]) (length (take 7 ts) + (length tl3 + k))) ts =
      Some (hrope r (((h0 @ addr_bytes a) @ [0, 0]) @ take 7 ts) (length tl3 + k))"
    unfolding gsm_rope_add_timestamp_def by (rule hrope_add)
  let ?xs = "((h0 @ addr_bytes a) @ [0, 0]) @ take 7 ts"
  have s5: "(if cnt > 1 then
        Option.bind (add_cs (hrope r ?xs (length tl3 + k)) [to_byte (?c + 7)]) (\<lambda>rope.
        Option.bind (gsm_rope_add_sms_user_header rope ref cnt idx) (\<lambda>rope.
          reserve_gsm7 rope ((?c * 7 + 1 + 7) div 8) utf8 1))
      else Option.bind (add_cs (hrope r ?xs (length tl3 + k)) [to_byte ?c]) (\<lambda>rope.
          reserve_gsm7 rope ((?c * 7 + 0 + 7) div 8) utf8 0)) = Some (hrope r ((?xs @ tl3) @ d) 0)"
  proof (cases "cnt > 1")
    case True
    have "add_cs (hrope r ?xs (length tl3 + k)) [to_byte (?c + 7)] = Some (hrope r (?xs @ [to_byte (?c + 7)]) (6 + k))"
      using True by (intro hrope_add_cs') (simp add: tl3_def)
    moreover have "gsm_rope_add_sms_user_header (hrope r (?xs @ [to_byte (?c + 7)]) (6 + k)) ref cnt idx =
        Some (hrope r ((?xs @ [to_byte (?c + 7)]) @ [5, 0, 3, to_byte ref, to_byte cnt, to_byte idx + 1]) k)"
      unfolding gsm_rope_add_sms_user_header_def by (rule hrope_add_cs') simp
    ultimately show ?thesis
      using True k hrope_reserve_gsm7 [of utf8 k 1 m d r "?xs @ tl3"] d by (simp add: tl3_def del: add_cs.simps)
  next
    case False
    have "add_cs (hrope r ?xs (length tl3 + k)) [to_byte ?c] = Some (hrope r (?xs @ tl3) k)"
      using False by (subst hrope_add_cs' [where k = k]) (simp_all add: tl3_def)
    then show ?thesis
      using False k hrope_reserve_gsm7 [of utf8 k 0 m d r "?xs @ tl3"] d by (simp del: add_cs.simps)
  qed
  show ?thesis
    unfolding gsm_rope_add_sms_deliver_pdu_def h0_def [symmetric] s1 s2 Option.bind.simps if_True s3 s4 Let_def
    using c s5 by (simp add: head del: add_cs.simps)
qed

lemma basic_count:
  assumes "\<forall>c \<in> set cs. unichar_to_gsm7 c \<ge> 0"
  shows "utf8_to_gsm7_count (concat (map utf8_write cs)) = int (length cs)"
proof -
  have "list_all unichar cs" using assms gsm7_unichar by (auto simp: list_all_iff)
  then have "utf8_to_gsm7_count (concat (map utf8_write cs)) =
      sum_list (map (\<lambda>c. let len = unichar_to_gsm7_count c in if len = 0 then 1 else len) cs)"
    using utf8_chars_concat by (simp add: utf8_to_gsm7_count_def)
  also have "\<dots> = int (length cs)"
    using assms by (induction cs) (simp_all add: unichar_to_gsm7_count_def)
  finally show ?thesis .
qed

lemma bwriter_add7_length: "bwriter_add7 w v = Some w' \<Longrightarrow> length (bw_dst w') = length (bw_dst w)"
  by (auto simp: bwriter_add7_def wr_eq_Some_iff Let_def split: if_splits)

lemma bwriter_add_all_length: "bwriter_add_all w vs = Some w' \<Longrightarrow> length (bw_dst w') = length (bw_dst w)"
  by (induction w vs rule: bwriter_add_all.induct) (auto simp: bind_eq_Some_conv dest: bwriter_add7_length)

lemma utf8_to_gsm7_length: "utf8_to_gsm7 utf8 dst start = Some (m, d) \<Longrightarrow> length d = length dst"
  by (auto simp: utf8_to_gsm7_def write_gsm7_def bind_eq_Some_conv bwriter_done_def wr_eq_Some_iff
      bwriter_init_def Let_def dest!: bwriter_add_all_length split: if_splits)

lemma user_ref_stuck:
  assumes "user_ref_loop data len = Some y"
  shows "(\<exists>t rest. data = t # 0 # rest) \<longrightarrow> len < 2"
proof (rule user_ref_loop.raw_induct [OF _ assms])
  fix f :: "byte list \<Rightarrow> int \<Rightarrow> byte list option option" and data len y
  assume ih: "\<And>data len y. f data len = Some y \<Longrightarrow> (\<exists>t rest. data = t # 0 # rest) \<longrightarrow> len < 2"
    and st: "(if len \<ge> 2 \<and> length data \<ge> 2 then
        (let htype = uint (data ! 0); hlen = uint (data ! 1)
         in if htype = 0 \<and> hlen = 3 \<and> length data \<ge> 5 then Some (Some (drop 2 data))
            else f (drop (nat hlen) data) (len - (hlen - 2)))
      else Some None) = Some y"
  show "(\<exists>t rest. data = t # 0 # rest) \<longrightarrow> len < 2"
  proof (intro impI, elim exE)
    fix t rest assume d: "data = t # 0 # rest"
    show "len < 2"
    proof (rule ccontr)
      assume "\<not> len < 2"
      then have "f data (len + 2) = Some y" using st d by simp
      from ih [OF this] d \<open>\<not> len < 2\<close> show False by auto
    qed
  qed
qed

section \<open>Properties\<close>

lemma create_deliver_layout:
  assumes basic: "\<forall>c \<in> set cs. unichar_to_gsm7 c \<ge> 0 \<and> c \<noteq> 0" and len: "length cs \<le> 154" and a: "addr_ok a"
    and utf8: "utf8 = concat (map utf8_write cs)" and pad: "pad = (if cnt > 1 then 1 else 0)"
  shows "\<exists>d. smspdu_create_deliver utf8 True a ts ref cnt idx =
      Some \<lparr>pdu_base = deliver_head a ts (int (length cs)) ref cnt idx @ d, pdu_tpdu = 1\<rparr> \<and>
    length d = (7 * length cs + nat pad + 7) div 8 \<and> utf8_from_gsm7 d pad (int (length cs)) = Some utf8"
proof -
  let ?h = "deliver_head a ts (int (length cs)) ref cnt idx"
  have cnt: "utf8_to_gsm7_count utf8 = int (length cs)" using basic basic_count utf8 by simp
  define k where "k = (7 * length cs + nat pad + 7) div 8"
  have k: "int k = (utf8_to_gsm7_count utf8 * 7 + deliver_pad cnt + 7) div 8"
    by (simp add: k_def cnt pad zdiv_int algebra_simps)
  have "nat pad + 7 * length cs \<le> 8 * length (replicate k (0::byte))" by (simp add: k_def)
  moreover have "0 \<le> pad" by (simp add: pad)
  ultimately obtain d where d: "utf8_to_gsm7 utf8 (replicate k 0) pad = Some (pad + 7 * int (length cs), d)"
      "utf8_from_gsm7 d pad (int (length cs)) = Some utf8"
    using gsm7_pack_unpack [OF basic _ _ utf8] by blast
  have ld: "length d = k" using utf8_to_gsm7_length [OF d(1)] by simp
  have p1: "gsm_rope_add_sms_deliver_pdu (gsm_rope_init stack_rope) utf8 True a ts ref cnt idx =
      Some (nrope stack_rope (int (length ?h) + int k))"
    using nrope_deliver [OF a, of utf8 stack_rope ts ref cnt idx] len cnt k
    by (simp add: nrope_def gsm_rope_init_def)
  have init: "gsm_rope_init_alloc (nrope stack_rope (int (length ?h) + int k)) (int (length ?h) + int k) =
      hrope stack_rope [] (length ?h + k)"
  proof -
    have "0 < length ?h + k" by (simp add: deliver_head_def)
    from nrope_alloc [OF this, of stack_rope] show ?thesis by (simp only: of_nat_add)
  qed
  have p2: "gsm_rope_add_sms_deliver_pdu (hrope stack_rope [] (length ?h + k)) utf8 True a ts ref cnt idx =
      Some (hrope stack_rope (?h @ d) 0)"
    using hrope_deliver [OF a _ k, of _ d stack_rope ts ref idx] len cnt d(1) pad ld by simp
  have "gsm_rope_done_acquire (hrope stack_rope (?h @ d) 0) = (Some (map Some (?h @ d)), int (length (?h @ d)))"
    by (simp add: gsm_rope_done_acquire_def hrope_def)
  moreover have "rope_pos (nrope stack_rope (int (length ?h) + int k)) = int (length ?h) + int k"
    by (simp add: nrope_def)
  ultimately have "smspdu_create_deliver utf8 True a ts ref cnt idx = Some \<lparr>pdu_base = ?h @ d, pdu_tpdu = 1\<rparr>"
    unfolding smspdu_create_deliver_def p1 Option.bind.simps by (simp add: init p2 comp_def)
  then show ?thesis using d(2) ld k_def by blast
qed

text \<open>
  Remark (functional). Creating an SMS-DELIVER PDU for a text of up to 154 characters of the
  basic alphabet: the counting pass sizes the buffer exactly, the PDU is the header fields of the
  layout followed by the packed text, and unpacking that part at the fill bit gives the text back.
\<close>

theorem deliver_pdu_layout:
  assumes basic: "\<forall>c \<in> set cs. unichar_to_gsm7 c \<ge> 0 \<and> c \<noteq> 0" and len: "length cs \<le> 154" and a: "addr_ok a"
    and utf8: "utf8 = concat (map utf8_write cs)" and pad: "pad = (if cnt > 1 then 1 else 0)"
  shows "\<exists>d. smspdu_create_deliver utf8 True a ts ref cnt idx =
      Some \<lparr>pdu_base = deliver_head a ts (int (length cs)) ref cnt idx @ d, pdu_tpdu = 1\<rparr> \<and>
    length d = (7 * length cs + nat pad + 7) div 8 \<and> utf8_from_gsm7 d pad (int (length cs)) = Some utf8"
  using assms by (rule create_deliver_layout)

theorem deliver_pdu_layout_witness:
  "\<exists>d. smspdu_create_deliver [0x68, 0x69] True \<lparr>addr_len = 2, toa = 0x81, addr_data = [0x21]\<rparr>
       [0x90, 1, 1, 1, 1, 1, 0] 0 1 0 =
     Some \<lparr>pdu_base = [0, 0x20, 2, 0x81, 0x21, 0, 0, 0x90, 1, 1, 1, 1, 1, 0, 2] @ d, pdu_tpdu = 1\<rparr> \<and>
     utf8_from_gsm7 d 0 2 = Some [0x68, 0x69]"
proof -
  have u: "[0x68, 0x69] = concat (map utf8_write [0x68, 0x69])" by (simp add: utf8_write_def)
  have b: "\<forall>c \<in> set [0x68, 0x69]. unichar_to_gsm7 c \<ge> 0 \<and> c \<noteq> 0"
    by (simp add: unichar_to_gsm7_def gsm7bits_to_unicode_def)
  have a: "addr_ok \<lparr>addr_len = 2, toa = 0x81, addr_data = [0x21]\<rparr>" by (simp add: addr_ok_def)
  show ?thesis
    using deliver_pdu_layout [OF b _ a u, of 0 1 "[0x90, 1, 1, 1, 1, 1, 0]" 0 0]
    by (auto simp: deliver_head_def addr_bytes_def)
qed

lemma hex_of_pdu:
  assumes "sms_skip_sc_address (pdu_base p) = (0, tpdu p)" and "pdu_tpdu p \<le> length (pdu_base p)"
    and "2 * length (pdu_base p) \<le> hexlen"
  shows "smspdu_create_from_hex (snd (smspdu_to_hex p hexlen)) = Some (Some p)"
proof -
  have hex: "snd (smspdu_to_hex p hexlen) = gsm_hex_from_bytes (pdu_base p)"
    using assms(3) by (simp add: smspdu_to_hex_def min_def Let_def)
  have "gsm_hex_to_bytes (gsm_hex_from_bytes (pdu_base p)) (length (gsm_hex_from_bytes (pdu_base p))) =
      Some (int (length (pdu_base p)), pdu_base p)"
    using hex_to_bytes_loop_append [of "pdu_base p" "[]"] by (simp add: gsm_hex_to_bytes_def)
  then show ?thesis using assms(1,2) by (simp add: smspdu_create_from_hex_def hex tpdu_def)
qed

text \<open>
  Remark (roundtrip). A PDU written in hexadecimal and read back is the same PDU, its TPDU found
  after the service centre address.
\<close>

theorem pdu_hex_roundtrip:
  assumes "sms_skip_sc_address (pdu_base p) = (0, tpdu p)" and "pdu_tpdu p \<le> length (pdu_base p)"
    and "2 * length (pdu_base p) \<le> hexlen"
  shows "smspdu_create_from_hex (snd (smspdu_to_hex p hexlen)) = Some (Some p)"
  using assms by (rule hex_of_pdu)

theorem pdu_hex_roundtrip_witness:
  "smspdu_create_from_hex (snd (smspdu_to_hex \<lparr>pdu_base = [0, 0x20, 0x41], pdu_tpdu = 1\<rparr> 6)) =
     Some (Some \<lparr>pdu_base = [0, 0x20, 0x41], pdu_tpdu = 1\<rparr>)"
  using pdu_hex_roundtrip [of "\<lparr>pdu_base = [0, 0x20, 0x41], pdu_tpdu = 1\<rparr>" 6] by (simp add: tpdu_def)

text \<open>
  Remark (error). The text of an SMS-DELIVER PDU can never be extracted: the rope is used without
  being initialised, so the function either fails with -1 or has undefined behaviour.
\<close>

theorem deliver_text_undefined:
  assumes "smspdu_get_type p = SMS_PDU_DELIVER"
  shows "smspdu_get_text_message p utf8len \<in> {None, Some (-1, [])}"
proof -
  have "uint b AND 3 = 0" if "sms_get_byte (tpdu p) = (uint b, data)" for b :: byte and data
    using assms that by (auto simp: smspdu_get_type_def split: if_splits)
  moreover obtain mti data where m: "sms_get_byte (tpdu p) = (mti, data)" by fastforce
  ultimately have z: "mti AND 3 = 0" using assms by (auto simp: smspdu_get_type_def split: if_splits)
  show ?thesis
    unfolding smspdu_get_text_message_def m Let_def prod.case z
    by (cases "sms_get_sc_address data \<lparr>addr_len = 0, toa = 0, addr_data = replicate 16 0\<rparr>")
      (auto split: prod.splits option.splits)
qed

theorem deliver_text_undefined_witness:
  "smspdu_get_text_message \<lparr>pdu_base = [0, 0x20], pdu_tpdu = 1\<rparr> 10 \<in> {None, Some (-1, [])}"
  by (rule deliver_text_undefined) (simp add: smspdu_get_type_def tpdu_def)

text \<open>
  Remark (termination). The search for the message reference does not end on a header element
  of length zero: the cursor stays where it is while the remaining length grows by two.
\<close>

theorem user_ref_never_returns:
  assumes "len \<ge> 2"
  shows "user_ref_loop (t # 0 # rest) len = None"
  using user_ref_stuck [of "t # 0 # rest" len] assms by (cases "user_ref_loop (t # 0 # rest) len") fastforce+

theorem user_ref_never_returns_witness: "user_ref_loop [1, 0, 0] 5 = None"
  by (rule user_ref_never_returns) simp

end
