(* ===== verification/Sms_Receiver.thy ===== *)
theory Sms_Receiver
  imports Sms_Pdu
begin

unbundle bit_operations_syntax

text \<open>
  The last part of \<open>telephony/sms.c\<close>: the receiver that collects the SMS-SUBMIT PDUs of a message and
  turns a complete message into SMS-DELIVER PDUs.

  The linked list of fragments is a list in order; \<open>None\<close> is an access outside an array or a PDU on
  which \<open>smspdu_get_user_data_ref\<close> does not return. Allocation succeeds; freed PDUs are dropped.
\<close>

section \<open>State and operations\<close>

record sms_fragment =
  fr_from :: sms_address
  fr_ref :: byte
  fr_max :: byte
  fr_count :: byte
  fr_index :: int
  fr_pdus :: "sms_pdu option list"

record sms_receiver =
  rc_last :: int
  rc_fragments :: "sms_fragment list"

definition sms_receiver_create :: sms_receiver where
  "sms_receiver_create = \<lparr>rc_last = 0, rc_fragments = []\<rparr>"

definition sms_receiver_destroy :: "sms_receiver \<Rightarrow> sms_receiver" where
  "sms_receiver_destroy r = r\<lparr>rc_fragments := []\<rparr>"

definition sms_fragment_alloc :: "sms_receiver \<Rightarrow> sms_address \<Rightarrow> int \<Rightarrow> int \<Rightarrow> sms_fragment \<times> sms_receiver" where
  "sms_fragment_alloc r sender ref mx =
     (let r = r\<lparr>rc_last := rc_last r + 1\<rparr>
      in (\<lparr>fr_from = sender, fr_ref = to_byte ref, fr_max = to_byte mx, fr_count = 0, fr_index = rc_last r,
           fr_pdus = replicate (nat mx) None\<rparr>, r))"

text \<open>The position of the first fragment with this sender and reference; the end of the list if none.\<close>

fun find_p :: "sms_fragment list \<Rightarrow> sms_address \<Rightarrow> int \<Rightarrow> nat option" where
  "find_p [] sender ref = Some 0"
| "find_p (f # fs) sender ref =
     (if uint (fr_ref f) = ref then
        Option.bind (sms_address_eq (fr_from f) sender) (\<lambda>eq.
          if eq then Some 0 else map_option Suc (find_p fs sender ref))
      else map_option Suc (find_p fs sender ref))"

definition sms_receiver_find_p :: "sms_receiver \<Rightarrow> sms_address \<Rightarrow> int \<Rightarrow> nat option" where
  "sms_receiver_find_p r sender ref = find_p (rc_fragments r) sender ref"

fun find_index_p :: "sms_fragment list \<Rightarrow> int \<Rightarrow> nat" where
  "find_index_p [] index = 0"
| "find_index_p (f # fs) index = (if fr_index f = index then 0 else Suc (find_index_p fs index))"

definition sms_receiver_find_index_p :: "sms_receiver \<Rightarrow> int \<Rightarrow> nat" where
  "sms_receiver_find_index_p r index = find_index_p (rc_fragments r) index"

definition zero_address :: sms_address where
  "zero_address = \<lparr>addr_len = 0, toa = 0, addr_data = replicate 16 0\<rparr>"

text \<open>The part of \<open>sms_receiver_add_submit_pdu\<close> after the fragment at position \<open>i\<close> is there.\<close>

definition add_to_fragment :: "sms_receiver \<Rightarrow> nat \<Rightarrow> sms_pdu \<Rightarrow> int \<Rightarrow> (int \<times> sms_receiver) option" where
  "add_to_fragment r i p mx =
     Option.bind (smspdu_get_cur_index p) (\<lambda>cur.
       if cur < 0 then Some (-1, r)
       else if cur \<ge> mx then Some (-1, r)
       else
         (let frag = rc_fragments r ! i
          in Option.bind (rd (fr_pdus frag) cur) (\<lambda>old.
               let frag = (if old \<noteq> None then frag\<lparr>fr_count := fr_count frag - 1\<rparr> else frag);
                   frag = frag\<lparr>fr_pdus := (fr_pdus frag)[nat cur := Some p], fr_count := fr_count frag + 1\<rparr>;
                   r = r\<lparr>rc_fragments := (rc_fragments r)[i := frag]\<rparr>
               in Some (if fr_count frag \<ge> fr_max frag then fr_index frag else 0, r))))"

definition sms_receiver_add_submit_pdu :: "sms_receiver \<Rightarrow> sms_pdu \<Rightarrow> (int \<times> sms_receiver) option" where
  "sms_receiver_add_submit_pdu r p =
     Option.bind (smspdu_get_receiver_address p zero_address) (\<lambda>(res, sender).
       if res < 0 then Some (-1, r)
       else
         Option.bind (smspdu_get_ref p) (\<lambda>ref.
           if ref < 0 then Some (-1, r)
           else
             Option.bind (smspdu_get_max_index p) (\<lambda>mx.
               if mx < 0 then Some (-1, r)
               else
                 Option.bind (sms_receiver_find_p r sender ref) (\<lambda>i.
                   let r = (if i = length (rc_fragments r)
                            then (let (frag, r) = sms_fragment_alloc r sender ref mx
                                  in r\<lparr>rc_fragments := rc_fragments r @ [frag]\<rparr>)
                            else r)
                   in add_to_fragment r i p mx))))"

text \<open>
  The text of the fragments, one after the other: \<open>text_total\<close> is the count with a \<open>NULL\<close>
  destination, \<open>text_fill\<close> stores each piece at the running total, as the loops of
  \<open>sms_receiver_get_text_message\<close> and \<open>sms_receiver_create_deliver\<close> do.
\<close>

fun text_total :: "sms_pdu option list \<Rightarrow> int \<Rightarrow> int option" where
  "text_total [] tot = Some tot"
| "text_total (None # ps) tot = None"
| "text_total (Some p # ps) tot =
     Option.bind (smspdu_get_text_message p 0) (\<lambda>(partial, bs). text_total ps (tot + partial))"

fun text_fill :: "sms_pdu option list \<Rightarrow> int \<Rightarrow> int \<Rightarrow> byte option list \<Rightarrow> (int \<times> byte option list) option" where
  "text_fill [] utf8len tot utf8 = Some (tot, utf8)"
| "text_fill (None # ps) utf8len tot utf8 = None"
| "text_fill (Some p # ps) utf8len tot utf8 =
     Option.bind (smspdu_get_text_message p (nat (utf8len - tot))) (\<lambda>(partial, bs).
       Option.bind (memcpy utf8 tot (map Some bs) (int (length bs))) (\<lambda>utf8.
         text_fill ps utf8len (tot + partial) utf8))"

definition sms_receiver_get_text_message ::
  "sms_receiver \<Rightarrow> int \<Rightarrow> byte option list option \<Rightarrow> (int \<times> byte option list) option" where
  "sms_receiver_get_text_message r index utf8 =
     (let i = sms_receiver_find_index_p r index
      in if i = length (rc_fragments r) then Some (-1, [])
         else
           (let frag = rc_fragments r ! i
            in if fr_count frag \<noteq> fr_max frag then Some (-1, [])
               else (case utf8 of
                       None \<Rightarrow> map_option (\<lambda>t. (t, [])) (text_total (fr_pdus frag) 0)
                     | Some dst \<Rightarrow> text_fill (fr_pdus frag) (int (length dst)) 0 dst)))"

definition sms_receiver_remove :: "sms_receiver \<Rightarrow> int \<Rightarrow> sms_receiver" where
  "sms_receiver_remove r index =
     (let i = sms_receiver_find_index_p r index
      in r\<lparr>rc_fragments := take i (rc_fragments r) @ drop (Suc i) (rc_fragments r)\<rparr>)"

text \<open>
  \<open>sms_receiver_create_deliver\<close>: the PDUs (or \<open>None\<close> for \<open>NULL\<close>), the receiver and the reference
  counter after it; \<open>now\<close> is the timestamp.
\<close>

definition sms_receiver_create_deliver ::
  "sms_receiver \<Rightarrow> int \<Rightarrow> sms_address \<Rightarrow> byte list \<Rightarrow> byte \<Rightarrow>
   (sms_pdu list option \<times> sms_receiver \<times> byte) option" where
  "sms_receiver_create_deliver r index sender now ref_num =
     (let i = sms_receiver_find_index_p r index
      in if i = length (rc_fragments r) then Some (None, r, ref_num)
         else
           (let frag = rc_fragments r ! i
            in if fr_count frag \<noteq> fr_max frag then Some (None, r, ref_num)
               else
                 Option.bind (sms_receiver_get_text_message r index None) (\<lambda>(utf8len, _).
                   if utf8len < 0 then Some (None, sms_receiver_remove r index, ref_num)
                   else
                     Option.bind (text_fill (fr_pdus frag) utf8len 0 (replicate (nat utf8len + 1) None))
                       (\<lambda>(tot, utf8).
                       let cells = take (nat utf8len) utf8
                       in if \<forall>x \<in> set cells. x \<noteq> None then
                            map_option (\<lambda>(ps, ref). (Some ps, sms_receiver_remove r index, ref))
                              (smspdu_create_deliver_utf8 (map the cells) sender now ref_num)
                          else None))))"

section \<open>Invariant\<close>

text \<open>
  Every fragment has one slot per PDU and counts its filled slots; indices are positive, distinct and
  at most \<open>last\<close>.
\<close>

definition filled :: "sms_pdu option list \<Rightarrow> nat" where
  "filled ps = length (filter (\<lambda>x. x \<noteq> None) ps)"

definition fragment_wf :: "sms_fragment \<Rightarrow> bool" where
  "fragment_wf f \<longleftrightarrow> length (fr_pdus f) = unat (fr_max f) \<and> unat (fr_count f) = filled (fr_pdus f)"

definition receiver_wf :: "sms_receiver \<Rightarrow> bool" where
  "receiver_wf r \<longleftrightarrow> 0 \<le> rc_last r \<and> (\<forall>f \<in> set (rc_fragments r). fragment_wf f \<and> 0 < fr_index f \<and> fr_index f \<le> rc_last r) \<and>
     distinct (map fr_index (rc_fragments r))"

lemma filled_le: "filled ps \<le> length ps"
  by (simp add: filled_def)

lemma filled_all: "filled ps = length ps \<longleftrightarrow> (\<forall>x \<in> set ps. x \<noteq> None)"
proof (induction ps)
  case (Cons x xs)
  then show ?case
  proof (cases x)
    case None
    have "filled (x # xs) = filled xs" using None by (simp add: filled_def)
    then show ?thesis using None filled_le [of xs] by simp
  qed (simp add: filled_def)
qed (simp add: filled_def)

lemma filled_upd:
  "i < length ps \<Longrightarrow> filled (ps[i := Some p]) = (if ps ! i = None then Suc (filled ps) else filled ps)"
proof (induction ps arbitrary: i)
  case (Cons x xs)
  then show ?case by (cases i) (auto simp: filled_def)
qed simp

lemma max_index_range: "smspdu_get_max_index p = Some mx \<Longrightarrow> 0 \<le> mx \<and> mx < 256"
  by (auto simp: smspdu_get_max_index_def split: option.splits)

lemma find_p_bound: "find_p fs a ref = Some i \<Longrightarrow> i \<le> length fs"
  by (induction fs a ref arbitrary: i rule: find_p.induct) (auto simp: bind_eq_Some_conv split: if_splits)

definition put_pdu :: "sms_fragment \<Rightarrow> nat \<Rightarrow> sms_pdu \<Rightarrow> sms_fragment" where
  "put_pdu f k p = f\<lparr>fr_pdus := (fr_pdus f)[k := Some p],
     fr_count := (if fr_pdus f ! k \<noteq> None then fr_count f else fr_count f + 1)\<rparr>"

lemma add_to_fragment_cases:
  assumes "add_to_fragment r i p mx = Some (res, r')"
  obtains "res = -1" "r' = r"
  | k where "k < length (fr_pdus (rc_fragments r ! i))"
      "r' = r\<lparr>rc_fragments := (rc_fragments r)[i := put_pdu (rc_fragments r ! i) k p]\<rparr>"
      "res = (if fr_count (put_pdu (rc_fragments r ! i) k p) \<ge> fr_max (rc_fragments r ! i)
              then fr_index (rc_fragments r ! i) else 0)"
proof -
  obtain cur where cur: "smspdu_get_cur_index p = Some cur"
    using assms by (cases "smspdu_get_cur_index p") (auto simp: add_to_fragment_def)
  show thesis
  proof (cases "cur < 0 \<or> cur \<ge> mx")
    case True
    then show ?thesis using assms cur that(1) by (auto simp: add_to_fragment_def split: if_splits)
  next
    case False
    let ?f = "rc_fragments r ! i"
    obtain old where old: "rd (fr_pdus ?f) cur = Some old"
      using assms cur False by (cases "rd (fr_pdus ?f) cur") (auto simp: add_to_fragment_def Let_def)
    then have k: "nat cur < length (fr_pdus ?f)" "old = fr_pdus ?f ! nat cur"
      by (auto simp: rd_eq_Some_iff nat_less_iff)
    have "add_to_fragment r i p mx = Some (if fr_count (put_pdu ?f (nat cur) p) \<ge> fr_max ?f then fr_index ?f else 0,
        r\<lparr>rc_fragments := (rc_fragments r)[i := put_pdu ?f (nat cur) p]\<rparr>)"
      using cur False old k(2) by (simp add: add_to_fragment_def put_pdu_def Let_def)
    with assms k(1) that(2) [of "nat cur"] show ?thesis by simp
  qed
qed

lemma put_pdu_wf:
  assumes f: "fragment_wf f" and k: "k < length (fr_pdus f)"
  shows "fragment_wf (put_pdu f k p)"
proof -
  have "unat (fr_count (put_pdu f k p)) = filled (fr_pdus (put_pdu f k p))"
  proof (cases "fr_pdus f ! k = None")
    case True
    have "Suc (filled (fr_pdus f)) \<le> unat (fr_max f)"
      using filled_upd [OF k, of p] filled_le [of "(fr_pdus f)[k := Some p]"] True f by (simp add: fragment_wf_def)
    then have "Suc (unat (fr_count f)) < 256"
      using f unsigned_less [of "fr_max f", where ?'a = nat] by (simp add: fragment_wf_def)
    then have "unat (fr_count f + 1) = Suc (unat (fr_count f))" by (simp add: unat_word_ariths)
    then show ?thesis using True filled_upd [OF k, of p] f by (simp add: put_pdu_def fragment_wf_def)
  next
    case False
    then show ?thesis using filled_upd [OF k, of p] f by (simp add: put_pdu_def fragment_wf_def)
  qed
  then show ?thesis using f by (simp add: put_pdu_def fragment_wf_def)
qed

lemma add_to_fragment_wf:
  assumes wf: "receiver_wf r" and i: "i < length (rc_fragments r)" and st: "add_to_fragment r i p mx = Some (res, r')"
  shows "receiver_wf r' \<and>
    (res > 0 \<longrightarrow> (\<exists>f \<in> set (rc_fragments r'). fr_index f = res \<and> (\<forall>x \<in> set (fr_pdus f). x \<noteq> None)))"
  using st
proof (cases rule: add_to_fragment_cases)
  case 1
  then show ?thesis using wf by simp
next
  case (2 k)
  let ?f = "rc_fragments r ! i" and ?fs = "rc_fragments r"
  define g where "g = put_pdu ?f k p"
  have f: "fragment_wf ?f" "0 < fr_index ?f" "fr_index ?f \<le> rc_last r" using wf i by (auto simp: receiver_wf_def)
  have g: "fragment_wf g" "fr_index g = fr_index ?f" "fr_max g = fr_max ?f"
    using put_pdu_wf [OF f(1) 2(1)] by (simp_all add: g_def put_pdu_def)
  have "map fr_index (?fs[i := g]) = map fr_index ?fs"
    using g(2) i by (simp add: map_update list_update_same_conv)
  moreover have "\<forall>h \<in> set (?fs[i := g]). fragment_wf h \<and> 0 < fr_index h \<and> fr_index h \<le> rc_last r"
    using wf g f set_update_subset_insert [of ?fs i g] by (auto simp: receiver_wf_def)
  ultimately have "receiver_wf r'" using wf 2(2) by (simp add: receiver_wf_def g_def)
  moreover have "g \<in> set (rc_fragments r')" using 2(2) i by (simp add: set_update_memI g_def)
  moreover have "\<forall>x \<in> set (fr_pdus g). x \<noteq> None" if "fr_count g \<ge> fr_max g"
    using that g(1) filled_le [of "fr_pdus g"] filled_all [of "fr_pdus g"]
    by (simp add: fragment_wf_def word_le_nat_alt)
  ultimately show ?thesis using 2(3) g f by (auto simp: g_def [symmetric] split: if_splits)
qed

lemma alloc_wf:
  assumes "receiver_wf r" "0 \<le> mx" "mx < 256" "sms_fragment_alloc r a ref mx = (frag, r1)"
  shows "receiver_wf (r1\<lparr>rc_fragments := rc_fragments r1 @ [frag]\<rparr>)"
proof -
  have fr: "frag = \<lparr>fr_from = a, fr_ref = to_byte ref, fr_max = to_byte mx, fr_count = 0, fr_index = rc_last r + 1,
       fr_pdus = replicate (nat mx) None\<rparr>" "r1 = r\<lparr>rc_last := rc_last r + 1\<rparr>"
    using assms(4) by (auto simp: sms_fragment_alloc_def Let_def)
  have "unat (to_byte mx) = nat mx" using assms(2,3) uint_to_byte_id [of mx] by (simp add: unat_eq_nat_uint)
  then have "fragment_wf frag" by (simp add: fr fragment_wf_def filled_def)
  moreover have "rc_last r + 1 \<notin> fr_index ` set (rc_fragments r)" using assms(1) by (fastforce simp: receiver_wf_def)
  ultimately show ?thesis using assms(1) by (fastforce simp: receiver_wf_def fr)
qed

lemma add_submit_wf:
  assumes wf: "receiver_wf r" and st: "sms_receiver_add_submit_pdu r p = Some (res, r')"
  shows "receiver_wf r' \<and>
    (res > 0 \<longrightarrow> (\<exists>f \<in> set (rc_fragments r'). fr_index f = res \<and> (\<forall>x \<in> set (fr_pdus f). x \<noteq> None)))"
proof (cases "res = -1 \<and> r' = r")
  case True
  then show ?thesis using wf by simp
next
  case False
  then obtain sender ref mx i where mx: "smspdu_get_max_index p = Some mx"
    and i: "find_p (rc_fragments r) sender ref = Some i"
    and add: "add_to_fragment
        (if i = length (rc_fragments r)
         then (let (frag, r) = sms_fragment_alloc r sender ref mx in r\<lparr>rc_fragments := rc_fragments r @ [frag]\<rparr>)
         else r) i p mx = Some (res, r')"
    using st by (auto simp: sms_receiver_add_submit_pdu_def bind_eq_Some_conv Let_def sms_receiver_find_p_def
        split: if_splits)
  obtain frag r1 where al: "sms_fragment_alloc r sender ref mx = (frag, r1)" by fastforce
  have r1: "rc_fragments r1 = rc_fragments r" using al by (auto simp: sms_fragment_alloc_def Let_def)
  show ?thesis
  proof (cases "i = length (rc_fragments r)")
    case True
    have "receiver_wf (r1\<lparr>rc_fragments := rc_fragments r1 @ [frag]\<rparr>)"
      using alloc_wf [OF wf _ _ al] max_index_range [OF mx] by simp
    from add_to_fragment_wf [OF this, of i p mx res r'] add True al r1 show ?thesis by simp
  next
    case False
    then have "i < length (rc_fragments r)" using find_p_bound [OF i] by simp
    from add_to_fragment_wf [OF wf this, of p mx res r'] add False show ?thesis by simp
  qed
qed

section \<open>Properties\<close>

text \<open>
  Property C37 (invariant). Whatever PDUs arrive, a call that returns keeps the receiver's invariant:
  every message has as many slots as PDUs, its counter is the number of distinct PDUs received
  (duplicates replace, the counter never wraps), and message indices are distinct. A positive result
  is the index of a message all of whose PDUs are there.
\<close>

theorem receiver_add_invariant:
  assumes wf: "receiver_wf r" and st: "sms_receiver_add_submit_pdu r p = Some (res, r')"
  shows "receiver_wf r' \<and>
    (res > 0 \<longrightarrow> (\<exists>f \<in> set (rc_fragments r'). fr_index f = res \<and> (\<forall>x \<in> set (fr_pdus f). x \<noteq> None)))"
  using assms by (rule add_submit_wf)

text \<open>
  A SUBMIT PDU as the accessors read it: reference \<open>ref\<close>, \<open>mx\<close> PDUs, this one with one-based
  position \<open>cur\<close>, to the number "1234".
\<close>

definition submit_pdu :: "byte \<Rightarrow> byte \<Rightarrow> byte \<Rightarrow> sms_pdu" where
  "submit_pdu ref mx cur =
     \<lparr>pdu_base = [0, 0x41, 7, 4, 0x81, 0x21, 0x43, 0, 3, ref, mx, cur], pdu_tpdu = 1\<rparr>"

declare user_ref_loop.simps [code]

theorem receiver_add_invariant_witness:
  "\<exists>r' res. sms_receiver_add_submit_pdu sms_receiver_create (submit_pdu 5 1 1) = Some (res, r') \<and> res = 1 \<and>
     receiver_wf r'"
proof -
  have "map_option fst (sms_receiver_add_submit_pdu sms_receiver_create (submit_pdu 5 1 1)) = Some 1" by code_simp
  then obtain r' where r: "sms_receiver_add_submit_pdu sms_receiver_create (submit_pdu 5 1 1) = Some (1, r')" by auto
  have "receiver_wf sms_receiver_create" by (simp add: receiver_wf_def sms_receiver_create_def)
  from receiver_add_invariant [OF this r] r show ?thesis by blast
qed

text \<open>
  Remark (error). The position of a PDU is checked against the count in that PDU, not against
  the number of slots of the message: after a first PDU that announces one part, a second one of the
  same message that announces three and is the third is stored past the end of the slot array.
\<close>

theorem receiver_slot_overflow:
  "case sms_receiver_add_submit_pdu sms_receiver_create (submit_pdu 5 1 1) of
     None \<Rightarrow> False
   | Some (res, r) \<Rightarrow> res = 1 \<and> sms_receiver_add_submit_pdu r (submit_pdu 5 3 3) = None"
  by code_simp

end
