(* ===== verification/Modem_State.thy ===== *)
theory Modem_State
  imports Modem_Calls Sim_Card Sms_Receiver
begin

text \<open>
  The state of the emulated modem (\<open>telephony/android_modem.c\<close>) and the operations on it that the
  console and the AT commands use: radio power, registration, operators, packet data contexts, the
  PIN commands on the SIM card and the lists that are printed for the guest.

  A command is a C string, given by its characters; a reply points at a literal or at the
  output buffer of the modem. A failed assertion is \<open>Cpu_abort\<close>; a write past an array and the use of an
  array without terminator as a string are \<open>Undefined\<close>.
\<close>

section \<open>Formatting\<close>

text \<open>The conversions \<open>%d\<close>, \<open>%02d\<close> and \<open>%04x\<close> of \<open>printf\<close>.\<close>

definition ascii_digit :: "nat \<Rightarrow> char" where
  "ascii_digit d = (if d < 10 then char_of (48 + d) else char_of (87 + d))"

fun digits_of :: "nat \<Rightarrow> nat \<Rightarrow> string" where
  "digits_of b n = (if b < 2 \<or> n < b then [ascii_digit n] else digits_of b (n div b) @ [ascii_digit (n mod b)])"

declare digits_of.simps [simp del]

definition fmt_d :: "int \<Rightarrow> string" where
  "fmt_d i = (if i < 0 then CHR ''-'' # digits_of 10 (nat (- i)) else digits_of 10 (nat i))"

definition pad0 :: "nat \<Rightarrow> string \<Rightarrow> string" where
  "pad0 w s = replicate (w - length s) CHR ''0'' @ s"

definition fmt_02d :: "int \<Rightarrow> string" where
  "fmt_02d i = (if i < 0 then CHR ''-'' # digits_of 10 (nat (- i)) else pad0 2 (digits_of 10 (nat i)))"

definition fmt_04x :: "int \<Rightarrow> string" where
  "fmt_04x i = pad0 4 (digits_of 16 (nat (i mod 2 ^ 32)))"

definition dquote :: char where "dquote = CHR 0x22"

definition quoted :: "string \<Rightarrow> string" where
  "quoted s = dquote # s @ [dquote]"

definition cr :: char where "cr = CHR 0x0D"
definition lf :: char where "lf = CHR 0x0A"

section \<open>State\<close>

datatype radio_state = A_RADIO_STATE_OFF | A_RADIO_STATE_ON

datatype registration_mode = A_REGISTRATION_UNSOL_DISABLED | A_REGISTRATION_UNSOL_ENABLED | A_REGISTRATION_UNSOL_ENABLED_FULL

datatype registration_state = A_REGISTRATION_UNREGISTERED | A_REGISTRATION_HOME | A_REGISTRATION_SEARCHING
  | A_REGISTRATION_DENIED | A_REGISTRATION_UNKNOWN | A_REGISTRATION_ROAMING

datatype gprs_network = A_GPRS_NETWORK_UNKNOWN | A_GPRS_NETWORK_GPRS | A_GPRS_NETWORK_EDGE | A_GPRS_NETWORK_UMTS

datatype operator_selection = A_SELECTION_AUTOMATIC | A_SELECTION_MANUAL | A_SELECTION_DEREGISTRATION
  | A_SELECTION_SET_FORMAT | A_SELECTION_MANUAL_AUTOMATIC

datatype operator_status = A_STATUS_UNKNOWN | A_STATUS_AVAILABLE | A_STATUS_CURRENT | A_STATUS_DENIED

datatype data_type = A_DATA_IP | A_DATA_PPP

text \<open>The values of the enumerations, as \<open>%d\<close> prints them.\<close>

fun mode_code :: "registration_mode \<Rightarrow> int" where
  "mode_code A_REGISTRATION_UNSOL_DISABLED = 0"
| "mode_code A_REGISTRATION_UNSOL_ENABLED = 1"
| "mode_code A_REGISTRATION_UNSOL_ENABLED_FULL = 2"

fun registration_code :: "registration_state \<Rightarrow> int" where
  "registration_code A_REGISTRATION_UNREGISTERED = 0"
| "registration_code A_REGISTRATION_HOME = 1"
| "registration_code A_REGISTRATION_SEARCHING = 2"
| "registration_code A_REGISTRATION_DENIED = 3"
| "registration_code A_REGISTRATION_UNKNOWN = 4"
| "registration_code A_REGISTRATION_ROAMING = 5"

fun network_code :: "gprs_network \<Rightarrow> int" where
  "network_code A_GPRS_NETWORK_UNKNOWN = 0"
| "network_code A_GPRS_NETWORK_GPRS = 1"
| "network_code A_GPRS_NETWORK_EDGE = 2"
| "network_code A_GPRS_NETWORK_UMTS = 3"

fun selection_code :: "operator_selection \<Rightarrow> int" where
  "selection_code A_SELECTION_AUTOMATIC = 0"
| "selection_code A_SELECTION_MANUAL = 1"
| "selection_code A_SELECTION_DEREGISTRATION = 2"
| "selection_code A_SELECTION_SET_FORMAT = 3"
| "selection_code A_SELECTION_MANUAL_AUTOMATIC = 4"

fun status_code :: "operator_status \<Rightarrow> int" where
  "status_code A_STATUS_UNKNOWN = 0"
| "status_code A_STATUS_AVAILABLE = 1"
| "status_code A_STATUS_CURRENT = 2"
| "status_code A_STATUS_DENIED = 3"

fun dir_code :: "call_dir \<Rightarrow> int" where
  "dir_code A_CALL_OUTBOUND = 0"
| "dir_code A_CALL_INBOUND = 1"

fun state_code :: "call_state \<Rightarrow> int" where
  "state_code A_CALL_ACTIVE = 0"
| "state_code A_CALL_HELD = 1"
| "state_code A_CALL_DIALING = 2"
| "state_code A_CALL_ALERTING = 3"
| "state_code A_CALL_INCOMING = 4"
| "state_code A_CALL_WAITING = 5"

fun call_mode_code :: "call_mode \<Rightarrow> int" where
  "call_mode_code A_CALL_VOICE = 0"
| "call_mode_code A_CALL_DATA = 1"
| "call_mode_code A_CALL_FAX = 2"
| "call_mode_code A_CALL_UNKNOWN = 9"

text \<open>\<open>AOperatorRec\<close>: three names in arrays of 16 characters.\<close>

record operator_rec =
  oper_status :: operator_status
  oper_name :: "char list list"

record data_context =
  data_id :: int
  data_active :: bool
  data_kind :: data_type
  data_apn :: string

definition MAX_OPERATORS :: nat where "MAX_OPERATORS = 4"
definition OPER_NAME_SIZE :: nat where "OPER_NAME_SIZE = 16"
definition MAX_DATA_CONTEXTS :: nat where "MAX_DATA_CONTEXTS = 4"
definition A_DATA_APN_SIZE :: nat where "A_DATA_APN_SIZE = 32"
definition OUT_BUFF_SIZE :: nat where "OUT_BUFF_SIZE = 1024"
definition OPERATOR_HOME_INDEX :: int where "OPERATOR_HOME_INDEX = 0"
definition OPERATOR_ROAMING_INDEX :: int where "OPERATOR_ROAMING_INDEX = 1"

lemmas modem_consts = MAX_OPERATORS_def OPER_NAME_SIZE_def MAX_DATA_CONTEXTS_def A_DATA_APN_SIZE_def
  OUT_BUFF_SIZE_def OPERATOR_HOME_INDEX_def OPERATOR_ROAMING_INDEX_def

text \<open>
  \<open>AModemRec\<close>. The calls and their timers are the call table; \<open>sms_ref_num\<close> is the static counter of
  \<open>sms.c\<close>; the output buffer and its size are part of the replies.
\<close>

record modem =
  supportsNetworkDataType :: bool
  radio :: radio_state
  area_code :: int
  cell_id :: int
  base_port :: int
  wait_sms :: bool
  sim :: sim_card
  voice_mode :: registration_mode
  voice_state :: registration_state
  data_mode :: registration_mode
  data_state :: registration_state
  data_network :: gprs_network
  oper_selection_mode :: operator_selection
  oper_name_index :: int
  oper_index :: int
  oper_count :: int
  operators :: "operator_rec list"
  data_contexts :: "data_context list"
  voice :: call_table
  unsol_func :: bool
  sms_rec :: "sms_receiver option"
  sms_ref_num :: byte

datatype modem_effect = Call_effect call_effect | Remote_sms string sms_pdu

text \<open>A reply: \<open>NULL\<close>, a literal, or the contents of \<open>out_buff\<close>.\<close>

datatype reply = No_reply | Literal string | Out string

type_synonym handled = "(reply \<times> modem \<times> modem_effect list) outcome"

definition undefined_if_none :: "'a option \<Rightarrow> 'a outcome" where
  "undefined_if_none x = (case x of None \<Rightarrow> Inl Undefined | Some y \<Rightarrow> Inr y)"

text \<open>The character at a position of a C string: the terminator at its end.\<close>

definition ch :: "string \<Rightarrow> nat \<Rightarrow> char" where
  "ch s i = (if i < length s then s ! i else nul)"

definition amodem_unsol :: "modem \<Rightarrow> string \<Rightarrow> modem_effect list" where
  "amodem_unsol m s = (if unsol_func m then [Call_effect (Unsol (take (OUT_BUFF_SIZE - 1) s))] else [])"

definition amodem_printf :: "string \<Rightarrow> reply" where
  "amodem_printf s = Out (take (OUT_BUFF_SIZE - 1) s)"

text \<open>
  \<open>amodem_add_line\<close> from \<open>amodem_begin_line\<close> to \<open>amodem_end_line\<close>: a text that does not fit would move
  \<open>out_size\<close> past the end of the buffer.
\<close>

fun amodem_add_lines :: "string \<Rightarrow> string list \<Rightarrow> reply outcome" where
  "amodem_add_lines out [] = Inr (Out out)"
| "amodem_add_lines out (s # ss) =
     (if length out + length s < OUT_BUFF_SIZE then amodem_add_lines (out @ s) ss else Inl Undefined)"

definition str_array :: "nat \<Rightarrow> string \<Rightarrow> char list" where
  "str_array n s = s @ replicate (n - length s) nul"

definition set_names :: "operator_rec \<Rightarrow> string \<Rightarrow> string \<Rightarrow> operator_rec" where
  "set_names r name mccmnc =
     r\<lparr>oper_name := [str_array OPER_NAME_SIZE name, str_array OPER_NAME_SIZE name, str_array OPER_NAME_SIZE mccmnc],
       oper_status := A_STATUS_AVAILABLE\<rparr>"

definition amodem_reset :: "modem \<Rightarrow> modem" where
  "amodem_reset m =
     m\<lparr>radio := A_RADIO_STATE_OFF, wait_sms := False,
       oper_name_index := 2, oper_selection_mode := A_SELECTION_AUTOMATIC, oper_index := 0, oper_count := 2,
       area_code := -1, cell_id := -1,
       operators := (operators m)[0 := set_names (operators m ! 0) ''Android'' ''310260'',
                                  1 := set_names (operators m ! 1) ''TelKila'' ''310295''],
       voice_mode := A_REGISTRATION_UNSOL_ENABLED_FULL, voice_state := A_REGISTRATION_HOME,
       data_mode := A_REGISTRATION_UNSOL_ENABLED_FULL, data_state := A_REGISTRATION_HOME,
       data_network := A_GPRS_NETWORK_UMTS\<rparr>"

definition zero_operator :: operator_rec where
  "zero_operator = \<lparr>oper_status = A_STATUS_UNKNOWN, oper_name = replicate 3 (replicate OPER_NAME_SIZE nul)\<rparr>"

definition zero_context :: data_context where
  "zero_context = \<lparr>data_id = 0, data_active = False, data_kind = A_DATA_IP, data_apn = []\<rparr>"

text \<open>The modem in static storage, with the card that \<open>amodem_create\<close> makes.\<close>

definition android_modem0 :: "sim_card \<Rightarrow> modem" where
  "android_modem0 c =
     \<lparr>supportsNetworkDataType = False, radio = A_RADIO_STATE_OFF, area_code = 0, cell_id = 0, base_port = 0, wait_sms = False,
      sim = c, voice_mode = A_REGISTRATION_UNSOL_DISABLED, voice_state = A_REGISTRATION_UNREGISTERED,
      data_mode = A_REGISTRATION_UNSOL_DISABLED, data_state = A_REGISTRATION_UNREGISTERED,
      data_network = A_GPRS_NETWORK_UNKNOWN, oper_selection_mode = A_SELECTION_AUTOMATIC, oper_name_index = 0,
      oper_index = 0, oper_count = 0, operators = replicate MAX_OPERATORS zero_operator,
      data_contexts = replicate MAX_DATA_CONTEXTS zero_context, voice = empty_table, unsol_func = False,
      sms_rec = None, sms_ref_num = 0\<rparr>"

definition amodem_create :: "int \<Rightarrow> bool \<Rightarrow> modem option" where
  "amodem_create port unsol =
     map_option (\<lambda>c. (amodem_reset (android_modem0 c))\<lparr>supportsNetworkDataType := True, base_port := port, unsol_func := unsol\<rparr>)
       asimcard_create"

definition amodem_set_legacy :: "modem \<Rightarrow> modem" where
  "amodem_set_legacy m = m\<lparr>supportsNetworkDataType := False\<rparr>"

definition amodem_has_network :: "modem \<Rightarrow> bool" where
  "amodem_has_network m \<longleftrightarrow>
     \<not> (radio m = A_RADIO_STATE_OFF \<or> oper_index m < 0 \<or> oper_index m \<ge> oper_count m \<or>
        oper_selection_mode m = A_SELECTION_DEREGISTRATION)"

definition amodem_set_radio_state :: "modem \<Rightarrow> radio_state \<Rightarrow> modem" where
  "amodem_set_radio_state m st = m\<lparr>radio := st\<rparr>"


section \<open>Registration\<close>

definition creg_text :: "string \<Rightarrow> string \<Rightarrow> modem \<Rightarrow> string" where
  "creg_text sep tail m =
     ''+CREG: '' @ fmt_d (mode_code (voice_mode m)) @ '','' @ fmt_d (registration_code (voice_state m)) @
     sep @ quoted (fmt_04x (area_code m)) @ sep @ quoted (fmt_04x (cell_id m)) @ tail"

definition cgreg_text :: "string \<Rightarrow> modem \<Rightarrow> string" where
  "cgreg_text tail m =
     ''+CGREG: '' @ fmt_d (mode_code (data_mode m)) @ '','' @ fmt_d (registration_code (data_state m)) @
     '','' @ quoted (fmt_04x (area_code m)) @ '','' @ quoted (fmt_04x (cell_id m)) @
     (if supportsNetworkDataType m then '','' @ quoted (fmt_04x (network_code (data_network m))) else []) @ tail"

definition amodem_set_voice_registration :: "modem \<Rightarrow> registration_state \<Rightarrow> modem \<times> modem_effect list" where
  "amodem_set_voice_registration m st =
     (let m = m\<lparr>voice_state := st\<rparr>;
          m = (if st = A_REGISTRATION_HOME then m\<lparr>oper_index := OPERATOR_HOME_INDEX\<rparr>
               else if st = A_REGISTRATION_ROAMING then m\<lparr>oper_index := OPERATOR_ROAMING_INDEX\<rparr> else m)
      in (m, case voice_mode m of
               A_REGISTRATION_UNSOL_ENABLED \<Rightarrow>
                 amodem_unsol m (''+CREG: '' @ fmt_d (mode_code (voice_mode m)) @ '','' @
                   fmt_d (registration_code (voice_state m)) @ [cr])
             | A_REGISTRATION_UNSOL_ENABLED_FULL \<Rightarrow> amodem_unsol m (creg_text '', '' [cr] m)
             | _ \<Rightarrow> []))"

definition amodem_set_data_registration :: "modem \<Rightarrow> registration_state \<Rightarrow> modem \<times> modem_effect list" where
  "amodem_set_data_registration m st =
     (let m = m\<lparr>data_state := st\<rparr>
      in (m, case data_mode m of
               A_REGISTRATION_UNSOL_ENABLED \<Rightarrow>
                 amodem_unsol m (''+CGREG: '' @ fmt_d (mode_code (data_mode m)) @ '','' @
                   fmt_d (registration_code (data_state m)) @ [cr])
             | A_REGISTRATION_UNSOL_ENABLED_FULL \<Rightarrow> amodem_unsol m (cgreg_text [cr] m)
             | _ \<Rightarrow> []))"

definition amodem_set_data_network_type :: "modem \<Rightarrow> gprs_network \<Rightarrow> modem \<times> modem_effect list" where
  "amodem_set_data_network_type m type =
     (let m = m\<lparr>data_network := type\<rparr> in amodem_set_data_registration m (data_state m))"

definition android_parse_network_type :: "string \<Rightarrow> gprs_network" where
  "android_parse_network_type speed =
     (if speed = ''gprs'' then A_GPRS_NETWORK_GPRS
      else if speed = ''edge'' then A_GPRS_NETWORK_EDGE
      else if speed = ''umts'' then A_GPRS_NETWORK_UMTS
      else if speed = ''hsdpa'' then A_GPRS_NETWORK_UMTS
      else if speed = ''full'' then A_GPRS_NETWORK_UMTS
      else A_GPRS_NETWORK_GPRS)"

text \<open>The operator's name, copied into a buffer: the result and the buffer.\<close>

definition amodem_get_operator_name :: "modem \<Rightarrow> int \<Rightarrow> char list \<Rightarrow> int \<Rightarrow> (int \<times> char list) outcome" where
  "amodem_get_operator_name m index buffer buffer_size =
     (if oper_index m < 0 \<or> oper_index m \<ge> oper_count m \<or> index < 0 \<or> index > 2 then Inr (0, buffer)
      else
        (let name = oper_name (operators m ! nat (oper_index m)) ! nat index
         in undefined_if_none
              (Option.bind (cstr name) (\<lambda>s.
                 let len = int (length s) + 1;
                     buffer_size = (if buffer_size > len then len else buffer_size)
                 in if buffer_size > 0
                    then Option.bind (Emu_Prelude.memcpy buffer 0 name (buffer_size - 1)) (\<lambda>b.
                           map_option (Pair len) (wr b buffer_size nul))
                    else Some (len, buffer)))))"

definition set_oper_name :: "operator_rec \<Rightarrow> nat \<Rightarrow> char list \<Rightarrow> operator_rec" where
  "set_oper_name r i a = r\<lparr>oper_name := (oper_name r)[i := a]\<rparr>"

definition amodem_set_operator_name :: "modem \<Rightarrow> int \<Rightarrow> string \<Rightarrow> int \<Rightarrow> modem outcome" where
  "amodem_set_operator_name m index buffer buffer_size =
     (if oper_index m < 0 \<or> oper_index m \<ge> oper_count m \<or> index < 0 \<or> index > 2 then Inr m
      else
        (let i = nat (oper_index m);
             avail = int OPER_NAME_SIZE;
             buffer_size = (if buffer_size < 0 then int (length buffer) else buffer_size);
             buffer_size = (if buffer_size > avail - 1 then avail - 1 else buffer_size)
         in undefined_if_none
              (Option.bind (Emu_Prelude.memcpy (oper_name (operators m ! i) ! nat index) 0 (buffer @ [nul]) buffer_size) (\<lambda>a.
                 Option.bind (wr a buffer_size nul) (\<lambda>a.
                   Some (m\<lparr>operators := (operators m)[i := set_oper_name (operators m ! i) (nat index) a]\<rparr>))))))"

section \<open>Command handlers\<close>

definition unknownCommand :: reply where
  "unknownCommand = Literal (''ERROR: unknown command'' @ [cr])"

definition handleRadioPower :: "string \<Rightarrow> modem \<Rightarrow> handled" where
  "handleRadioPower cmd m =
     Inr (No_reply, if cmd = ''+CFUN=0'' then m\<lparr>radio := A_RADIO_STATE_OFF\<rparr>
                else if cmd = ''+CFUN=1'' then m\<lparr>radio := A_RADIO_STATE_ON\<rparr> else m, [])"

definition handleRadioPowerReq :: "modem \<Rightarrow> handled" where
  "handleRadioPowerReq m = Inr (Literal (if radio m \<noteq> A_RADIO_STATE_OFF then ''+CFUN=1'' else ''+CFUN=0''), m, [])"

definition handleSIMStatusReq :: "modem \<Rightarrow> handled" where
  "handleSIMStatusReq m =
     Inr (Literal (case asimcard_get_status (sim m) of
        A_SIM_STATUS_ABSENT \<Rightarrow> ''+CPIN: ABSENT''
      | A_SIM_STATUS_READY \<Rightarrow> ''+CPIN: READY''
      | A_SIM_STATUS_NOT_READY \<Rightarrow> ''+CMERROR: NOT READY''
      | A_SIM_STATUS_PIN \<Rightarrow> ''+CPIN: SIM PIN''
      | A_SIM_STATUS_PUK \<Rightarrow> ''+CPIN: SIM PUK''
      | A_SIM_STATUS_NETWORK_PERSONALIZATION \<Rightarrow> ''+CPIN: PH-NET PIN''), m, [])"

definition handleNetworkRegistration :: "string \<Rightarrow> modem \<Rightarrow> handled" where
  "handleNetworkRegistration cmd m =
     (if take 5 cmd = ''+CREG'' then
        (let cmd = drop 5 cmd
         in if ch cmd 0 = CHR ''?'' then Inr (amodem_printf (creg_text '', '' [] m), m, [])
            else if ch cmd 0 = CHR ''='' then
              (if ch cmd 1 = CHR ''0'' then Inr (No_reply, m\<lparr>voice_mode := A_REGISTRATION_UNSOL_DISABLED\<rparr>, [])
               else if ch cmd 1 = CHR ''1'' then Inr (No_reply, m\<lparr>voice_mode := A_REGISTRATION_UNSOL_ENABLED\<rparr>, [])
               else if ch cmd 1 = CHR ''2'' then Inr (No_reply, m\<lparr>voice_mode := A_REGISTRATION_UNSOL_ENABLED_FULL\<rparr>, [])
               else if ch cmd 1 = CHR ''?'' then Inr (Literal ''+CREG: (0-2)'', m, [])
               else Inr (Literal ''ERROR: BAD COMMAND'', m, []))
            else Inl Cpu_abort)
      else if take 6 cmd = ''+CGREG'' then
        (let cmd = drop 6 cmd
         in if ch cmd 0 = CHR ''?'' then Inr (amodem_printf (cgreg_text [] m), m, [])
            else if ch cmd 0 = CHR ''='' then
              (if ch cmd 1 = CHR ''0'' then Inr (No_reply, m\<lparr>data_mode := A_REGISTRATION_UNSOL_DISABLED\<rparr>, [])
               else if ch cmd 1 = CHR ''1'' then Inr (No_reply, m\<lparr>data_mode := A_REGISTRATION_UNSOL_ENABLED\<rparr>, [])
               else if ch cmd 1 = CHR ''2'' then Inr (No_reply, m\<lparr>data_mode := A_REGISTRATION_UNSOL_ENABLED_FULL\<rparr>, [])
               else if ch cmd 1 = CHR ''?'' then Inr (Literal ''+CGREG: (0-2)'', m, [])
               else Inr (Literal ''ERROR: BAD COMMAND'', m, []))
            else Inl Cpu_abort)
      else Inr (No_reply, m, []))"

definition handleSIM_IO :: "string \<Rightarrow> modem \<Rightarrow> handled" where
  "handleSIM_IO cmd m = (case asimcard_io cmd of None \<Rightarrow> Inl Cpu_abort | Some a \<Rightarrow> Inr (Literal a, m, []))"

section \<open>Operators\<close>

text \<open>The three names of an operator, as strings.\<close>

definition oper_str :: "operator_rec \<Rightarrow> int \<Rightarrow> string outcome" where
  "oper_str r i = undefined_if_none (cstr (oper_name r ! nat i))"

text \<open>The lines of \<open>+COPS=?\<close>.\<close>

fun oper_lines :: "string \<Rightarrow> operator_rec list \<Rightarrow> string list outcome" where
  "oper_lines comma [] = Inr []"
| "oper_lines comma (r # rs) =
     (case (oper_str r 0, oper_str r 1, oper_str r 2) of
        (Inr a, Inr b, Inr c) \<Rightarrow>
          map_sum id (Cons (comma @ ''('' @ fmt_d (status_code (oper_status r)) @ '','' @ quoted a @ '','' @ quoted b @ '','' @
            quoted c @ '')'')) (oper_lines '', '' rs)
      | _ \<Rightarrow> Inl Undefined)"

text \<open>
  The search for the operator to select: \<open>memcpy\<close> copies the requested name over the operator's and
  returns its destination, which is not \<open>NULL\<close>, so the test \<open>!memcpy(...)\<close> fails and the loop goes on
  to the next operator. The result is \<open>found\<close> and the operators.
\<close>

fun select_loop :: "nat \<Rightarrow> nat \<Rightarrow> nat \<Rightarrow> string \<Rightarrow> int \<Rightarrow> operator_rec list \<Rightarrow> (nat option \<times> operator_rec list) option" where
  "select_loop 0 nn format cmd len ops = Some (None, ops)"
| "select_loop (Suc k) nn format cmd len ops =
     Option.bind (Emu_Prelude.memcpy (oper_name (ops ! nn) ! format) 0 cmd len) (\<lambda>a.
       select_loop k (nn + 1) format cmd len (ops[nn := set_oper_name (ops ! nn) format a]))"

definition oper_format :: "string \<Rightarrow> int" where
  "oper_format cmd = of_char (ch cmd 3) - 48"

definition select_operator :: "string \<Rightarrow> modem \<Rightarrow> handled" where
  "select_operator cmd m =
     (let format = oper_format cmd
      in if ch cmd 2 \<noteq> CHR '','' \<or> format < 0 \<or> format > 2 \<or> ch cmd 4 \<noteq> CHR '','' then Inr (unknownCommand, m, [])
         else
           (let cmd = drop 5 cmd;
                len = (if ch cmd 0 = dquote then int (length cmd) - 2 else int (length cmd));
                cmd = (if ch cmd 0 = dquote then tl cmd else cmd)
            in if len \<le> 0 then Inr (unknownCommand, m, [])
               else
                 (case select_loop (nat (oper_count m)) 0 (nat format) cmd len (operators m) of
                    None \<Rightarrow> Inl Undefined
                  | Some (found, ops) \<Rightarrow>
                      (let m = m\<lparr>operators := ops\<rparr>
                       in case found of
                            None \<Rightarrow> Inr (Literal ''+CME ERROR: 529'', m, [])
                          | Some nn \<Rightarrow>
                              if oper_status (ops ! nn) = A_STATUS_DENIED then Inr (Literal ''+CME ERROR: 32'', m, [])
                              else
                                (let m = m\<lparr>oper_index := int nn\<rparr>
                                 in Inr (No_reply, if int nn = OPERATOR_HOME_INDEX
                                               then m\<lparr>voice_state := A_REGISTRATION_HOME, data_state := A_REGISTRATION_HOME\<rparr>
                                               else if int nn = OPERATOR_ROAMING_INDEX
                                               then m\<lparr>voice_state := A_REGISTRATION_ROAMING, data_state := A_REGISTRATION_ROAMING\<rparr>
                                               else m, []))))))"

definition handleOperatorSelection :: "string \<Rightarrow> modem \<Rightarrow> handled" where
  "handleOperatorSelection cmd m =
     (if take 5 cmd \<noteq> ''+COPS'' then Inl Cpu_abort
      else
        (let cmd = drop 5 cmd
         in if ch cmd 0 = CHR ''?'' then
              (if \<not> amodem_has_network m then Inr (amodem_printf ''+CME ERROR: 30'', m, [])
               else
                 (let oper = operators m ! nat (oper_index m)
                  in case oper_str oper (oper_name_index m) of
                       Inl e \<Rightarrow> Inl e
                     | Inr name \<Rightarrow>
                         Inr (amodem_printf (''+COPS: '' @ fmt_d (selection_code (oper_selection_mode m)) @ '','' @
                           (if oper_name_index m = 2 then ''2,'' @ name
                            else fmt_d (oper_name_index m) @ '','' @ quoted name)), m, [])))
            else if ch cmd 0 = CHR ''='' \<and> ch cmd 1 = CHR ''?'' then
              (case oper_lines ''+COPS: '' (take (nat (oper_count m)) (operators m)) of
                 Inl e \<Rightarrow> Inl e
               | Inr ls \<Rightarrow> map_sum id (\<lambda>r. (r, m, [])) (amodem_add_lines [] ls))
            else if ch cmd 0 = CHR ''='' then
              (if ch cmd 1 = CHR ''0'' then Inr (No_reply, m\<lparr>oper_selection_mode := A_SELECTION_AUTOMATIC\<rparr>, [])
               else if ch cmd 1 = CHR ''1'' then select_operator cmd m
               else if ch cmd 1 = CHR ''2'' then Inr (No_reply, m\<lparr>oper_selection_mode := A_SELECTION_DEREGISTRATION\<rparr>, [])
               else if ch cmd 1 = CHR ''3'' then
                 (let format = oper_format cmd
                  in if ch cmd 2 \<noteq> CHR '','' \<or> format < 0 \<or> format > 2 then Inr (unknownCommand, m, [])
                     else Inr (No_reply, m\<lparr>oper_name_index := format\<rparr>, []))
               else Inr (unknownCommand, m, []))
            else Inr (unknownCommand, m, [])))"

definition handleRequestOperator :: "modem \<Rightarrow> handled" where
  "handleRequestOperator m =
     (if \<not> amodem_has_network m then Inr (Literal ''+CME ERROR: 30'', m, [])
      else
        (let oper = operators m ! nat (oper_index m);
             m = m\<lparr>oper_name_index := 2\<rparr>
         in case (oper_str oper 0, oper_str oper 1, oper_str oper 2) of
              (Inr a, Inr b, Inr c) \<Rightarrow>
                Inr (amodem_printf (''+COPS: 0,0,'' @ quoted a @ [cr] @ ''+COPS: 0,1,'' @ quoted b @ [cr] @
                  ''+COPS: 0,2,'' @ quoted c), m, [])
            | _ \<Rightarrow> Inl Undefined))"

section \<open>The SIM card\<close>

definition handleChangeOrEnterPIN :: "string \<Rightarrow> modem \<Rightarrow> handled" where
  "handleChangeOrEnterPIN cmd m =
     (if take 6 cmd \<noteq> ''+CPIN='' then Inl Cpu_abort
      else
        (let cmd = drop 6 cmd
         in case asimcard_get_status (sim m) of
              A_SIM_STATUS_ABSENT \<Rightarrow> Inr (Literal ''+CME ERROR: SIM ABSENT'', m, [])
            | A_SIM_STATUS_NOT_READY \<Rightarrow> Inr (Literal ''+CME ERROR: SIM NOT READY'', m, [])
            | A_SIM_STATUS_READY \<Rightarrow>
                (if length cmd = 9 \<and> ch cmd 4 = CHR '','' then
                   (case asimcard_check_pin (sim m) (take 4 cmd) of
                      None \<Rightarrow> Inl Undefined
                    | Some (r, s) \<Rightarrow>
                        if r = 0 then Inr (Literal ''+CME ERROR: BAD PIN'', m\<lparr>sim := s\<rparr>, [])
                        else
                          (case asimcard_set_pin s (take 4 (drop 5 cmd)) of
                             None \<Rightarrow> Inl Undefined
                           | Some s \<Rightarrow> Inr (Literal ''+CPIN: READY'', m\<lparr>sim := s\<rparr>, [])))
                 else Inr (Literal ''+CME ERROR: BAD FORMAT'', m, []))
            | A_SIM_STATUS_PIN \<Rightarrow>
                (case asimcard_check_pin (sim m) cmd of
                   None \<Rightarrow> Inl Undefined
                 | Some (r, s) \<Rightarrow>
                     Inr (Literal (if r \<noteq> 0 then ''+CPIN: READY'' else ''+CME ERROR: BAD PIN''), m\<lparr>sim := s\<rparr>, []))
            | A_SIM_STATUS_PUK \<Rightarrow>
                (if length cmd = 9 \<and> ch cmd 4 = CHR '','' then
                   (case asimcard_check_puk (sim m) (take 4 cmd) (drop 5 cmd) of
                      None \<Rightarrow> Inl Undefined
                    | Some (r, s) \<Rightarrow>
                        Inr (Literal (if r \<noteq> 0 then ''+CPIN: READY'' else ''+CME ERROR: BAD PUK''), m\<lparr>sim := s\<rparr>, []))
                 else Inr (Literal ''+CME ERROR: BAD PUK'', m, []))
            | A_SIM_STATUS_NETWORK_PERSONALIZATION \<Rightarrow> Inr (Literal ''+CPIN: PH-NET PIN'', m, [])))"

section \<open>Lists for the guest\<close>

definition clcc_line :: "voice_call \<Rightarrow> string" where
  "clcc_line c =
     ''+CLCC: '' @ fmt_d (call_id c) @ '','' @ fmt_d (dir_code (dir c)) @ '','' @ fmt_d (state_code (cstate c)) @ '','' @
     fmt_d (call_mode_code (mode c)) @ '','' @ fmt_d (multi c) @ '','' @ quoted (number c) @ '','' @ fmt_d 129 @ [cr, lf]"

definition handleListCurrentCalls :: "modem \<Rightarrow> handled" where
  "handleListCurrentCalls m =
     (let t = voice m
      in map_sum id (\<lambda>r. (r, m, []))
           (amodem_add_lines [] (map clcc_line (filter (\<lambda>c. mode c = A_CALL_VOICE) (take (call_count t) (calls t))))))"

definition cgact_line :: "data_context \<Rightarrow> string" where
  "cgact_line d = ''+CGACT: '' @ fmt_d (data_id d) @ '','' @ fmt_d (if data_active d then 1 else 0) @ [cr]"

definition handleListPDPContexts :: "string \<Rightarrow> modem \<Rightarrow> handled" where
  "handleListPDPContexts cmd m =
     (if take 7 cmd \<noteq> ''+CGACT?'' then Inl Cpu_abort
      else map_sum id (\<lambda>r. (r, m, [])) (amodem_add_lines [] (map cgact_line (filter data_active (data_contexts m)))))"

definition cgdcont_line :: "data_context \<Rightarrow> string" where
  "cgdcont_line d =
     ''+CGDCONT: '' @ fmt_d (data_id d) @ '','' @ (if data_kind d = A_DATA_IP then ''IP'' else ''PPP'') @ '','' @
     quoted (data_apn d) @ '',,0,0'' @ [cr, lf]"

definition handleDefinePDPContext :: "string \<Rightarrow> modem \<Rightarrow> handled" where
  "handleDefinePDPContext cmd m =
     (if take 9 cmd \<noteq> ''+CGDCONT='' then Inl Cpu_abort
      else
        (let cmd = drop 9 cmd
         in if ch cmd 0 = CHR ''?'' then
              map_sum id (\<lambda>r. (r, m, [])) (amodem_add_lines [] (map cgdcont_line (filter data_active (data_contexts m))))
            else
              (let i = of_char (ch cmd 0) - 49 :: int;
                   bad = Inr (Literal ''ERROR: BAD COMMAND'', m, []);
                   store = (\<lambda>kind cmd.
                     if dquote \<notin> set cmd then bad
                     else
                       (let apn = take (A_DATA_APN_SIZE - 1) (takeWhile (\<lambda>c. c \<noteq> dquote) cmd)
                        in Inr (No_reply, m\<lparr>data_contexts := (data_contexts m)[nat i :=
                             \<lparr>data_id = i + 1, data_active = True, data_kind = kind, data_apn = apn\<rparr>]\<rparr>, [])))
               in if i < 0 \<or> i > 3 then bad
                  else if take 7 (drop 1 cmd) = '','' @ quoted ''IP'' @ '','' @ [dquote] then store A_DATA_IP (drop 8 cmd)
                  else if take 8 (drop 1 cmd) = '','' @ quoted ''PPP'' @ '','' @ [dquote] then store A_DATA_PPP (drop 9 cmd)
                  else bad)))"

end
