(* ===== verification/Stream_Reader.thy ===== *)
theory Stream_Reader
  imports Goldfish_Base
begin

text \<open>
  Readers that are handed a byte stream in arbitrary pieces (\<open>android/hw-qemud.c\<close> has two). The
  contract is that a piece may be cut after its first byte; the client result is that the cuts do
  not matter at all.

  A computation that may not end or may be undefined is a value of type \<open>'a outcome option\<close>: \<open>None\<close>
  never returns.
\<close>

abbreviation obind :: "'a outcome option \<Rightarrow> ('a \<Rightarrow> 'b outcome option) \<Rightarrow> 'b outcome option" where
  "obind m f \<equiv> Option.bind m (\<lambda>r. case r of Inl e \<Rightarrow> Some (Inl e) | Inr x \<Rightarrow> f x)"

lemma obind_assoc: "obind (obind m f) g = obind m (\<lambda>x. obind (f x) g)"
  by (cases m) (auto split: sum.splits)

lemma obind_return [simp]: "obind m (\<lambda>x. Some (Inr x)) = m"
  by (cases m) (auto split: sum.splits)

lemma obind_eq_SomeInr: "obind m f = Some (Inr y) \<longleftrightarrow> (\<exists>x. m = Some (Inr x) \<and> f x = Some (Inr y))"
  by (cases m) (auto split: sum.splits)

lemma obind_cong_wf: "(\<And>x. m = Some (Inr x) \<Longrightarrow> f x = g x) \<Longrightarrow> obind m f = obind m g"
  by (cases m) (auto split: sum.splits)

text \<open>Reading the pieces one after the other.\<close>

fun read_pieces :: "('s \<Rightarrow> 'a list \<Rightarrow> 's outcome option) \<Rightarrow> 's \<Rightarrow> 'a list list \<Rightarrow> 's outcome option" where
  "read_pieces rdr s [] = Some (Inr s)"
| "read_pieces rdr s (xs # xss) = obind (rdr s xs) (\<lambda>s. read_pieces rdr s xss)"

text \<open>
  \<open>ok s xs\<close> says that the reader in state \<open>s\<close> may be handed the bytes \<open>xs\<close>: a condition on the state,
  or one on the bytes too.
\<close>

locale stream_reader =
  fixes ok :: "'s \<Rightarrow> 'a list \<Rightarrow> bool"
    and read :: "'s \<Rightarrow> 'a list \<Rightarrow> 's outcome option"
  assumes read_Nil: "ok s [] \<Longrightarrow> read s [] = Some (Inr s)"
    and ok_prefix: "ok s (xs @ ys) \<Longrightarrow> ok s xs"
    and read_Cons: "ok s (x # xs) \<Longrightarrow> read s (x # xs) = obind (read s [x]) (\<lambda>s. read s xs)"
    and ok_step: "ok s (x # xs) \<Longrightarrow> read s [x] = Some (Inr s') \<Longrightarrow> ok s' xs"
begin

lemma read_ok: "ok s (xs @ ys) \<Longrightarrow> read s xs = Some (Inr s') \<Longrightarrow> ok s' ys"
proof (induction xs arbitrary: s)
  case Nil
  then show ?case using ok_prefix [of s "[]" ys] by (simp add: read_Nil)
next
  case (Cons x xs)
  from Cons.prems(2) obtain s1 where s1: "read s [x] = Some (Inr s1)" "read s1 xs = Some (Inr s')"
    unfolding read_Cons [OF ok_prefix [OF Cons.prems(1)]] obind_eq_SomeInr by blast
  then have "ok s1 (xs @ ys)" using Cons.prems(1) by (auto intro: ok_step)
  then show ?case using Cons.IH s1(2) by blast
qed

lemma read_append: "ok s (xs @ ys) \<Longrightarrow> read s (xs @ ys) = obind (read s xs) (\<lambda>s. read s ys)"
proof (induction xs arbitrary: s)
  case Nil
  then show ?case using ok_prefix [of s "[]" ys] by (simp add: read_Nil)
next
  case (Cons x xs)
  have ok: "ok s (x # xs @ ys)" using Cons.prems by simp
  have "read s ((x # xs) @ ys) = obind (read s [x]) (\<lambda>s. read s (xs @ ys))"
    unfolding append_Cons by (rule read_Cons [OF ok])
  also have "\<dots> = obind (read s [x]) (\<lambda>s. obind (read s xs) (\<lambda>s. read s ys))"
    using Cons.IH ok_step [OF ok] by (intro obind_cong_wf) blast
  also have "\<dots> = obind (read s (x # xs)) (\<lambda>s. read s ys)"
    unfolding read_Cons [OF ok_prefix [OF Cons.prems]] obind_assoc ..
  finally show ?case .
qed

lemma read_pieces_concat: "ok s (concat xss) \<Longrightarrow> read_pieces read s xss = read s (concat xss)"
proof (induction xss arbitrary: s)
  case Nil
  then show ?case by (simp add: read_Nil)
next
  case (Cons xs xss)
  have ok: "ok s (xs @ concat xss)" using Cons.prems by simp
  have "read_pieces read s (xs # xss) = obind (read s xs) (\<lambda>s. read s (concat xss))"
    using Cons.IH read_ok [OF ok] unfolding read_pieces.simps by (intro obind_cong_wf) blast
  then show ?case using read_append [OF ok] by simp
qed

end

end
