(* ===== verification/Qemud_Serial.thy ===== *)
theory Qemud_Serial
  imports Stream_Reader
begin

unbundle bit_operations_syntax

text \<open>
  The serial side of the \<open>qemud\<close> multiplexer (first half of \<open>android/hw-qemud.c\<close>): the packets that
  carry messages between the emulator and the guest's daemon over one serial port, with the
  hexadecimal helpers of \<open>android/utils/misc.c\<close>. \<open>SUPPORT_LEGACY_QEMUD\<close> is 1, as in the source.
\<close>

section \<open>Hexadecimal numbers\<close>

definition hexdigit :: "int \<Rightarrow> int" where
  "hexdigit c =
     (if 0 \<le> c - 48 \<and> c - 48 < 10 then c - 48
      else if 0 \<le> c - 97 \<and> c - 97 < 6 then c - 97 + 10
      else if 0 \<le> c - 65 \<and> c - 65 < 6 then c - 65 + 10
      else -1)"

text \<open>\<open>hex2int\<close> on the bytes it reads; at most four of them are given, so the result fits an \<open>int\<close>.\<close>

fun hex2int_from :: "int \<Rightarrow> byte list \<Rightarrow> int" where
  "hex2int_from result [] = result"
| "hex2int_from result (b # bs) =
     (let c = hexdigit (uint b) in if c < 0 then -1 else hex2int_from (push_bit 4 result OR c) bs)"

definition hex2int :: "byte list \<Rightarrow> int" where
  "hex2int hex = hex2int_from 0 hex"

definition hexchars :: "byte list" where
  "hexchars = [48, 49, 50, 51, 52, 53, 54, 55, 56, 57, 97, 98, 99, 100, 101, 102]"

fun int2hex :: "nat \<Rightarrow> int \<Rightarrow> byte list" where
  "int2hex 0 val = []"
| "int2hex (Suc len) val = hexchars ! nat (drop_bit (len * 4) val AND 15) # int2hex len val"

section \<open>Sinks\<close>

text \<open>\<open>QemudSink\<close> without its buffer, which several sinks may share.\<close>

record qemud_sink =
  sk_len :: int
  sk_size :: int

definition qemud_sink_reset :: "int \<Rightarrow> qemud_sink" where
  "qemud_sink_reset sz = \<lparr>sk_len = 0, sk_size = sz\<rparr>"

text \<open>The result: whether the sink is full, the sink, the buffer, and the rest of the message.\<close>

definition qemud_sink_fill ::
  "qemud_sink \<Rightarrow> byte list \<Rightarrow> byte list \<Rightarrow> (bool \<times> qemud_sink \<times> byte list \<times> byte list) outcome" where
  "qemud_sink_fill ss buff msg =
     (let avail = sk_size ss - sk_len ss
      in if avail \<le> 0 then Inr (True, ss, buff, msg)
         else
           (let avail = (if avail > int (length msg) then int (length msg) else avail)
            in case memcpy buff (sk_len ss) msg avail of
                 None \<Rightarrow> Inl Undefined
               | Some b \<Rightarrow>
                   (let ss = ss\<lparr>sk_len := sk_len ss + avail\<rparr>
                    in Inr (sk_len ss = sk_size ss, ss, b, drop (nat avail) msg))))"

definition qemud_sink_needed :: "qemud_sink \<Rightarrow> int" where
  "qemud_sink_needed ss = sk_size ss - sk_len ss"

section \<open>The serial port connection\<close>

definition MAX_SERIAL_PAYLOAD :: int where "MAX_SERIAL_PAYLOAD = 4000"
definition HEADER_SIZE :: int where "HEADER_SIZE = 6"
definition LENGTH_OFFSET :: nat where "LENGTH_OFFSET = 2"
definition LENGTH_SIZE :: nat where "LENGTH_SIZE = 4"
definition CHANNEL_OFFSET :: nat where "CHANNEL_OFFSET = 0"
definition CHANNEL_SIZE :: nat where "CHANNEL_SIZE = 2"
definition LEGACY_LENGTH_OFFSET :: nat where "LEGACY_LENGTH_OFFSET = 0"
definition LEGACY_CHANNEL_OFFSET :: nat where "LEGACY_CHANNEL_OFFSET = 4"
definition FRAME_HEADER_SIZE :: nat where "FRAME_HEADER_SIZE = 4"

lemmas qemud_sizes = MAX_SERIAL_PAYLOAD_def HEADER_SIZE_def LENGTH_OFFSET_def LENGTH_SIZE_def CHANNEL_OFFSET_def
  CHANNEL_SIZE_def LEGACY_LENGTH_OFFSET_def LEGACY_CHANNEL_OFFSET_def FRAME_HEADER_SIZE_def

datatype qemud_version = QEMUD_VERSION_UNKNOWN | QEMUD_VERSION_LEGACY | QEMUD_VERSION_NORMAL

text \<open>\<open>modem_legacy\<close> records the call of \<open>amodem_set_legacy\<close>.\<close>

record qemud_serial =
  need_header :: bool
  overflow :: int
  in_size :: int
  in_channel :: int
  version :: qemud_version
  header :: qemud_sink
  payload :: qemud_sink
  data0 :: "byte list"
  modem_legacy :: bool

definition qemud_serial_can_read :: "qemud_serial \<Rightarrow> int" where
  "qemud_serial_can_read s =
     (if overflow s > 0 then overflow s
      else if need_header s then qemud_sink_needed (header s)
      else qemud_sink_needed (payload s))"

text \<open>Reading \<open>len\<close> bytes at an offset of \<open>data0\<close>.\<close>

definition field :: "qemud_serial \<Rightarrow> nat \<Rightarrow> nat \<Rightarrow> byte list" where
  "field s off len = take len (drop off (data0 s))"

text \<open>Recognising the daemon from the first header: \<open>"001200"\<close> is a legacy one.\<close>

definition detect_version :: "qemud_serial \<Rightarrow> qemud_serial" where
  "detect_version s =
     (if version s = QEMUD_VERSION_UNKNOWN then
        (if field s 0 6 = [48, 48, 49, 50, 48, 48]
         then s\<lparr>version := QEMUD_VERSION_LEGACY, modem_legacy := True\<rparr>
         else s\<lparr>version := QEMUD_VERSION_NORMAL\<rparr>)
      else s)"

definition parse_header :: "qemud_serial \<Rightarrow> qemud_serial" where
  "parse_header s =
     (let s = detect_version s;
          s = (if version s = QEMUD_VERSION_LEGACY
               then s\<lparr>in_size := hex2int (field s LEGACY_LENGTH_OFFSET LENGTH_SIZE),
                      in_channel := hex2int (field s LEGACY_CHANNEL_OFFSET CHANNEL_SIZE)\<rparr>
               else s\<lparr>in_size := hex2int (field s LENGTH_OFFSET LENGTH_SIZE),
                      in_channel := hex2int (field s CHANNEL_OFFSET CHANNEL_SIZE)\<rparr>)
      in s\<lparr>header := (header s)\<lparr>sk_len := 0\<rparr>\<rparr>)"

text \<open>
  One pass of the loop of \<open>qemud_serial_read\<close>. The result says whether the loop is left, and gives the
  connection, the receiver's state and the bytes not yet read. The receiver \<open>recv\<close> is the callback
  \<open>recv_func\<close>: it gets the channel and the payload and may change the protocol version.
\<close>

type_synonym 'r serial_recv = "'r \<Rightarrow> qemud_version \<Rightarrow> int \<Rightarrow> byte list \<Rightarrow> ('r \<times> qemud_version) outcome option"
type_synonym 'r serial_pass_result = "(bool \<times> qemud_serial \<times> 'r \<times> byte list) outcome option"

definition read_payload :: "'r serial_recv \<Rightarrow> qemud_serial \<Rightarrow> 'r \<Rightarrow> byte list \<Rightarrow> 'r serial_pass_result" where
  "read_payload recv s r from =
     (case qemud_sink_fill (payload s) (data0 s) from of
        Inl e \<Rightarrow> Some (Inl e)
      | Inr (full, ss, b, from) \<Rightarrow>
          (let s = s\<lparr>payload := ss, data0 := b\<rparr>
           in if \<not> full then Some (Inr (True, s, r, from))
              else
                (case wr (data0 s) (sk_size (payload s)) 0 of
                   None \<Rightarrow> Some (Inl Undefined)
                 | Some d \<Rightarrow>
                     (let s = s\<lparr>data0 := d\<rparr>
                      in obind (recv r (version s) (in_channel s) (take (nat (sk_size (payload s))) (data0 s)))
                           (\<lambda>(r, v). Some (Inr (False, s\<lparr>version := v, need_header := True\<rparr>, r, from)))))))"

definition serial_pass :: "'r serial_recv \<Rightarrow> qemud_serial \<Rightarrow> 'r \<Rightarrow> byte list \<Rightarrow> 'r serial_pass_result" where
  "serial_pass recv s r from =
     (if overflow s > 0 then
        (let avail = (if overflow s > int (length from) then int (length from) else overflow s)
         in Some (Inr (False, s, r, drop (nat avail) from)))
      else if need_header s then
        (case qemud_sink_fill (header s) (data0 s) from of
           Inl e \<Rightarrow> Some (Inl e)
         | Inr (full, ss, b, from) \<Rightarrow>
             (let s = s\<lparr>header := ss, data0 := b\<rparr>
              in if \<not> full then Some (Inr (True, s, r, from))
                 else
                   (let s = parse_header s
                    in if in_size s \<le> 0 \<or> in_channel s < 0 then Some (Inr (False, s, r, from))
                       else if in_size s > MAX_SERIAL_PAYLOAD
                       then Some (Inr (False, s\<lparr>overflow := in_size s\<rparr>, r, from))
                       else read_payload recv
                              (s\<lparr>need_header := False, payload := qemud_sink_reset (in_size s)\<rparr>) r from)))
      else read_payload recv s r from)"

partial_function (option) qemud_serial_read ::
  "'r serial_recv \<Rightarrow> qemud_serial \<Rightarrow> 'r \<Rightarrow> byte list \<Rightarrow> (qemud_serial \<times> 'r) outcome option" where
  "qemud_serial_read recv s r from =
     (if from = [] then Some (Inr (s, r))
      else obind (serial_pass recv s r from) (\<lambda>(stop, s, r, from).
             if stop then Some (Inr (s, r)) else qemud_serial_read recv s r from))"

text \<open>
  The probe for a legacy daemon, and initialisation: the connection and what is written to the
  serial port. \<open>data0\<close> of the static object holds 4001 bytes.
\<close>

definition qemud_serial_send_legacy_probe :: "byte list list" where
  "qemud_serial_send_legacy_probe =
     [map of_char ''000100X'', map of_char ''000b00connect:gsm'', map of_char ''000b00connect:gps'',
      map of_char ''000f00connect:control'', map of_char ''00c210'', replicate 194 0]"

definition qemud_serial_init :: "qemud_serial \<times> byte list list" where
  "qemud_serial_init =
     (\<lparr>need_header = True, overflow = 0, in_size = 0, in_channel = -1, version = QEMUD_VERSION_UNKNOWN,
       header = qemud_sink_reset HEADER_SIZE, payload = \<lparr>sk_len = 0, sk_size = 0\<rparr>,
       data0 = replicate (nat MAX_SERIAL_PAYLOAD + 1) 0, modem_legacy = False\<rparr>,
      qemud_serial_send_legacy_probe)"

section \<open>Sending\<close>

definition packet_header :: "qemud_version \<Rightarrow> int \<Rightarrow> int \<Rightarrow> byte list" where
  "packet_header v channel avail =
     (if v = QEMUD_VERSION_LEGACY then int2hex LENGTH_SIZE avail @ int2hex CHANNEL_SIZE channel
      else int2hex CHANNEL_SIZE channel @ int2hex LENGTH_SIZE avail)"

text \<open>
  The packetizing loop: \<open>len\<close> counts the frame header while \<open>framing\<close> is set. The result is the list
  of writes to the serial port.
\<close>

function send_loop :: "qemud_version \<Rightarrow> int \<Rightarrow> bool \<Rightarrow> int \<Rightarrow> byte list \<Rightarrow> int \<Rightarrow> byte list list outcome" where
  "send_loop v channel framing msglen msg len =
     (if len \<le> 0 then Inr []
      else
        (let avail = (if len > MAX_SERIAL_PAYLOAD then MAX_SERIAL_PAYLOAD else len);
             hdr = packet_header v channel avail;
             frame = (if framing then [int2hex FRAME_HEADER_SIZE msglen] else []);
             avail = (if framing then avail - int FRAME_HEADER_SIZE else avail);
             len = (if framing then len - int FRAME_HEADER_SIZE else len)
         in if avail < 0 \<or> avail > int (length msg) then Inl Undefined
            else map_sum id (\<lambda>ws. hdr # frame @ take (nat avail) msg # ws)
                   (send_loop v channel False msglen (drop (nat avail) msg) (len - avail))))"
  by pat_completeness auto
termination
  by (relation "measure (\<lambda>(v, c, framing, ml, msg, len). nat len)")
    (auto simp: Let_def qemud_sizes split: if_splits)

declare send_loop.simps [simp del]

definition qemud_serial_send :: "qemud_version \<Rightarrow> int \<Rightarrow> bool \<Rightarrow> byte list \<Rightarrow> byte list list outcome" where
  "qemud_serial_send v channel framing msg =
     (let msglen = int (length msg)
      in if msglen \<le> 0 \<or> channel < 0 then Inr []
         else send_loop v channel framing msglen msg (if framing then msglen + int FRAME_HEADER_SIZE else msglen))"

section \<open>Reading byte by byte\<close>

lemma fill_eq:
  assumes "sk_len ss = int k" and "int k < sk_size ss" and "int n = min (sk_size ss - int k) (int (length msg))"
  shows "qemud_sink_fill ss buff msg =
    (case memcpy buff (int k) msg (int n) of
       None \<Rightarrow> Inl Undefined
     | Some d \<Rightarrow> Inr (int (k + n) = sk_size ss, ss\<lparr>sk_len := int (k + n)\<rparr>, d, drop n msg))"
proof -
  have "(if sk_size ss - int k > int (length msg) then int (length msg) else sk_size ss - int k) = int n"
    using assms(3) by (simp add: min_def)
  moreover have "\<not> sk_size ss - int k \<le> 0" using assms(2) by simp
  ultimately show ?thesis
    unfolding qemud_sink_fill_def assms(1) Let_def by (simp only: if_False) (simp split: option.split)
qed

lemma fill_more:
  assumes "0 \<le> sk_len ss" "sk_len ss + 1 < sk_size ss" "sk_size ss \<le> int (length buff)" "bs \<noteq> []"
  shows "qemud_sink_fill ss buff (b # bs) =
    qemud_sink_fill (ss\<lparr>sk_len := sk_len ss + 1\<rparr>) (buff[nat (sk_len ss) := b]) bs"
proof -
  obtain k where k: "sk_len ss = int k" using assms(1) zero_le_imp_eq_int by blast
  have kk: "k < length buff" using assms k by simp
  define n where "n = nat (min (sk_size ss - int (Suc k)) (int (length bs)))"
  have n: "int n = min (sk_size ss - int (Suc k)) (int (length bs))"
    "int (Suc n) = min (sk_size ss - int k) (int (length (b # bs)))"
    using assms(2) k by (auto simp: n_def)
  have "n \<le> length bs" "k + 1 + n \<le> length buff" using assms(2,3) k by (auto simp: n_def)
  moreover have "take (Suc k) (buff[k := b]) = take k buff @ [b]"
    using kk by (simp add: take_Suc_conv_app_nth)
  ultimately have m: "memcpy buff (int k) (b # bs) (int (Suc n)) = memcpy (buff[k := b]) (int (Suc k)) bs (int n)"
    by (simp add: memcpy_def nat_add_distrib drop_update_cancel)
  have "qemud_sink_fill ss buff (b # bs) =
      (case memcpy buff (int k) (b # bs) (int (Suc n)) of None \<Rightarrow> Inl Undefined
       | Some d \<Rightarrow> Inr (int (k + Suc n) = sk_size ss, ss\<lparr>sk_len := int (k + Suc n)\<rparr>, d, drop (Suc n) (b # bs)))"
    by (rule fill_eq [OF k _ n(2)]) (use assms(2) k in simp)
  moreover have "qemud_sink_fill (ss\<lparr>sk_len := int (Suc k)\<rparr>) (buff[k := b]) bs =
      (case memcpy (buff[k := b]) (int (Suc k)) bs (int n) of None \<Rightarrow> Inl Undefined
       | Some d \<Rightarrow> Inr (int (Suc k + n) = sk_size ss, ss\<lparr>sk_len := int (Suc k + n)\<rparr>, d, drop n bs))"
    by (subst fill_eq [where k = "Suc k" and n = n]) (use assms(2) k n(1) in \<open>auto split: option.split\<close>)
  ultimately show ?thesis using m k by (simp add: add.commute split: option.split)
qed

lemma fill_one:
  assumes "0 \<le> sk_len ss" "sk_len ss < sk_size ss" "sk_size ss \<le> int (length buff)"
  shows "sk_len ss + 1 < sk_size ss \<Longrightarrow> qemud_sink_fill ss buff [b] =
      Inr (False, ss\<lparr>sk_len := sk_len ss + 1\<rparr>, buff[nat (sk_len ss) := b], [])"
    and "sk_len ss + 1 = sk_size ss \<Longrightarrow> qemud_sink_fill ss buff (b # bs) =
      Inr (True, ss\<lparr>sk_len := sk_len ss + 1\<rparr>, buff[nat (sk_len ss) := b], bs)"
    and "qemud_sink_fill ss buff [] = Inr (False, ss, buff, [])"
proof -
  obtain k where k: "sk_len ss = int k" using assms(1) zero_le_imp_eq_int by blast
  have kk: "k < length buff" "int k < sk_size ss" using assms k by simp_all
  have m: "memcpy buff (int k) (b # bs) (int 1) = Some (buff[k := b])" for bs
    using kk by (simp add: memcpy_def nat_add_distrib upd_conv_take_nth_drop)
  have m0: "memcpy buff (int k) [] (int 0) = Some buff" using kk by (simp add: memcpy_def)
  show "sk_len ss + 1 < sk_size ss \<Longrightarrow> qemud_sink_fill ss buff [b] =
      Inr (False, ss\<lparr>sk_len := sk_len ss + 1\<rparr>, buff[nat (sk_len ss) := b], [])"
    using k m [of "[]"] by (subst fill_eq [OF k kk(2), of 1]) (auto simp: min_def add.commute)
  show "sk_len ss + 1 = sk_size ss \<Longrightarrow> qemud_sink_fill ss buff (b # bs) =
      Inr (True, ss\<lparr>sk_len := sk_len ss + 1\<rparr>, buff[nat (sk_len ss) := b], bs)"
    using k m [of bs] by (subst fill_eq [OF k kk(2), of 1]) (auto simp: min_def add.commute)
  show "qemud_sink_fill ss buff [] = Inr (False, ss, buff, [])"
    using k m0 kk by (subst fill_eq [OF k kk(2), of 0]) auto
qed

definition serial_wf :: "qemud_serial \<Rightarrow> bool" where
  "serial_wf s \<longleftrightarrow> length (data0 s) = 4001 \<and> sk_size (header s) = 6 \<and> 0 \<le> sk_len (header s) \<and> sk_len (header s) < 6 \<and>
     (need_header s \<or> 0 \<le> sk_len (payload s) \<and> sk_len (payload s) < sk_size (payload s) \<and> sk_size (payload s) \<le> 4000)"

text \<open>The connection after one more byte of a header or of a payload.\<close>

definition header_byte :: "qemud_serial \<Rightarrow> byte \<Rightarrow> qemud_serial" where
  "header_byte s b = s\<lparr>header := (header s)\<lparr>sk_len := sk_len (header s) + 1\<rparr>,
     data0 := (data0 s)[nat (sk_len (header s)) := b]\<rparr>"

definition payload_byte :: "qemud_serial \<Rightarrow> byte \<Rightarrow> qemud_serial" where
  "payload_byte s b = s\<lparr>payload := (payload s)\<lparr>sk_len := sk_len (payload s) + 1\<rparr>,
     data0 := (data0 s)[nat (sk_len (payload s)) := b]\<rparr>"

definition enter_payload :: "qemud_serial \<Rightarrow> qemud_serial" where
  "enter_payload s = s\<lparr>need_header := False, payload := qemud_sink_reset (in_size s)\<rparr>"

lemma payload_more:
  assumes "serial_wf s" "\<not> need_header s" "sk_len (payload s) + 1 < sk_size (payload s)"
  shows "bs \<noteq> [] \<Longrightarrow> read_payload recv s r (b # bs) = read_payload recv (payload_byte s b) r bs"
    and "read_payload recv s r [b] = Some (Inr (True, payload_byte s b, r, []))"
  using assms fill_more [of "payload s" "data0 s" bs b] fill_one(1) [of "payload s" "data0 s" b]
  by (auto simp: serial_wf_def read_payload_def payload_byte_def split: sum.split prod.split)

lemma payload_last:
  assumes "serial_wf s" "\<not> need_header s" "sk_len (payload s) + 1 = sk_size (payload s)"
  shows "read_payload recv s r (b # bs) =
    (let s = payload_byte s b;
         s = s\<lparr>data0 := (data0 s)[nat (sk_size (payload s)) := 0]\<rparr>
     in obind (recv r (version s) (in_channel s) (take (nat (sk_size (payload s))) (data0 s)))
          (\<lambda>(r, v). Some (Inr (False, s\<lparr>version := v, need_header := True\<rparr>, r, bs))))"
  using assms fill_one(2) [of "payload s" "data0 s" b bs]
  by (simp add: serial_wf_def read_payload_def payload_byte_def wr_def Let_def)

lemma payload_Nil:
  assumes "serial_wf s" "\<not> need_header s"
  shows "read_payload recv s r [] = Some (Inr (True, s, r, []))"
  using assms fill_one(3) [of "payload s" "data0 s"] by (simp add: serial_wf_def read_payload_def)

lemma header_more:
  assumes "serial_wf s" "need_header s" "\<not> overflow s > 0" "sk_len (header s) + 1 < 6"
  shows "bs \<noteq> [] \<Longrightarrow> serial_pass recv s r (b # bs) = serial_pass recv (header_byte s b) r bs"
    and "serial_pass recv s r [b] = Some (Inr (True, header_byte s b, r, []))"
  using assms fill_more [of "header s" "data0 s" bs b] fill_one(1) [of "header s" "data0 s" b]
  by (auto simp: serial_wf_def serial_pass_def header_byte_def split: sum.split prod.split)

lemma header_last:
  assumes "serial_wf s" "need_header s" "\<not> overflow s > 0" "sk_len (header s) + 1 = 6"
  shows "serial_pass recv s r (b # bs) =
    (let s = parse_header (header_byte s b)
     in if in_size s \<le> 0 \<or> in_channel s < 0 then Some (Inr (False, s, r, bs))
        else if in_size s > MAX_SERIAL_PAYLOAD then Some (Inr (False, s\<lparr>overflow := in_size s\<rparr>, r, bs))
        else read_payload recv (enter_payload s) r bs)"
  using assms fill_one(2) [of "header s" "data0 s" b bs]
  by (auto simp: serial_wf_def serial_pass_def header_byte_def enter_payload_def Let_def)

lemma parse_header_simps [simp]:
  "data0 (parse_header s) = data0 s" "sk_size (header (parse_header s)) = sk_size (header s)"
  "sk_len (header (parse_header s)) = 0" "overflow (parse_header s) = overflow s"
  "need_header (parse_header s) = need_header s"
  by (simp_all add: parse_header_def detect_version_def Let_def)

lemma parse_header_wf:
  assumes "serial_wf s" "need_header s"
  shows "serial_wf (parse_header (header_byte s b))"
    and "0 < in_size (parse_header (header_byte s b)) \<Longrightarrow> in_size (parse_header (header_byte s b)) \<le> MAX_SERIAL_PAYLOAD \<Longrightarrow>
      serial_wf (enter_payload (parse_header (header_byte s b)))"
  using assms by (auto simp: serial_wf_def header_byte_def enter_payload_def qemud_sink_reset_def MAX_SERIAL_PAYLOAD_def)

lemma serial_read_Nil: "qemud_serial_read recv s r [] = Some (Inr (s, r))"
  by (subst qemud_serial_read.simps) simp

lemma serial_read_overflow: "overflow s > 0 \<Longrightarrow> qemud_serial_read recv s r from = Some (Inr (s, r))"
proof (induction "length from" arbitrary: "from" rule: less_induct)
  case less
  let ?n = "nat (if overflow s > int (length from) then int (length from) else overflow s)"
  show ?case
  proof (cases "from = []")
    case True
    then show ?thesis by (simp add: serial_read_Nil)
  next
    case False
    then have "length (drop ?n from) < length from" using less.prems by auto
    from less.hyps [OF this less.prems] False less.prems show ?thesis
      by (subst qemud_serial_read.simps) (simp add: serial_pass_def Let_def)
  qed
qed

lemma serial_read_pass:
  "from \<noteq> [] \<Longrightarrow> qemud_serial_read recv s r from =
     obind (serial_pass recv s r from) (\<lambda>(stop, s, r, from).
       if stop then Some (Inr (s, r)) else qemud_serial_read recv s r from)"
  by (subst qemud_serial_read.simps) simp

text \<open>What one byte does.\<close>

definition serial_byte :: "'r serial_recv \<Rightarrow> qemud_serial \<Rightarrow> 'r \<Rightarrow> byte \<Rightarrow> (qemud_serial \<times> 'r) outcome option" where
  "serial_byte recv s r b =
     (if overflow s > 0 then Some (Inr (s, r))
      else if need_header s then
        (if sk_len (header s) + 1 < 6 then Some (Inr (header_byte s b, r))
         else
           (let s = parse_header (header_byte s b)
            in Some (Inr (if in_size s \<le> 0 \<or> in_channel s < 0 then s
                          else if in_size s > MAX_SERIAL_PAYLOAD then s\<lparr>overflow := in_size s\<rparr>
                          else enter_payload s, r))))
      else if sk_len (payload s) + 1 < sk_size (payload s) then Some (Inr (payload_byte s b, r))
      else
        (let s = payload_byte s b;
             s = s\<lparr>data0 := (data0 s)[nat (sk_size (payload s)) := 0]\<rparr>
         in obind (recv r (version s) (in_channel s) (take (nat (sk_size (payload s))) (data0 s)))
              (\<lambda>(r, v). Some (Inr (s\<lparr>version := v, need_header := True\<rparr>, r)))))"

lemma serial_byte_wf: "serial_wf s \<Longrightarrow> serial_byte recv s r b = Some (Inr (s', r')) \<Longrightarrow> serial_wf s'"
  using parse_header_wf [of s b]
  by (auto simp: serial_byte_def Let_def obind_eq_SomeInr split: if_splits)
    (auto simp: serial_wf_def header_byte_def payload_byte_def)

lemma serial_read_byte:
  assumes wf: "serial_wf s"
  shows "qemud_serial_read recv s r (b # bs) = obind (serial_byte recv s r b) (\<lambda>(s, r). qemud_serial_read recv s r bs)"
proof -
  have ov: "?thesis" if "overflow s > 0" using that by (simp add: serial_read_overflow serial_byte_def)
  have hm: "?thesis" if "\<not> overflow s > 0" "need_header s" "sk_len (header s) + 1 < 6"
  proof (cases "bs = []")
    case True
    then show ?thesis using header_more(2) [OF wf that(2,1,3), where recv = recv and r = r and b = b] that
      by (simp add: serial_read_pass serial_byte_def serial_read_Nil)
  next
    case False
    then show ?thesis using header_more(1) [OF wf that(2,1,3) False, where recv = recv and r = r and b = b] that
      by (simp add: serial_read_pass serial_byte_def)
  qed
  have hl: "?thesis" if "\<not> overflow s > 0" "need_header s" "sk_len (header s) + 1 = 6"
  proof -
    define s1 where "s1 = parse_header (header_byte s b)"
    consider "in_size s1 \<le> 0 \<or> in_channel s1 < 0" | "\<not> (in_size s1 \<le> 0 \<or> in_channel s1 < 0)" "in_size s1 > MAX_SERIAL_PAYLOAD"
      | (ok) "\<not> (in_size s1 \<le> 0 \<or> in_channel s1 < 0)" "\<not> in_size s1 > MAX_SERIAL_PAYLOAD" by blast
    then show ?thesis
    proof cases
      case ok
      let ?s = "enter_payload s1"
      have wf1: "serial_wf ?s" using parse_header_wf(2) [OF wf that(2), of b] ok by (simp add: s1_def)
      have nh: "\<not> need_header ?s" "overflow ?s = overflow s"
        by (simp_all add: enter_payload_def s1_def header_byte_def)
      show ?thesis
      proof (cases "bs = []")
        case True
        then show ?thesis
          using header_last [OF wf that(2,1,3), of recv r b bs] ok that payload_Nil [OF wf1 nh(1), where recv = recv and r = r]
          by (simp add: serial_read_pass serial_byte_def serial_read_Nil flip: s1_def)
      next
        case False
        then show ?thesis
          using header_last [OF wf that(2,1,3), of recv r b bs] ok that nh
          by (simp add: serial_read_pass serial_byte_def serial_pass_def [of _ ?s] flip: s1_def)
      qed
    qed (use header_last [OF wf that(2,1,3), of recv r b bs] that in
        \<open>simp_all add: serial_read_pass serial_byte_def flip: s1_def\<close>)
  qed
  have pm: "?thesis" if "\<not> overflow s > 0" "\<not> need_header s" "sk_len (payload s) + 1 < sk_size (payload s)"
  proof (cases "bs = []")
    case True
    then show ?thesis using payload_more(2) [OF wf that(2,3), where recv = recv and r = r and b = b] that
      by (simp add: serial_read_pass serial_pass_def serial_byte_def serial_read_Nil)
  next
    case False
    then show ?thesis using payload_more(1) [OF wf that(2,3) False, where recv = recv and r = r and b = b] that
      by (simp add: serial_read_pass serial_pass_def serial_byte_def) (simp add: payload_byte_def)
  qed
  have pl: "?thesis" if "\<not> overflow s > 0" "\<not> need_header s" "sk_len (payload s) + 1 = sk_size (payload s)"
    using payload_last [OF wf that(2,3), of recv r b bs] that
    by (simp add: serial_read_pass serial_pass_def serial_byte_def Let_def split: Option.bind_split sum.split)
  show ?thesis using ov hm hl pm pl wf by (fastforce simp: serial_wf_def)
qed

definition serial_reader :: "'r serial_recv \<Rightarrow> qemud_serial \<times> 'r \<Rightarrow> byte list \<Rightarrow> (qemud_serial \<times> 'r) outcome option" where
  "serial_reader recv st from = (case st of (s, r) \<Rightarrow> qemud_serial_read recv s r from)"

lemma serial_reader_one: "serial_wf s \<Longrightarrow> serial_reader recv (s, r) [b] = serial_byte recv s r b"
  by (simp add: serial_reader_def serial_read_byte serial_read_Nil split: Option.bind_split sum.split)

interpretation serial: stream_reader "\<lambda>st bs. serial_wf (fst st)" "serial_reader recv"
proof
  fix st st' :: "qemud_serial \<times> 'a" and x xs
  show "serial_reader recv st [] = Some (Inr st)" by (simp add: serial_reader_def serial_read_Nil split_def)
  assume wf: "serial_wf (fst st)"
  have "serial_reader recv st (x # xs) =
      obind (serial_byte recv (fst st) (snd st) x) (\<lambda>(s, r). qemud_serial_read recv s r xs)"
    using serial_read_byte [OF wf, of recv "snd st" x xs] by (simp add: serial_reader_def split_def)
  also have "\<dots> = obind (serial_reader recv st [x]) (\<lambda>st. serial_reader recv st xs)"
    using serial_reader_one [OF wf, of recv "snd st" x] 
    by (simp add: serial_reader_def [of _ _ xs] split: Option.bind_split sum.split)
  finally show "serial_reader recv st (x # xs) = obind (serial_reader recv st [x]) (\<lambda>st. serial_reader recv st xs)" .
  show "serial_reader recv st [x] = Some (Inr st') \<Longrightarrow> serial_wf (fst st')"
    using serial_reader_one [OF wf, of recv "snd st" x]
      serial_byte_wf [OF wf, where recv = recv and r = "snd st" and b = x and s' = "fst st'" and r' = "snd st'"]
    by simp
qed

section \<open>Packets that were sent are read back\<close>

lemma hexdigit_hexchars:
  assumes "0 \<le> d" "d < 16"
  shows "hexdigit (uint (hexchars ! nat d)) = d"
proof -
  have "\<forall>k \<in> set [0..<16]. hexdigit (uint (hexchars ! k)) = int k"
    by (simp add: hexchars_def hexdigit_def upt_rec)
  then have "hexdigit (uint (hexchars ! nat d)) = int (nat d)" using assms by (simp add: nat_less_iff)
  then show ?thesis using assms by simp
qed

lemma push_or_digit:
  assumes "0 \<le> d" "d < 16"
  shows "push_bit 4 a OR d = 16 * a + (d :: int)"
proof -
  have d: "take_bit 4 d = d" using assms by (simp add: take_bit_eq_mod)
  have "concat_bit 4 d a = d + push_bit 4 a" by (simp add: concat_bit_eq d)
  moreover have "concat_bit 4 d a = push_bit 4 a OR d"
    by (rule bit_eqI) (subst (2) d [symmetric], auto simp: bit_concat_bit_iff bit_or_iff bit_push_bit_iff bit_take_bit_iff)
  ultimately show ?thesis by (simp add: push_bit_eq_mult)
qed

lemma nibble: "drop_bit (n * 4) v AND 15 = (v :: int) div 16 ^ n mod 16"
proof -
  have "drop_bit (n * 4) v AND 15 = take_bit 4 (drop_bit (n * 4) v)"
    by (simp add: take_bit_eq_mask mask_eq_exp_minus_1)
  then show ?thesis by (simp add: take_bit_eq_mod drop_bit_eq_div power_mult mult.commute [of n])
qed

lemma hex2int_from_int2hex: "hex2int_from acc (int2hex n v) = acc * 16 ^ n + v mod 16 ^ n"
proof (induction n arbitrary: acc)
  case (Suc n)
  define d where "d = v div 16 ^ n mod 16"
  have d: "0 \<le> d" "d < 16" by (simp_all add: d_def)
  have "hex2int_from acc (int2hex (Suc n) v) = hex2int_from (16 * acc + d) (int2hex n v)"
    using d by (simp add: nibble hexdigit_hexchars push_or_digit Let_def flip: d_def)
  also have "\<dots> = acc * 16 ^ Suc n + (d * 16 ^ n + v mod 16 ^ n)" by (simp add: Suc.IH algebra_simps)
  also have "d * 16 ^ n + v mod 16 ^ n = v mod 16 ^ Suc n"
    using zmod_zmult2_eq [of 16 v "16 ^ n"] by (simp add: d_def mult.commute)
  finally show ?case .
qed simp

lemma hex2int_int2hex: "0 \<le> v \<Longrightarrow> v < 16 ^ n \<Longrightarrow> hex2int (int2hex n v) = v"
  by (simp add: hex2int_def hex2int_from_int2hex)
lemma length_int2hex: "length (int2hex n v) = n" by (induction n) auto

text \<open>A connection about to read a header sent by a peer that speaks version \<open>v\<close>.\<close>

definition serial_ready :: "qemud_version \<Rightarrow> qemud_serial \<Rightarrow> bool" where
  "serial_ready v s \<longleftrightarrow> serial_wf s \<and> need_header s \<and> sk_len (header s) = 0 \<and> overflow s \<le> 0 \<and>
     (version s = QEMUD_VERSION_LEGACY) = (v = QEMUD_VERSION_LEGACY)"

lemma packet_header_length: "length (packet_header v channel avail) = 6"
  by (simp add: packet_header_def length_int2hex qemud_sizes)

lemma fill_all:
  assumes "sk_len ss = 0" "0 < sk_size ss" "sk_size ss = int n" "n \<le> length buff" "length xs = n"
  shows "qemud_sink_fill ss buff (xs @ ys) = Inr (True, ss\<lparr>sk_len := sk_size ss\<rparr>, xs @ drop n buff, ys)"
  using assms by (subst fill_eq [where k = 0 and n = n]) (auto simp: memcpy_def)

lemma hex_size_1200:
  assumes "0 \<le> a" "a \<le> 4000"
  shows "int2hex CHANNEL_SIZE c @ int2hex LENGTH_SIZE a \<noteq> [48, 48, 49, 50, 48, 48]"
proof
  assume "int2hex CHANNEL_SIZE c @ int2hex LENGTH_SIZE a = [48, 48, 49, 50, 48, 48]"
  then have "drop 2 (int2hex CHANNEL_SIZE c @ int2hex LENGTH_SIZE a) = [49, 50, 48, 48]" by simp
  then have "int2hex 4 a = [49, 50, 48, 48]" by (simp add: qemud_sizes length_int2hex)
  then have "hex2int [49, 50, 48, 48] = a" using hex2int_int2hex [of a 4] assms by simp
  moreover have "hex2int [49, 50, 48, 48] = 4608" by (simp add: hex2int_def hexdigit_def Let_def)
  ultimately show False using assms by simp
qed

lemma parse_packet_header:
  assumes "data0 s = packet_header v channel avail @ rest" "(version s = QEMUD_VERSION_LEGACY) = (v = QEMUD_VERSION_LEGACY)"
    and "0 \<le> channel" "channel < 256" "0 < avail" "avail < 65536" "version s = QEMUD_VERSION_UNKNOWN \<Longrightarrow> avail \<le> 4000"
  shows "parse_header s = s\<lparr>version := (if v = QEMUD_VERSION_LEGACY then QEMUD_VERSION_LEGACY else QEMUD_VERSION_NORMAL),
     in_size := avail, in_channel := channel, header := (header s)\<lparr>sk_len := 0\<rparr>\<rparr>"
proof (cases "v = QEMUD_VERSION_LEGACY")
  case True
  then have "detect_version s = s" using assms(2) by (simp add: detect_version_def)
  then show ?thesis using True assms hex2int_int2hex [of channel 2] hex2int_int2hex [of avail 4]
    by (simp add: parse_header_def Let_def field_def packet_header_def length_int2hex qemud_sizes)
next
  case False
  then have h: "data0 s = (int2hex CHANNEL_SIZE channel @ int2hex LENGTH_SIZE avail) @ rest"
    using assms(1) by (simp add: packet_header_def)
  have l: "length (int2hex CHANNEL_SIZE channel @ int2hex LENGTH_SIZE avail) = 6"
    by (simp add: length_int2hex qemud_sizes)
  have "field s 0 6 = int2hex CHANNEL_SIZE channel @ int2hex LENGTH_SIZE avail"
    unfolding field_def h using l by simp
  then have "detect_version s = s\<lparr>version := QEMUD_VERSION_NORMAL\<rparr>"
    using hex_size_1200 [of avail channel] assms False by (cases "version s") (auto simp: detect_version_def)
  then show ?thesis using False h assms hex2int_int2hex [of channel 2] hex2int_int2hex [of avail 4]
    by (simp add: parse_header_def Let_def field_def packet_header_def length_int2hex qemud_sizes)
qed


text \<open>The version a connection settles on when its peer speaks \<open>v\<close>.\<close>

definition spoken :: "qemud_version \<Rightarrow> qemud_version" where
  "spoken v = (if v = QEMUD_VERSION_LEGACY then QEMUD_VERSION_LEGACY else QEMUD_VERSION_NORMAL)"

lemma read_payload_full:
  assumes "payload s = qemud_sink_reset (int (length p))" "p \<noteq> []" "length p \<le> 4000" "length (data0 s) = 4001"
    and "recv r (version s) (in_channel s) p = Some (Inr (r', v'))"
  shows "read_payload recv s r (p @ rest) = Some (Inr (False,
    s\<lparr>payload := \<lparr>sk_len = int (length p), sk_size = int (length p)\<rparr>,
      data0 := (p @ drop (length p) (data0 s))[length p := 0], version := v', need_header := True\<rparr>, r', rest))"
  using assms fill_all [of "payload s" "length p" "data0 s" p rest]
  by (simp add: read_payload_def qemud_sink_reset_def wr_def Let_def)

lemma read_packet:
  assumes rd: "serial_ready v s" and c: "0 \<le> channel" "channel < 256" and p: "p \<noteq> []" "length p \<le> 4000"
    and recv: "recv r (spoken v) channel p = Some (Inr (r', v'))"
    and v': "(v' = QEMUD_VERSION_LEGACY) = (v = QEMUD_VERSION_LEGACY)"
  shows "\<exists>s'. serial_ready v s' \<and> modem_legacy s' = modem_legacy s \<and>
    qemud_serial_read recv s r (packet_header v channel (int (length p)) @ p @ rest) = qemud_serial_read recv s' r' rest"
proof -
  let ?h = "packet_header v channel (int (length p))"
  define s1 where "s1 = s\<lparr>header := (header s)\<lparr>sk_len := 6\<rparr>, data0 := ?h @ drop 6 (data0 s)\<rparr>"
  define s2 where "s2 = s1\<lparr>version := spoken v, in_size := int (length p), in_channel := channel,
    header := (header s1)\<lparr>sk_len := 0\<rparr>\<rparr>"
  define s3 where "s3 = s2\<lparr>need_header := False, payload := qemud_sink_reset (int (length p))\<rparr>"
  define s4 where "s4 = s3\<lparr>payload := \<lparr>sk_len = int (length p), sk_size = int (length p)\<rparr>,
      data0 := (p @ drop (length p) (data0 s3))[length p := 0], version := v', need_header := True\<rparr>"
  have wf: "length (data0 s) = 4001" "sk_size (header s) = 6" "need_header s" "\<not> overflow s > 0"
    "sk_len (header s) = 0" "(version s = QEMUD_VERSION_LEGACY) = (v = QEMUD_VERSION_LEGACY)"
    using rd by (simp_all add: serial_ready_def serial_wf_def)
  have fill: "qemud_sink_fill (header s) (data0 s) (?h @ p @ rest) =
      Inr (True, (header s)\<lparr>sk_len := 6\<rparr>, ?h @ drop 6 (data0 s), p @ rest)"
    using fill_all [of "header s" 6 "data0 s" ?h "p @ rest"] wf by (simp add: packet_header_length)
  have parse: "parse_header s1 = s2"
    using parse_packet_header [of s1 v channel "int (length p)" "drop 6 (data0 s)"] wf c p
    by (simp add: s1_def s2_def spoken_def)
  have "serial_pass recv s r (?h @ p @ rest) = read_payload recv s3 r (p @ rest)"
    using wf p c fill parse
    by (simp add: serial_pass_def Let_def MAX_SERIAL_PAYLOAD_def flip: s1_def) (simp add: s2_def s3_def)
  also have "\<dots> = Some (Inr (False, s4, r', rest))"
    unfolding s4_def using wf p recv
    by (intro read_payload_full) (simp_all add: s3_def s2_def s1_def packet_header_length)
  finally have "qemud_serial_read recv s r (?h @ p @ rest) = qemud_serial_read recv s4 r' rest"
    using p by (simp add: serial_read_pass)
  moreover have "serial_ready v s4"
    using wf v' p by (simp add: serial_ready_def serial_wf_def s4_def s3_def s2_def s1_def packet_header_length)
  moreover have "modem_legacy s4 = modem_legacy s" by (simp add: s4_def s3_def s2_def s1_def)
  ultimately show ?thesis by blast
qed

text \<open>The payloads the packetizing loop makes of the bytes of a message.\<close>

function chunks :: "byte list \<Rightarrow> byte list list" where
  "chunks bs = (if bs = [] then [] else take 4000 bs # chunks (drop 4000 bs))"
  by pat_completeness auto
termination by (relation "measure length") auto

declare chunks.simps [simp del]

lemma chunks_Nil [simp]: "chunks [] = []" by (subst chunks.simps) simp

lemma chunks_bounds: "p \<in> set (chunks bs) \<Longrightarrow> p \<noteq> [] \<and> length p \<le> 4000"
  by (induction bs rule: chunks.induct) (subst (asm) chunks.simps, auto split: if_splits)

lemma concat_chunks: "concat (chunks bs) = bs"
  by (induction bs rule: chunks.induct) (subst chunks.simps, auto)

lemma send_loop_packets:
  assumes "len = int (length msg) + (if framing then 4 else 0)"
  shows "\<exists>ws. send_loop v channel framing msglen msg len = Inr ws \<and>
    concat ws = concat (map (\<lambda>p. packet_header v channel (int (length p)) @ p)
      (chunks ((if framing then int2hex 4 msglen else []) @ msg)))"
  using assms
proof (induction "nat len" arbitrary: framing msg len rule: less_induct)
  case less
  show ?case
  proof (cases "len \<le> 0")
    case True
    with less.prems show ?thesis by (auto simp: send_loop.simps split: if_splits)
  next
    case False
    let ?f = "if framing then int2hex 4 msglen else []"
    define n where "n = nat (if len > 4000 then 4000 else len) - length ?f"
    have f: "length ?f = (if framing then 4 else 0)" by (simp add: length_int2hex)
    have n: "n \<le> length msg" "(if len > 4000 then 4000 else len) = int (length (take 4000 (?f @ msg)))"
      "take 4000 (?f @ msg) = ?f @ take n msg" "drop 4000 (?f @ msg) = drop n msg"
      using less.prems False by (auto simp: n_def length_int2hex)
    define hdr where "hdr = packet_header v channel (if len > 4000 then 4000 else len)"
    define fr where "fr = (if framing then [int2hex 4 msglen] else [])"
    have step: "send_loop v channel framing msglen msg len =
        map_sum id (\<lambda>ws. hdr # fr @ take n msg # ws) (send_loop v channel False msglen (drop n msg) (int (length (drop n msg))))"
      using False less.prems n(1) by (subst send_loop.simps) (auto simp: qemud_sizes Let_def n_def length_int2hex hdr_def fr_def)
    have "\<exists>ws. send_loop v channel False msglen (drop n msg) (int (length (drop n msg))) = Inr ws \<and>
        concat ws = concat (map (\<lambda>p. packet_header v channel (int (length p)) @ p) (chunks (drop n msg)))"
      using less.hyps [of "int (length (drop n msg))" "drop n msg" False] False less.prems
      by (auto simp: n_def length_int2hex split: if_splits)
    then obtain ws where ws: "send_loop v channel framing msglen msg len = Inr (hdr # fr @ take n msg # ws)"
      "concat ws = concat (map (\<lambda>p. packet_header v channel (int (length p)) @ p) (chunks (drop n msg)))"
      using step by auto
    have "?f @ msg \<noteq> []" using False less.prems f by auto
    then have "chunks (?f @ msg) = (?f @ take n msg) # chunks (drop n msg)"
      by (subst chunks.simps) (simp only: n(3,4) if_False)
    moreover have "hdr = packet_header v channel (int (length (?f @ take n msg)))"
      by (simp only: hdr_def n(2) n(3))
    moreover have "concat fr = ?f" by (simp add: fr_def)
    ultimately show ?thesis using ws by (intro exI [of _ "hdr # fr @ take n msg # ws"]) simp
  qed
qed

lemma read_packets:
  assumes "serial_ready v s" and c: "0 \<le> channel" "channel < 256" and "\<forall>p \<in> set ps. p \<noteq> [] \<and> length p \<le> 4000"
    and recv: "\<And>r p. recv r (spoken v) channel p = Some (Inr (app r p, spoken v))"
  shows "\<exists>s'. serial_ready v s' \<and> modem_legacy s' = modem_legacy s \<and>
    qemud_serial_read recv s r (concat (map (\<lambda>p. packet_header v channel (int (length p)) @ p) ps)) = Some (Inr (s', foldl app r ps))"
  using assms(1,4)
proof (induction ps arbitrary: s r)
  case Nil
  then show ?case by (auto simp: serial_read_Nil)
next
  case (Cons p ps)
  let ?rest = "concat (map (\<lambda>p. packet_header v channel (int (length p)) @ p) ps)"
  have v: "(spoken v = QEMUD_VERSION_LEGACY) = (v = QEMUD_VERSION_LEGACY)" by (simp add: spoken_def)
  have p: "p \<noteq> []" "length p \<le> 4000" using Cons.prems(2) by simp_all
  obtain s1 where s1: "serial_ready v s1" "modem_legacy s1 = modem_legacy s"
    "qemud_serial_read recv s r (packet_header v channel (int (length p)) @ p @ ?rest) = qemud_serial_read recv s1 (app r p) ?rest"
    using read_packet [where recv = recv and r = r and rest = ?rest, OF Cons.prems(1) c p recv v] by blast
  with Cons.IH [OF s1(1), of "app r p"] Cons.prems(2) show ?case by auto
qed

text \<open>A receiver that writes down what it gets.\<close>

definition recorder :: "(int \<times> byte list) list serial_recv" where
  "recorder log v channel msg = Some (Inr (log @ [(channel, msg)], v))"

lemma recorder_foldl: "foldl (\<lambda>log p. log @ [(channel, p)]) log ps = log @ map (Pair channel) ps"
  by (induction ps arbitrary: log) simp_all

text \<open>The bytes a peer should get for a message.\<close>

definition framed :: "bool \<Rightarrow> byte list \<Rightarrow> byte list" where
  "framed framing msg = (if framing \<and> msg \<noteq> [] then int2hex 4 (int (length msg)) @ msg else msg)"

lemma serial_send_packets:
  "0 \<le> channel \<Longrightarrow> \<exists>ws. qemud_serial_send v channel framing msg = Inr ws \<and>
    concat ws = concat (map (\<lambda>p. packet_header v channel (int (length p)) @ p) (chunks (framed framing msg)))"
  using send_loop_packets [of _ msg framing v channel "int (length msg)"]
  by (cases "msg = []") (auto simp: qemud_serial_send_def framed_def Let_def qemud_sizes)

lemma serial_transfer:
  assumes "serial_ready v s" "0 \<le> channel" "channel < 256"
  shows "\<exists>ws s'. qemud_serial_send v channel framing msg = Inr ws \<and> serial_ready v s' \<and>
    (\<forall>xss. concat xss = concat ws \<longrightarrow>
       read_pieces (serial_reader recorder) (s, log) xss = Some (Inr (s', log @ map (Pair channel) (chunks (framed framing msg)))))"
proof -
  let ?ps = "chunks (framed framing msg)"
  obtain ws where ws: "qemud_serial_send v channel framing msg = Inr ws"
    "concat ws = concat (map (\<lambda>p. packet_header v channel (int (length p)) @ p) ?ps)"
    using serial_send_packets [OF assms(2), of v framing msg] by blast
  obtain s' where s': "serial_ready v s'"
    "qemud_serial_read recorder s log (concat ws) = Some (Inr (s', log @ map (Pair channel) ?ps))"
    using read_packets [where recv = recorder and app = "\<lambda>log p. log @ [(channel, p)]" and r = log and ps = ?ps, OF assms]
      chunks_bounds ws(2) by (auto simp: recorder_def recorder_foldl)
  have "read_pieces (serial_reader recorder) (s, log) xss = Some (Inr (s', log @ map (Pair channel) ?ps))"
    if "concat xss = concat ws" for xss
    using serial.read_pieces_concat [of "(s, log)" recorder xss] that assms(1) s'(2)
    by (simp add: serial_ready_def serial_reader_def)
  with ws(1) s'(1) show ?thesis by blast
qed

lemma huge_packet_blocks:
  assumes rd: "serial_ready v s" and v: "version s = v" "v \<noteq> QEMUD_VERSION_UNKNOWN" and c: "0 \<le> channel" "channel < 256"
    and n: "4000 < len" "len < 65536"
  shows "\<exists>s'. qemud_serial_read recv s r (packet_header v channel len @ bs) = Some (Inr (s', r)) \<and>
    qemud_serial_can_read s' = len \<and> (\<forall>bs r. qemud_serial_read recv s' r bs = Some (Inr (s', r)))"
proof -
  let ?h = "packet_header v channel len"
  define s1 where "s1 = s\<lparr>header := (header s)\<lparr>sk_len := 6\<rparr>, data0 := ?h @ drop 6 (data0 s)\<rparr>"
  have wf: "length (data0 s) = 4001" "sk_size (header s) = 6" "need_header s" "\<not> overflow s > 0" "sk_len (header s) = 0"
    using rd by (simp_all add: serial_ready_def serial_wf_def)
  have fill: "qemud_sink_fill (header s) (data0 s) (?h @ bs) =
      Inr (True, (header s)\<lparr>sk_len := 6\<rparr>, ?h @ drop 6 (data0 s), bs)"
    using fill_all [of "header s" 6 "data0 s" ?h bs] wf by (simp add: packet_header_length)
  have parse: "in_size (parse_header s1) = len" "in_channel (parse_header s1) = channel"
    using parse_packet_header [of s1 v channel len "drop 6 (data0 s)"] v n c by (simp_all add: s1_def)
  let ?s = "(parse_header s1)\<lparr>overflow := len\<rparr>"
  have "serial_pass recv s r (?h @ bs) = Some (Inr (False, ?s, r, bs))"
    using wf n c fill parse by (simp add: serial_pass_def Let_def MAX_SERIAL_PAYLOAD_def flip: s1_def)
  moreover have "?h @ bs \<noteq> []" using packet_header_length [of v channel len] by auto
  moreover have "overflow ?s > 0" using n by simp
  ultimately show ?thesis using serial_read_overflow [of ?s recv] n
    by (intro exI [of _ ?s]) (simp add: serial_read_pass qemud_serial_can_read_def)
qed

lemma init_ready: "v \<noteq> QEMUD_VERSION_LEGACY \<Longrightarrow> serial_ready v (fst qemud_serial_init)"
  by (simp add: serial_ready_def serial_wf_def qemud_serial_init_def qemud_sink_reset_def qemud_sizes)


lemma serial_byte_total:
  assumes "serial_wf s"
    and "\<And>r v c msg. 1 \<le> length msg \<Longrightarrow> length msg \<le> 4000 \<Longrightarrow> \<exists>r' v'. recv r v c msg = Some (Inr (r', v'))"
  shows "\<exists>s' r'. serial_byte recv s r b = Some (Inr (s', r'))"
proof -
  define s1 where "s1 = payload_byte s b"
  define m where "m = take (nat (sk_size (payload s1))) ((data0 s1)[nat (sk_size (payload s1)) := 0])"
  have "1 \<le> length m \<and> length m \<le> 4000" if "\<not> need_header s"
    using assms(1) that by (auto simp: serial_wf_def m_def s1_def payload_byte_def)
  then have "\<not> need_header s \<Longrightarrow> \<exists>r' v'. recv r (version s1) (in_channel s1) m = Some (Inr (r', v'))"
    using assms(2) by blast
  then show ?thesis by (auto simp: serial_byte_def Let_def s1_def m_def)
qed

lemma serial_read_inv:
  assumes "serial_wf s" and inv: "\<forall>r v c msg r' v'. I r \<longrightarrow> recv r v c msg = Some (Inr (r', v')) \<longrightarrow> I r'"
    and "I r" and "qemud_serial_read recv s r bs = Some (Inr (s', r'))"
  shows "serial_wf s' \<and> I r'"
  using assms(1,3,4)
proof (induction bs arbitrary: s r)
  case Nil
  then show ?case by (simp add: serial_read_Nil)
next
  case (Cons b bs)
  from Cons.prems(3) obtain s1 r1 where 1: "serial_byte recv s r b = Some (Inr (s1, r1))"
    "qemud_serial_read recv s1 r1 bs = Some (Inr (s', r'))"
    unfolding serial_read_byte [OF Cons.prems(1)] obind_eq_SomeInr by auto
  have "I r1" using 1(1) inv Cons.prems(2)
    by (auto simp: serial_byte_def Let_def obind_eq_SomeInr split: if_splits) blast
  then show ?case using Cons.IH [OF serial_byte_wf [OF Cons.prems(1) 1(1)] _ 1(2)] by blast
qed

section \<open>Properties\<close>

text \<open>
  Remark (equivalence). The serial port may hand the bytes over in any pieces: reading the pieces one by one
  with \<open>qemud_serial_read\<close> has the same result, and gives the receiver the same messages, as reading
  them at once.
\<close>

theorem qemud_serial_pieces:
  assumes "serial_wf s"
  shows "read_pieces (serial_reader recv) (s, r) xss = qemud_serial_read recv s r (concat xss)"
  using serial.read_pieces_concat [of "(s, r)" recv xss] assms by (simp add: serial_reader_def)

theorem qemud_serial_pieces_witness:
  "serial_wf (fst qemud_serial_init) \<and>
   read_pieces (serial_reader recorder) (fst qemud_serial_init, []) [[48, 49], [48, 48, 48], [49, 65]] =
   qemud_serial_read recorder (fst qemud_serial_init) [] [48, 49, 48, 48, 48, 49, 65]"
  using init_ready [of QEMUD_VERSION_NORMAL]
    qemud_serial_pieces [of "fst qemud_serial_init" recorder "[]" "[[48, 49], [48, 48, 48], [49, 65]]"]
  by (simp add: serial_ready_def)



text \<open>
  Property C12 (roundtrip). What \<open>qemud_serial_send\<close> writes for a message, in whatever pieces it arrives, is read back by
  \<open>qemud_serial_read\<close> as packets of 1 to 4000 bytes, all on the channel of the message, whose
  payloads together are the message, after its length in four hexadecimal digits when it is framed;
  the reader is ready for the next message afterwards.
\<close>

theorem qemud_serial_roundtrip:
  assumes "serial_ready v s" and "0 \<le> channel" and "channel < 256"
  shows "\<exists>ws s' ps. qemud_serial_send v channel framing msg = Inr ws \<and> serial_ready v s' \<and>
    concat ps = (if framing \<and> msg \<noteq> [] then int2hex FRAME_HEADER_SIZE (int (length msg)) @ msg else msg) \<and>
    list_all (\<lambda>p. 1 \<le> length p \<and> int (length p) \<le> MAX_SERIAL_PAYLOAD) ps \<and>
    (\<forall>xss. concat xss = concat ws \<longrightarrow>
       read_pieces (serial_reader recorder) (s, log) xss = Some (Inr (s', log @ map (Pair channel) ps)))"
proof -
  have "concat (chunks (framed framing msg)) =
      (if framing \<and> msg \<noteq> [] then int2hex FRAME_HEADER_SIZE (int (length msg)) @ msg else msg)"
    by (simp add: concat_chunks framed_def qemud_sizes)
  moreover have "list_all (\<lambda>p. 1 \<le> length p \<and> int (length p) \<le> MAX_SERIAL_PAYLOAD) (chunks (framed framing msg))"
    using chunks_bounds by (fastforce simp: list_all_iff qemud_sizes Suc_le_eq)
  ultimately show ?thesis using serial_transfer [OF assms, of framing msg log] by blast
qed

theorem qemud_serial_roundtrip_witness:
  "\<exists>ws s' ps. qemud_serial_send QEMUD_VERSION_NORMAL 2 True [72, 105] = Inr ws \<and> serial_ready QEMUD_VERSION_NORMAL s' \<and>
    concat ps = [48, 48, 48, 50, 72, 105] \<and>
    list_all (\<lambda>p. 1 \<le> length p \<and> int (length p) \<le> MAX_SERIAL_PAYLOAD) ps \<and>
    (\<forall>xss. concat xss = concat ws \<longrightarrow>
       read_pieces (serial_reader recorder) (fst qemud_serial_init, []) xss = Some (Inr (s', map (Pair 2) ps)))"
proof -
  have "int2hex FRAME_HEADER_SIZE (int (length [72 :: byte, 105])) @ [72, 105] = [48, 48, 48, 50, 72, 105]"
    by (simp add: qemud_sizes numeral_eq_Suc hexchars_def)
  with qemud_serial_roundtrip [OF init_ready, of QEMUD_VERSION_NORMAL 2 True "[72, 105]" "[]"]
  show ?thesis by simp
qed

text \<open>
  Remark (error). A header that announces more than 4000 bytes blocks the connection: from then on the
  reader asks for that many bytes and drops everything it is given, whatever and however much it is,
  since the count of bytes to skip is never reduced.
\<close>

theorem qemud_huge_packet_blocks:
  assumes "serial_ready v s" and "version s = v" and "v \<noteq> QEMUD_VERSION_UNKNOWN"
    and "0 \<le> channel" and "channel < 256" and "MAX_SERIAL_PAYLOAD < len" and "len < 65536"
  shows "\<exists>s'. qemud_serial_read recv s r (packet_header v channel len @ bs) = Some (Inr (s', r)) \<and>
    qemud_serial_can_read s' = len \<and> (\<forall>bs r. qemud_serial_read recv s' r bs = Some (Inr (s', r)))"
  using assms by (intro huge_packet_blocks) (simp_all add: MAX_SERIAL_PAYLOAD_def)

theorem qemud_huge_packet_blocks_witness:
  "\<exists>s'. qemud_serial_read recorder ((fst qemud_serial_init)\<lparr>version := QEMUD_VERSION_NORMAL\<rparr>) []
      (packet_header QEMUD_VERSION_NORMAL 1 4001 @ replicate 5000 65) = Some (Inr (s', [])) \<and>
    qemud_serial_can_read s' = 4001 \<and> (\<forall>bs r. qemud_serial_read recorder s' r bs = Some (Inr (s', r)))"
  using init_ready [of QEMUD_VERSION_NORMAL]
  by (intro qemud_huge_packet_blocks) (simp_all add: serial_ready_def serial_wf_def MAX_SERIAL_PAYLOAD_def)

end
