(* ===== verification/Qemud_Client.thy ===== *)
theory Qemud_Client
  imports Qemud_Serial
begin

unbundle bit_operations_syntax

text \<open>
  The clients of the \<open>qemud\<close> multiplexer (\<open>android/hw-qemud.c\<close>): what a client does with the payloads
  that arrive on its channel, and the optional framing that puts the length of a message, in four
  hexadecimal digits, before it.

  The receive callback of a service is a parameter. It gets a message and the client, and returns
  the client, or \<open>None\<close> when it closed (freed) it; a use of the client after that is undefined. The
  content of a freshly allocated payload buffer is written as zeros; it is overwritten before it is
  read.
\<close>

section \<open>The client\<close>

record qemud_client =
  channel :: int
  framing :: bool
  c_need_header :: bool
  c_header :: qemud_sink
  header0 :: "byte list"
  c_payload :: qemud_sink
  payload_buff :: "byte list"

definition qemud_client_alloc :: "int \<Rightarrow> qemud_client" where
  "qemud_client_alloc channel_id =
     \<lparr>channel = channel_id, framing = False, c_need_header = True,
      c_header = qemud_sink_reset (int FRAME_HEADER_SIZE), header0 = replicate FRAME_HEADER_SIZE 0,
      c_payload = \<lparr>sk_len = 0, sk_size = 0\<rparr>, payload_buff = []\<rparr>"

definition qemud_client_set_framing :: "qemud_client \<Rightarrow> bool \<Rightarrow> qemud_client" where
  "qemud_client_set_framing client fr =
     (if framing client \<and> \<not> c_need_header client
      then client\<lparr>payload_buff := [], c_need_header := True, framing := fr\<rparr>
      else client\<lparr>framing := fr\<rparr>)"

definition qemud_client_send :: "qemud_version \<Rightarrow> qemud_client \<Rightarrow> byte list \<Rightarrow> byte list list outcome" where
  "qemud_client_send v client msg = qemud_serial_send v (channel client) (framing client) msg"

type_synonym 'r client_recv = "'r \<Rightarrow> byte list \<Rightarrow> qemud_client \<Rightarrow> ('r \<times> qemud_client option) outcome option"

text \<open>The call of \<open>clie_recv\<close>, which may be null.\<close>

definition clie_recv :: "'r client_recv option \<Rightarrow> 'r \<Rightarrow> byte list \<Rightarrow> qemud_client \<Rightarrow> ('r \<times> qemud_client option) outcome option" where
  "clie_recv recv r msg c = (case recv of None \<Rightarrow> Some (Inr (r, Some c)) | Some f \<Rightarrow> f r msg c)"

type_synonym 'r client_pass_result = "(bool \<times> qemud_client option \<times> 'r \<times> byte list) outcome option"

definition read_frame :: "'r client_recv option \<Rightarrow> qemud_client \<Rightarrow> 'r \<Rightarrow> byte list \<Rightarrow> 'r client_pass_result" where
  "read_frame recv c r msg =
     (case qemud_sink_fill (c_payload c) (payload_buff c) msg of
        Inl e \<Rightarrow> Some (Inl e)
      | Inr (full, ss, b, msg) \<Rightarrow>
          (let c = c\<lparr>c_payload := ss, payload_buff := b\<rparr>
           in if \<not> full then Some (Inr (True, Some c, r, msg))
              else
                (case wr (payload_buff c) (sk_size (c_payload c)) 0 of
                   None \<Rightarrow> Some (Inl Undefined)
                 | Some d \<Rightarrow>
                     (let c = c\<lparr>payload_buff := d, c_need_header := True\<rparr>
                      in obind (clie_recv recv r (take (nat (sk_size (c_payload c))) (payload_buff c)) c)
                           (\<lambda>(r, co). Some (Inr (False, co, r, msg)))))))"

text \<open>One pass of the loop of \<open>qemud_client_recv\<close>; \<open>True\<close> leaves the loop.\<close>

definition client_pass :: "'r client_recv option \<Rightarrow> qemud_client \<Rightarrow> 'r \<Rightarrow> byte list \<Rightarrow> 'r client_pass_result" where
  "client_pass recv c r msg =
     (if c_need_header c then
        (case qemud_sink_fill (c_header c) (header0 c) msg of
           Inl e \<Rightarrow> Some (Inl e)
         | Inr (full, ss, b, msg) \<Rightarrow>
             (let c = c\<lparr>c_header := ss, header0 := b\<rparr>
              in if \<not> full then Some (Inr (True, Some c, r, msg))
                 else
                   (let frame_size = hex2int (take 4 (header0 c))
                    in if frame_size = 0 then Some (Inr (False, Some c, r, msg))
                       else if frame_size < 0 then Some (Inr (False, Some c, r, msg))
                       else read_frame recv
                              (c\<lparr>payload_buff := replicate (nat frame_size + 1) 0,
                                 c_payload := qemud_sink_reset frame_size, c_need_header := False,
                                 c_header := (c_header c)\<lparr>sk_len := 0\<rparr>\<rparr>) r msg)))
      else read_frame recv c r msg)"

partial_function (option) client_loop ::
  "'r client_recv option \<Rightarrow> qemud_client option \<Rightarrow> 'r \<Rightarrow> byte list \<Rightarrow> (qemud_client option \<times> 'r) outcome option" where
  "client_loop recv co r msg =
     (if msg = [] then Some (Inr (co, r))
      else
        (case co of
           None \<Rightarrow> Some (Inl Undefined)
         | Some c \<Rightarrow>
             obind (client_pass recv c r msg) (\<lambda>(stop, co, r, msg).
               if stop then Some (Inr (co, r)) else client_loop recv co r msg)))"

definition qemud_client_recv ::
  "'r client_recv option \<Rightarrow> qemud_client \<Rightarrow> 'r \<Rightarrow> byte list \<Rightarrow> (qemud_client option \<times> 'r) outcome option" where
  "qemud_client_recv recv c r msg =
     (if \<not> framing c then obind (clie_recv recv r msg c) (\<lambda>(r, co). Some (Inr (co, r)))
      else if length msg > FRAME_HEADER_SIZE \<and> c_need_header c \<and> qemud_sink_needed (c_header c) = 0 \<and>
              hex2int (take FRAME_HEADER_SIZE msg) \<ge> 0 \<and>
              int (length msg) = hex2int (take FRAME_HEADER_SIZE msg) + int FRAME_HEADER_SIZE
      then obind (clie_recv recv r (drop FRAME_HEADER_SIZE msg) c) (\<lambda>(r, co). Some (Inr (co, r)))
      else client_loop recv (Some c) r msg)"

section \<open>Streams of frames\<close>

text \<open>A callback that leaves the client alone.\<close>

definition handles :: "('r \<Rightarrow> byte list \<Rightarrow> 'r outcome option) \<Rightarrow> 'r client_recv option" where
  "handles f = Some (\<lambda>r msg c. obind (f r msg) (\<lambda>r. Some (Inr (r, Some c))))"

definition client_reader :: "('r \<Rightarrow> byte list \<Rightarrow> 'r outcome option) \<Rightarrow> qemud_client \<times> 'r \<Rightarrow> byte list \<Rightarrow>
    (qemud_client \<times> 'r) outcome option" where
  "client_reader f st msg =
     obind (qemud_client_recv (handles f) (fst st) (snd st) msg) (\<lambda>(co, r).
       case co of None \<Rightarrow> Some (Inl Undefined) | Some c \<Rightarrow> Some (Inr (c, r)))"

text \<open>A framing client between two bytes.\<close>

definition client_wf :: "qemud_client \<Rightarrow> bool" where
  "client_wf c \<longleftrightarrow> framing c \<and> length (header0 c) = 4 \<and> sk_size (c_header c) = 4 \<and>
     0 \<le> sk_len (c_header c) \<and> sk_len (c_header c) < 4 \<and>
     (c_need_header c \<or> sk_len (c_header c) = 0 \<and> 0 \<le> sk_len (c_payload c) \<and> sk_len (c_payload c) < sk_size (c_payload c) \<and>
        int (length (payload_buff c)) = sk_size (c_payload c) + 1)"

text \<open>Bytes that are frames with a positive length each, the last one perhaps cut.\<close>

function frames_ok :: "byte list \<Rightarrow> bool" where
  "frames_ok bs =
     (if length bs < 4 then True
      else hex2int (take 4 bs) > 0 \<and> frames_ok (drop (4 + nat (hex2int (take 4 bs))) bs))"
  by pat_completeness auto
termination by (relation "measure length") auto

declare frames_ok.simps [simp del]

definition client_ok :: "qemud_client \<times> 'r \<Rightarrow> byte list \<Rightarrow> bool" where
  "client_ok st bs \<longleftrightarrow> client_wf (fst st) \<and>
     (if c_need_header (fst st) then frames_ok (take (nat (sk_len (c_header (fst st)))) (header0 (fst st)) @ bs)
      else frames_ok (drop (nat (sk_size (c_payload (fst st)) - sk_len (c_payload (fst st)))) bs))"

lemma frames_ok_prefix: "frames_ok (xs @ ys) \<Longrightarrow> frames_ok xs"
proof (induction "length xs" arbitrary: xs ys rule: less_induct)
  case less
  show ?case
  proof (cases "length xs < 4")
    case False
    let ?n = "4 + nat (hex2int (take 4 xs))"
    have "hex2int (take 4 xs) > 0" "frames_ok (drop ?n (xs @ ys))"
      using less.prems False by (subst (asm) frames_ok.simps, simp)+
    then show ?thesis using less.hyps [of "drop ?n xs" "drop (?n - length xs) ys"] False by (subst frames_ok.simps) auto
  qed (simp add: frames_ok.simps)
qed

text \<open>What one byte does, when the frame it belongs to is not empty.\<close>

definition c_header_byte :: "qemud_client \<Rightarrow> byte \<Rightarrow> qemud_client" where
  "c_header_byte c b = c\<lparr>c_header := (c_header c)\<lparr>sk_len := sk_len (c_header c) + 1\<rparr>,
     header0 := (header0 c)[nat (sk_len (c_header c)) := b]\<rparr>"

definition c_payload_byte :: "qemud_client \<Rightarrow> byte \<Rightarrow> qemud_client" where
  "c_payload_byte c b = c\<lparr>c_payload := (c_payload c)\<lparr>sk_len := sk_len (c_payload c) + 1\<rparr>,
     payload_buff := (payload_buff c)[nat (sk_len (c_payload c)) := b]\<rparr>"

definition enter_frame :: "qemud_client \<Rightarrow> qemud_client" where
  "enter_frame c = (let n = hex2int (take 4 (header0 c))
     in c\<lparr>payload_buff := replicate (nat n + 1) 0, c_payload := qemud_sink_reset n, c_need_header := False,
          c_header := (c_header c)\<lparr>sk_len := 0\<rparr>\<rparr>)"

definition leave_frame :: "qemud_client \<Rightarrow> qemud_client" where
  "leave_frame c = c\<lparr>payload_buff := (payload_buff c)[nat (sk_size (c_payload c)) := 0], c_need_header := True\<rparr>"

definition client_byte :: "('r \<Rightarrow> byte list \<Rightarrow> 'r outcome option) \<Rightarrow> qemud_client \<Rightarrow> 'r \<Rightarrow> byte \<Rightarrow>
    (qemud_client \<times> 'r) outcome option" where
  "client_byte f c r b =
     (if c_need_header c then
        (if sk_len (c_header c) + 1 < 4 then Some (Inr (c_header_byte c b, r))
         else Some (Inr (enter_frame (c_header_byte c b), r)))
      else if sk_len (c_payload c) + 1 < sk_size (c_payload c) then Some (Inr (c_payload_byte c b, r))
      else
        (let c = leave_frame (c_payload_byte c b)
         in obind (f r (take (nat (sk_size (c_payload c))) (payload_buff c))) (\<lambda>r. Some (Inr (c, r)))))"

lemma client_wf_byte:
  assumes "client_wf c"
  shows "c_need_header c \<Longrightarrow> sk_len (c_header c) + 1 < 4 \<Longrightarrow> client_wf (c_header_byte c b)"
    and "c_need_header c \<Longrightarrow> hex2int (take 4 (header0 (c_header_byte c b))) > 0 \<Longrightarrow> client_wf (enter_frame (c_header_byte c b))"
    and "\<not> c_need_header c \<Longrightarrow> sk_len (c_payload c) + 1 < sk_size (c_payload c) \<Longrightarrow> client_wf (c_payload_byte c b)"
    and "\<not> c_need_header c \<Longrightarrow> client_wf (leave_frame (c_payload_byte c b))"
  using assms
  by (auto simp: client_wf_def c_header_byte_def enter_frame_def c_payload_byte_def leave_frame_def Let_def qemud_sink_reset_def)

lemma frame_more:
  assumes "client_wf c" "\<not> c_need_header c" "sk_len (c_payload c) + 1 < sk_size (c_payload c)"
  shows "bs \<noteq> [] \<Longrightarrow> read_frame recv c r (b # bs) = read_frame recv (c_payload_byte c b) r bs"
    and "read_frame recv c r [b] = Some (Inr (True, Some (c_payload_byte c b), r, []))"
  using assms fill_more [of "c_payload c" "payload_buff c" bs b] fill_one(1) [of "c_payload c" "payload_buff c" b]
  by (auto simp: client_wf_def read_frame_def c_payload_byte_def split: sum.split prod.split)

lemma frame_last:
  assumes "client_wf c" "\<not> c_need_header c" "sk_len (c_payload c) + 1 = sk_size (c_payload c)"
  shows "read_frame recv c r (b # bs) =
    (let c = leave_frame (c_payload_byte c b)
     in obind (clie_recv recv r (take (nat (sk_size (c_payload c))) (payload_buff c)) c) (\<lambda>(r, co). Some (Inr (False, co, r, bs))))"
  using assms fill_one(2) [of "c_payload c" "payload_buff c" b bs]
  by (simp add: client_wf_def read_frame_def c_payload_byte_def leave_frame_def wr_def Let_def)

lemma frame_Nil:
  assumes "client_wf c" "\<not> c_need_header c"
  shows "read_frame recv c r [] = Some (Inr (True, Some c, r, []))"
  using assms fill_one(3) [of "c_payload c" "payload_buff c"] by (simp add: client_wf_def read_frame_def)

lemma c_header_more:
  assumes "client_wf c" "c_need_header c" "sk_len (c_header c) + 1 < 4"
  shows "bs \<noteq> [] \<Longrightarrow> client_pass recv c r (b # bs) = client_pass recv (c_header_byte c b) r bs"
    and "client_pass recv c r [b] = Some (Inr (True, Some (c_header_byte c b), r, []))"
  using assms fill_more [of "c_header c" "header0 c" bs b] fill_one(1) [of "c_header c" "header0 c" b]
  by (auto simp: client_wf_def client_pass_def c_header_byte_def split: sum.split prod.split)

lemma c_header_last:
  assumes "client_wf c" "c_need_header c" "sk_len (c_header c) + 1 = 4"
    and "hex2int (take 4 (header0 (c_header_byte c b))) > 0"
  shows "client_pass recv c r (b # bs) = read_frame recv (enter_frame (c_header_byte c b)) r bs"
  using assms fill_one(2) [of "c_header c" "header0 c" b bs]
  by (auto simp: client_wf_def client_pass_def c_header_byte_def enter_frame_def Let_def)

lemma client_loop_Nil: "client_loop recv co r [] = Some (Inr (co, r))"
  by (subst client_loop.simps) simp

lemma client_loop_pass:
  "msg \<noteq> [] \<Longrightarrow> client_loop recv (Some c) r msg =
     obind (client_pass recv c r msg) (\<lambda>(stop, co, r, msg).
       if stop then Some (Inr (co, r)) else client_loop recv co r msg)"
  by (subst client_loop.simps) simp

lemma client_recv_loop: "client_wf c \<Longrightarrow> qemud_client_recv recv c r msg = client_loop recv (Some c) r msg"
  by (simp add: qemud_client_recv_def client_wf_def qemud_sink_needed_def)

lemma client_loop_byte:
  assumes wf: "client_wf c" and h: "c_need_header c \<Longrightarrow> sk_len (c_header c) + 1 = 4 \<Longrightarrow> hex2int (take 4 (header0 (c_header_byte c b))) > 0"
  shows "client_loop (handles f) (Some c) r (b # bs) =
    obind (client_byte f c r b) (\<lambda>(c, r). client_loop (handles f) (Some c) r bs)"
proof -
  have hm: "?thesis" if "c_need_header c" "sk_len (c_header c) + 1 < 4"
    using c_header_more(1) [OF wf that, where recv = "handles f" and r = r and b = b and bs = bs]
      c_header_more(2) [OF wf that, where recv = "handles f" and r = r and b = b] that
    by (cases "bs = []") (simp_all add: client_loop_pass client_byte_def client_loop_Nil)
  have hl: "?thesis" if "c_need_header c" "sk_len (c_header c) + 1 = 4"
  proof -
    let ?c = "enter_frame (c_header_byte c b)"
    have c: "client_wf ?c" "\<not> c_need_header ?c" using client_wf_byte(2) [OF wf that(1) h] that
      by (simp_all add: enter_frame_def Let_def)
    show ?thesis using c_header_last [OF wf that h, where recv = "handles f" and r = r and bs = bs] that
        frame_Nil [OF c, of "handles f" r] c(2)
      by (cases "bs = []") (simp_all add: client_loop_pass client_byte_def client_loop_Nil client_pass_def [of _ ?c])
  qed
  have pm: "?thesis" if "\<not> c_need_header c" "sk_len (c_payload c) + 1 < sk_size (c_payload c)"
    using frame_more(1) [OF wf that, where recv = "handles f" and r = r and b = b and bs = bs]
      frame_more(2) [OF wf that, where recv = "handles f" and r = r and b = b] that
    by (cases "bs = []") (simp_all add: client_loop_pass client_pass_def client_byte_def client_loop_Nil c_payload_byte_def)
  have pl: "?thesis" if "\<not> c_need_header c" "sk_len (c_payload c) + 1 = sk_size (c_payload c)"
    using frame_last [OF wf that, of "handles f" r b bs] that
    by (simp add: client_loop_pass client_pass_def client_byte_def Let_def clie_recv_def handles_def split: Option.bind_split sum.split)
  show ?thesis using hm hl pm pl wf by (fastforce simp: client_wf_def)
qed

lemma header_hex:
  assumes "client_wf c" "sk_len (c_header c) + 1 = 4"
  shows "take 4 (header0 (c_header_byte c b)) = take 3 (header0 c) @ [b]"
    and "take (nat (sk_len (c_header c))) (header0 c) @ b # bs = (take 3 (header0 c) @ [b]) @ bs"
proof -
  have l: "length (header0 c) = 4" "nat (sk_len (c_header c)) = 3" using assms by (simp_all add: client_wf_def)
  then show "take 4 (header0 (c_header_byte c b)) = take 3 (header0 c) @ [b]"
    by (simp add: c_header_byte_def upd_conv_take_nth_drop)
  show "take (nat (sk_len (c_header c))) (header0 c) @ b # bs = (take 3 (header0 c) @ [b]) @ bs" using l by simp
qed

lemma client_ok_header:
  assumes "client_ok (c, r) (b # bs)" "c_need_header c" "sk_len (c_header c) + 1 = 4"
  shows "hex2int (take 4 (header0 (c_header_byte c b))) > 0"
    and "frames_ok (drop (nat (hex2int (take 4 (header0 (c_header_byte c b))))) bs)"
proof -
  let ?h = "take 3 (header0 c) @ [b]"
  have wf: "client_wf c" using assms(1) by (simp add: client_ok_def)
  note h = header_hex [OF wf assms(3), of b]
  have l: "length ?h = 4" using wf by (simp add: client_wf_def)
  have "frames_ok (?h @ bs)" using assms(1,2) h(2) [of bs] by (simp add: client_ok_def)
  then have "0 < hex2int ?h \<and> frames_ok (drop (4 + nat (hex2int ?h)) (?h @ bs))"
    using l by (subst (asm) frames_ok.simps) (simp del: append_assoc)
  then show "hex2int (take 4 (header0 (c_header_byte c b))) > 0"
    "frames_ok (drop (nat (hex2int (take 4 (header0 (c_header_byte c b))))) bs)"
    unfolding h(1) using l by (simp_all del: append_assoc)
qed

lemma client_byte_ok:
  assumes ok: "client_ok (c, r) (b # bs)" and step: "client_byte f c r b = Some (Inr (c', r'))"
  shows "client_ok (c', r') bs"
proof -
  have wf: "client_wf c" using ok by (simp add: client_ok_def)
  consider (hm) "c_need_header c" "sk_len (c_header c) + 1 < 4" | (hl) "c_need_header c" "sk_len (c_header c) + 1 = 4"
    | (pm) "\<not> c_need_header c" "sk_len (c_payload c) + 1 < sk_size (c_payload c)"
    | (pl) "\<not> c_need_header c" "sk_len (c_payload c) + 1 = sk_size (c_payload c)"
    using wf by (fastforce simp: client_wf_def)
  then show ?thesis
  proof cases
    case hm
    obtain k where k: "sk_len (c_header c) = int k" "k < 4" "length (header0 c) = 4"
      using wf by (metis client_wf_def nonneg_int_cases of_nat_less_iff of_nat_numeral)
    then have "take (Suc k) ((header0 c)[k := b]) @ bs = take k (header0 c) @ b # bs"
      by (simp add: take_Suc_conv_app_nth)
    with k have "frames_ok (take (Suc k) ((header0 c)[k := b]) @ bs)" using ok hm by (simp add: client_ok_def)
    then show ?thesis using step hm client_wf_byte(1) [OF wf hm, of b] k
      by (auto simp: client_byte_def client_ok_def c_header_byte_def nat_add_distrib)
  next
    case hl
    then show ?thesis using step client_ok_header [OF ok hl] client_wf_byte(2) [OF wf hl(1), of b]
      by (auto simp: client_byte_def client_ok_def enter_frame_def Let_def qemud_sink_reset_def)
  next
    case pm
    have "nat (sk_size (c_payload c) - sk_len (c_payload c)) = Suc (nat (sk_size (c_payload c) - (sk_len (c_payload c) + 1)))"
      using pm by simp
    then show ?thesis using ok step pm client_wf_byte(3) [OF wf pm, of b]
      by (auto simp: client_byte_def client_ok_def c_payload_byte_def)
  next
    case pl
    have "nat (sk_size (c_payload c) - sk_len (c_payload c)) = Suc 0" using pl by simp
    then have "frames_ok bs" using ok pl by (simp add: client_ok_def)
    then show ?thesis using step pl client_wf_byte(4) [OF wf pl(1), of b] wf
      by (auto simp: client_byte_def client_ok_def Let_def obind_eq_SomeInr leave_frame_def c_payload_byte_def client_wf_def)
  qed
qed

lemma client_reader_loop:
  "client_wf c \<Longrightarrow> client_reader f (c, r) bs = obind (client_loop (handles f) (Some c) r bs) (\<lambda>(co, r).
     case co of None \<Rightarrow> Some (Inl Undefined) | Some c \<Rightarrow> Some (Inr (c, r)))"
  by (simp add: client_reader_def client_recv_loop)

lemma client_reader_Cons:
  assumes ok: "client_ok (c, r) (b # bs)"
  shows "client_reader f (c, r) (b # bs) = obind (client_byte f c r b) (\<lambda>st. client_reader f st bs)"
proof -
  have wf: "client_wf c" using ok by (simp add: client_ok_def)
  have "client_reader f (c, r) (b # bs) =
      obind (client_byte f c r b) (\<lambda>(c, r). obind (client_loop (handles f) (Some c) r bs) (\<lambda>(co, r).
        case co of None \<Rightarrow> Some (Inl Undefined) | Some c \<Rightarrow> Some (Inr (c, r))))"
    using client_loop_byte [OF wf, of b f r bs] client_ok_header(1) [OF ok]
    by (simp add: client_reader_loop [OF wf] split: Option.bind_split sum.split)
  also have "\<dots> = obind (client_byte f c r b) (\<lambda>st. client_reader f st bs)"
  proof (rule obind_cong_wf, clarify)
    fix c' r' assume "client_byte f c r b = Some (Inr (c', r'))"
    then have "client_wf c'" using client_byte_ok [OF ok] by (simp add: client_ok_def)
    then show "obind (client_loop (handles f) (Some c') r' bs) (\<lambda>(co, r).
        case co of None \<Rightarrow> Some (Inl Undefined) | Some c \<Rightarrow> Some (Inr (c, r))) = client_reader f (c', r') bs"
      by (simp add: client_reader_loop)
  qed
  finally show ?thesis .
qed

lemma client_reader_Nil: "client_wf c \<Longrightarrow> client_reader f (c, r) [] = Some (Inr (c, r))"
  by (simp add: client_reader_loop client_loop_Nil)

lemma client_ok_prefix: "client_ok st (xs @ ys) \<Longrightarrow> client_ok st xs"
  unfolding client_ok_def using frames_ok_prefix by (auto simp: append_assoc [symmetric] simp del: append_assoc)

lemma client_reader_one:
  assumes "client_ok (c, r) (b # bs)"
  shows "client_reader f (c, r) [b] = client_byte f c r b"
proof -
  have ok: "client_ok (c, r) [b]" using client_ok_prefix [of "(c, r)" "[b]" bs] assms by simp
  have "obind (client_byte f c r b) (\<lambda>st. client_reader f st []) = obind (client_byte f c r b) (\<lambda>st. Some (Inr st))"
    using client_byte_ok [OF ok] by (intro obind_cong_wf) (auto simp: client_reader_Nil client_ok_def)
  then show ?thesis using client_reader_Cons [OF ok, of f] by simp
qed

interpretation framed_client: stream_reader client_ok "client_reader f"
proof
  fix st st' :: "qemud_client \<times> 'a" and x xs ys
  show "client_ok st [] \<Longrightarrow> client_reader f st [] = Some (Inr st)"
    by (cases st) (simp add: client_ok_def client_reader_Nil)
  show "client_ok st (xs @ ys) \<Longrightarrow> client_ok st xs" by (rule client_ok_prefix)
  show "client_ok st (x # xs) \<Longrightarrow> client_reader f st (x # xs) = obind (client_reader f st [x]) (\<lambda>st. client_reader f st xs)"
    by (cases st) (simp add: client_reader_Cons client_reader_one)
  show "client_ok st (x # xs) \<Longrightarrow> client_reader f st [x] = Some (Inr st') \<Longrightarrow> client_ok st' xs"
    by (cases st; cases st') (simp add: client_reader_one client_byte_ok)
qed

section \<open>Whole frames\<close>

text \<open>A framing client about to read a header, and the frame of a message.\<close>

definition client_ready :: "qemud_client \<Rightarrow> bool" where
  "client_ready c \<longleftrightarrow> client_wf c \<and> c_need_header c \<and> sk_len (c_header c) = 0"

definition frame :: "byte list \<Rightarrow> byte list" where
  "frame msg = int2hex FRAME_HEADER_SIZE (int (length msg)) @ msg"

lemma frame_length: "length (frame m) = 4 + length m"
  by (simp add: frame_def qemud_sizes length_int2hex)

text \<open>The client after a header, and after a whole frame.\<close>

definition after_header :: "qemud_client \<Rightarrow> byte list \<Rightarrow> qemud_client" where
  "after_header c h = c\<lparr>c_header := (c_header c)\<lparr>sk_len := 4\<rparr>, header0 := h\<rparr>"

definition after_frame :: "qemud_client \<Rightarrow> byte list \<Rightarrow> qemud_client" where
  "after_frame c msg = c\<lparr>header0 := int2hex 4 (int (length msg)), payload_buff := msg @ [0],
     c_payload := \<lparr>sk_len = int (length msg), sk_size = int (length msg)\<rparr>\<rparr>"

lemma after_frame_ready: "client_ready c \<Longrightarrow> client_ready (after_frame c msg)"
  by (simp add: client_ready_def client_wf_def after_frame_def length_int2hex)

lemma ready_fill:
  assumes "client_ready c" "length h = 4"
  shows "qemud_sink_fill (c_header c) (header0 c) (h @ bs) = Inr (True, (c_header c)\<lparr>sk_len := 4\<rparr>, h, bs)"
  using fill_all [of "c_header c" 4 "header0 c" h bs] assms by (simp add: client_ready_def client_wf_def)

lemma bad_header_pass:
  assumes "client_ready c" "length h = 4" "hex2int h \<le> 0"
  shows "client_pass recv c r (h @ bs) = Some (Inr (False, Some (after_header c h), r, bs))"
  using assms ready_fill [OF assms(1,2), of bs]
  by (auto simp: client_pass_def client_ready_def after_header_def Let_def)

lemma frame_pass:
  assumes rd: "client_ready c" and m: "msg \<noteq> []" "length msg < 65536"
  shows "client_pass recv c r (frame msg @ bs) =
    obind (clie_recv recv r msg (after_frame c msg)) (\<lambda>(r, co). Some (Inr (False, co, r, bs)))"
proof -
  let ?h = "int2hex 4 (int (length msg))"
  let ?c = "c\<lparr>header0 := ?h, payload_buff := replicate (length msg + 1) 0,
    c_payload := qemud_sink_reset (int (length msg)), c_need_header := False\<rparr>"
  have h: "hex2int ?h = int (length msg)" using hex2int_int2hex [of "int (length msg)" 4] m by simp
  have hdr: "(c_header c)\<lparr>sk_len := 0\<rparr> = c_header c" "c_need_header c" using rd by (simp_all add: client_ready_def)
  have "client_pass recv c r (?h @ msg @ bs) = read_frame recv ?c r (msg @ bs)"
    using ready_fill [OF rd, of ?h "msg @ bs"] h hdr m rd
    by (simp add: client_pass_def Let_def length_int2hex nat_add_distrib)
  moreover have "qemud_sink_fill (qemud_sink_reset (int (length msg))) (replicate (length msg + 1) 0) (msg @ bs) =
      Inr (True, \<lparr>sk_len = int (length msg), sk_size = int (length msg)\<rparr>, msg @ [0], bs)"
    using fill_all [of "qemud_sink_reset (int (length msg))" "length msg" "replicate (length msg + 1) 0" msg bs] m
    by (simp add: qemud_sink_reset_def replicate_Suc [of 0] del: replicate_Suc)
  then have "read_frame recv ?c r (msg @ bs) =
      obind (clie_recv recv r msg (after_frame c msg)) (\<lambda>(r, co). Some (Inr (False, co, r, bs)))"
    using hdr(2) by (cases c) (simp add: read_frame_def wr_def Let_def after_frame_def del: replicate_Suc)
  ultimately show ?thesis by (simp add: frame_def qemud_sizes)
qed

lemma loop_frame:
  assumes "client_ready c" "msg \<noteq> []" "length msg < 65536"
  shows "client_loop recv (Some c) r (frame msg @ bs) =
    obind (clie_recv recv r msg (after_frame c msg)) (\<lambda>(r, co). client_loop recv co r bs)"
proof -
  have "frame msg @ bs \<noteq> []" using assms by (simp add: frame_def)
  then show ?thesis
    by (simp add: client_loop_pass frame_pass [OF assms]) (simp split: Option.bind_split sum.split)
qed

lemma framing_client_ready:
  "client_ready (qemud_client_set_framing (qemud_client_alloc ch) True)"
  "channel (qemud_client_set_framing (qemud_client_alloc ch) True) = ch"
  by (simp_all add: client_ready_def client_wf_def qemud_client_set_framing_def qemud_client_alloc_def
    qemud_sink_reset_def qemud_sizes)

text \<open>A callback that writes down the messages it gets.\<close>

definition msg_recorder :: "byte list list \<Rightarrow> byte list \<Rightarrow> byte list list outcome option" where
  "msg_recorder log msg = Some (Inr (log @ [msg]))"

lemma read_frames:
  assumes "client_ready c" "list_all (\<lambda>m. m \<noteq> [] \<and> length m < 65536) ms"
  shows "\<exists>c'. client_ready c' \<and> channel c' = channel c \<and>
    client_reader msg_recorder (c, log) (concat (map frame ms)) = Some (Inr (c', log @ ms))"
  using assms
proof (induction ms arbitrary: c log)
  case Nil
  then show ?case by (auto simp: client_ready_def client_reader_Nil)
next
  case (Cons m ms)
  let ?c = "after_frame c m"
  have rd: "client_ready ?c" using Cons.prems(1) by (rule after_frame_ready)
  have m: "m \<noteq> []" "length m < 65536" using Cons.prems(2) by simp_all
  have "client_wf c" "client_wf ?c" using Cons.prems(1) rd by (simp_all add: client_ready_def)
  then have "client_reader msg_recorder (c, log) (frame m @ concat (map frame ms)) =
      client_reader msg_recorder (?c, log @ [m]) (concat (map frame ms))"
    by (simp add: client_reader_loop loop_frame [OF Cons.prems(1) m] clie_recv_def handles_def msg_recorder_def)
  moreover have "channel ?c = channel c" by (simp add: after_frame_def)
  ultimately show ?case using Cons.IH [OF rd, of "log @ [m]"] Cons.prems(2) by auto
qed

lemma frames_ok_frames: "list_all (\<lambda>m. m \<noteq> [] \<and> length m < 65536) ms \<Longrightarrow> frames_ok (concat (map frame ms))"
proof (induction ms)
  case (Cons m ms)
  have "take 4 (frame m @ concat (map frame ms)) = int2hex 4 (int (length m))"
    by (simp add: frame_def qemud_sizes length_int2hex)
  moreover have "hex2int (int2hex 4 (int (length m))) = int (length m)"
    using hex2int_int2hex [of "int (length m)" 4] Cons.prems by simp
  ultimately show ?case using Cons
    by (subst frames_ok.simps) (simp add: frame_length)
qed (simp add: frames_ok.simps)

lemma ready_ok: "client_ready c \<Longrightarrow> client_ok (c, r) bs = frames_ok bs"
  by (simp add: client_ready_def client_ok_def)

text \<open>A client whose header is full but announces no payload: its loop does not end.\<close>

lemma stuck_pass:
  assumes "c_need_header c" "sk_size (c_header c) \<le> sk_len (c_header c)" "hex2int (take 4 (header0 c)) \<le> 0"
  shows "client_pass recv c r msg = Some (Inr (False, Some c, r, msg))"
  using assms by (auto simp: client_pass_def qemud_sink_fill_def Let_def)

lemma stuck_loop:
  assumes "c_need_header c" "sk_size (c_header c) \<le> sk_len (c_header c)" "hex2int (take 4 (header0 c)) \<le> 0" "msg \<noteq> []"
  shows "client_loop recv (Some c) r msg = None"
proof -
  have "\<not> (co = Some c \<and> msg' = msg)" if "client_loop recv' co r' msg' = Some y" for recv' co and r' :: 'a and msg' y
  proof (rule client_loop.raw_induct [OF _ that, where P = "\<lambda>recv co r msg' y. \<not> (co = Some c \<and> msg' = msg)"])
    fix loop recv co msg' and r :: 'a and y :: "(qemud_client option \<times> 'a) outcome"
    assume IH: "\<And>recv co r msg' y. loop recv co r msg' = Some y \<Longrightarrow> \<not> (co = Some c \<and> msg' = msg)"
      and step: "(if msg' = [] then Some (Inr (co, r))
        else case co of None \<Rightarrow> Some (Inl Undefined)
          | Some c \<Rightarrow> obind (client_pass recv c r msg') (\<lambda>(stop, co, r, msg).
              if stop then Some (Inr (co, r)) else loop recv co r msg)) = Some y"
    show "\<not> (co = Some c \<and> msg' = msg)"
    proof
      assume "co = Some c \<and> msg' = msg"
      with step assms(4) have "loop recv (Some c) r msg = Some y" by (simp add: stuck_pass [OF assms(1-3)])
      with IH show False by blast
    qed
  qed
  then show ?thesis by (cases "client_loop recv (Some c) r msg") blast+
qed

text \<open>What every callback keeps of the rest of the state, \<open>qemud_client_recv\<close> keeps.\<close>

definition keeps :: "('r \<Rightarrow> bool) \<Rightarrow> 'r client_recv \<Rightarrow> bool" where
  "keeps I recv \<longleftrightarrow> (\<forall>r msg c r' co. I r \<longrightarrow> recv r msg c = Some (Inr (r', co)) \<longrightarrow> I r')"

lemma keepsD: "keeps I recv \<Longrightarrow> I r \<Longrightarrow> recv r msg c = Some (Inr (r', co)) \<Longrightarrow> I r'"
  unfolding keeps_def by blast

lemma client_pass_inv:
  assumes "keeps I recv"
    and "I r" "client_pass (Some recv) c r msg = Some (Inr (stop, co, r', msg'))"
  shows "I r'"
  using assms(2,3) keepsD [OF assms(1,2)]
  by (auto simp: client_pass_def read_frame_def clie_recv_def Let_def obind_eq_SomeInr split: if_splits sum.splits option.splits)

lemma client_loop_inv:
  assumes inv: "keeps I recv"
    and run: "client_loop (Some recv) co r msg = Some (Inr (co', r'))" and "I r"
  shows "I r'"
proof -
  have "rc = Some recv \<longrightarrow> I r \<longrightarrow> (\<forall>co' r'. y = Inr (co', r') \<longrightarrow> I r')" if "client_loop rc co r msg = Some y" for rc co r msg y
  proof (rule client_loop.raw_induct [OF _ that, where P = "\<lambda>rc co r msg y. rc = Some recv \<longrightarrow> I r \<longrightarrow> (\<forall>co' r'. y = Inr (co', r') \<longrightarrow> I r')"])
    fix loop rc co r msg y
    assume IH: "\<And>rc co r msg y. loop rc co r msg = Some y \<Longrightarrow> rc = Some recv \<longrightarrow> I r \<longrightarrow> (\<forall>co' r'. y = Inr (co', r') \<longrightarrow> I r')"
      and step: "(if msg = [] then Some (Inr (co, r))
        else case co of None \<Rightarrow> Some (Inl Undefined)
          | Some c \<Rightarrow> obind (client_pass rc c r msg) (\<lambda>(stop, co, r, msg).
              if stop then Some (Inr (co, r)) else loop rc co r msg)) = Some y"
    show "rc = Some recv \<longrightarrow> I r \<longrightarrow> (\<forall>co' r'. y = Inr (co', r') \<longrightarrow> I r')"
    proof (intro impI allI)
      fix co1 r1
      assume rc: "rc = Some recv" and r: "I r" and y: "y = Inr (co1, r1)"
      show "I r1"
      proof (cases "msg = []")
        case True
        then show ?thesis using step r y by simp
      next
        case False
        then obtain c stop co2 r2 msg2 where "co = Some c" and p: "client_pass (Some recv) c r msg = Some (Inr (stop, co2, r2, msg2))"
          and q: "(if stop then Some (Inr (co2, r2)) else loop rc co2 r2 msg2) = Some y"
          using step rc y by (auto simp: obind_eq_SomeInr split: option.splits)
        from client_pass_inv [OF inv r p] q IH [of rc co2 r2 msg2 y] rc y show ?thesis by (auto split: if_splits)
      qed
    qed
  qed
  with run \<open>I r\<close> show ?thesis by blast
qed

lemma client_recv_inv:
  assumes inv: "keeps I recv"
    and run: "qemud_client_recv (Some recv) c r msg = Some (Inr (co, r'))" and "I r"
  shows "I r'"
proof -
  have "client_loop (Some recv) (Some c) r msg = Some (Inr (co, r')) \<Longrightarrow> I r'"
    using client_loop_inv [OF inv _ \<open>I r\<close>] by blast
  with run keepsD [OF inv \<open>I r\<close>] show ?thesis
    by (auto simp: qemud_client_recv_def clie_recv_def obind_eq_SomeInr split: if_splits)
qed

text \<open>Two callbacks that agree up to a relation of their states make \<open>qemud_client_recv\<close> agree.\<close>

definition simulates :: "('r \<Rightarrow> 'q \<Rightarrow> bool) \<Rightarrow> 'r client_recv \<Rightarrow> 'q client_recv \<Rightarrow> bool" where
  "simulates R recv recv' \<longleftrightarrow> (\<forall>r q msg c q' co. R r q \<longrightarrow> recv' q msg c = Some (Inr (q', co)) \<longrightarrow>
     (\<exists>r'. recv r msg c = Some (Inr (r', co)) \<and> R r' q'))"

lemma simulatesD:
  "simulates R recv recv' \<Longrightarrow> R r q \<Longrightarrow> recv' q msg c = Some (Inr (q', co)) \<Longrightarrow> \<exists>r'. recv r msg c = Some (Inr (r', co)) \<and> R r' q'"
  unfolding simulates_def by blast

lemma read_frame_sim:
  assumes "simulates R recv recv'" "R r q" "read_frame (Some recv') c q msg = Some (Inr (stop, co, q', msg'))"
  shows "\<exists>r'. read_frame (Some recv) c r msg = Some (Inr (stop, co, r', msg')) \<and> R r' q'"
  using assms(2,3) simulatesD [OF assms(1,2)]
  by (fastforce simp: read_frame_def clie_recv_def Let_def obind_eq_SomeInr split: if_splits sum.splits option.splits)

lemma client_pass_sim:
  assumes "simulates R recv recv'" "R r q" "client_pass (Some recv') c q msg = Some (Inr (stop, co, q', msg'))"
  shows "\<exists>r'. client_pass (Some recv) c r msg = Some (Inr (stop, co, r', msg')) \<and> R r' q'"
  using assms(2,3) read_frame_sim [OF assms(1,2)]
  by (auto simp: client_pass_def Let_def split: if_splits sum.splits)

lemma client_loop_sim:
  assumes sim: "simulates R recv recv'" and run: "client_loop (Some recv') co q msg = Some (Inr (co', q'))" and "R r q"
  shows "\<exists>r'. client_loop (Some recv) co r msg = Some (Inr (co', r')) \<and> R r' q'"
proof -
  define P where "P rc co q msg y \<longleftrightarrow> (\<forall>r co' q'. rc = Some recv' \<longrightarrow> R r q \<longrightarrow> y = Inr (co', q') \<longrightarrow>
    (\<exists>r'. client_loop (Some recv) co r msg = Some (Inr (co', r')) \<and> R r' q'))"
    for rc co q msg and y :: "(qemud_client option \<times> 'b) outcome"
  have "P rc co q msg y" if "client_loop rc co q msg = Some y" for rc co q msg y
  proof (rule client_loop.raw_induct [OF _ that, where P = P])
    fix loop rc co q msg y
    assume IH: "\<And>rc co q msg y. loop rc co q msg = Some y \<Longrightarrow> P rc co q msg y"
      and step: "(if msg = [] then Some (Inr (co, q))
        else case co of None \<Rightarrow> Some (Inl Undefined)
          | Some c \<Rightarrow> obind (client_pass rc c q msg) (\<lambda>(stop, co, q, msg).
              if stop then Some (Inr (co, q)) else loop rc co q msg)) = Some y"
    show "P rc co q msg y" unfolding P_def
    proof (intro impI allI)
      fix r co1 q1
      assume rc: "rc = Some recv'" and r: "R r q" and y: "y = Inr (co1, q1)"
      show "\<exists>r'. client_loop (Some recv) co r msg = Some (Inr (co1, r')) \<and> R r' q1"
      proof (cases "msg = []")
        case True
        then show ?thesis using step r y by (simp add: client_loop_Nil)
      next
        case False
        then obtain c stop co2 q2 msg2 where co: "co = Some c" and p: "client_pass (Some recv') c q msg = Some (Inr (stop, co2, q2, msg2))"
          and n: "(if stop then Some (Inr (co2, q2)) else loop rc co2 q2 msg2) = Some y"
          using step rc y by (auto simp: obind_eq_SomeInr split: option.splits)
        from client_pass_sim [OF sim r p] obtain r2 where r2: "client_pass (Some recv) c r msg = Some (Inr (stop, co2, r2, msg2))" "R r2 q2"
          by blast
        show ?thesis using n IH [of rc co2 q2 msg2 y] rc y r2 co False
          by (auto simp: P_def client_loop_pass split: if_splits)
      qed
    qed
  qed
  with run \<open>R r q\<close> show ?thesis by (auto simp: P_def)
qed

lemma client_recv_sim:
  assumes sim: "simulates R recv recv'" and run: "qemud_client_recv (Some recv') c q msg = Some (Inr (co, q'))" and "R r q"
  shows "\<exists>r'. qemud_client_recv (Some recv) c r msg = Some (Inr (co, r')) \<and> R r' q'"
  using run simulatesD [OF sim \<open>R r q\<close>] client_loop_sim [OF sim _ \<open>R r q\<close>]
  by (fastforce simp: qemud_client_recv_def clie_recv_def obind_eq_SomeInr split: if_splits)

lemma client_reader_channel:
  assumes "client_ok (c, r) bs" "client_reader f (c, r) bs = Some (Inr (c', r'))"
  shows "channel c' = channel c"
  using assms
proof (induction bs arbitrary: c r)
  case Nil
  then show ?case by (simp add: client_ok_def client_reader_Nil)
next
  case (Cons b bs)
  from Cons.prems(2) obtain c1 r1 where 1: "client_byte f c r b = Some (Inr (c1, r1))" "client_reader f (c1, r1) bs = Some (Inr (c', r'))"
    unfolding client_reader_Cons [OF Cons.prems(1)] obind_eq_SomeInr by auto
  have "channel c1 = channel c" using 1(1)
    by (auto simp: client_byte_def c_header_byte_def enter_frame_def c_payload_byte_def leave_frame_def Let_def obind_eq_SomeInr split: if_splits)
  then show ?case using Cons.IH [OF client_byte_ok [OF Cons.prems(1) 1(1)] 1(2)] by simp
qed

section \<open>Properties\<close>

text \<open>
  Remark (roundtrip). A framing client that is handed, in pieces of any size, the frames of messages of 1 to 65535
  bytes passes exactly these messages to its callback, in order, and is ready for the next frame.
\<close>

theorem framed_messages:
  assumes "client_ready c" and "list_all (\<lambda>m. m \<noteq> [] \<and> length m < 65536) ms" and "concat xss = concat (map frame ms)"
  shows "\<exists>c'. client_ready c' \<and> channel c' = channel c \<and>
    read_pieces (client_reader msg_recorder) (c, log) xss = Some (Inr (c', log @ ms))"
  using read_frames [OF assms(1,2), of log] framed_client.read_pieces_concat [of "(c, log)" xss msg_recorder]
    frames_ok_frames [OF assms(2)] assms(1,3) by (simp add: ready_ok)

theorem framed_messages_witness:
  "\<exists>c'. client_ready c' \<and> channel c' = 3 \<and>
    read_pieces (client_reader msg_recorder) (qemud_client_set_framing (qemud_client_alloc 3) True, [])
      [[48, 48], [48, 50, 79], [75, 48, 48, 48, 49], [33]] = Some (Inr (c', [[79, 75], [33]]))"
proof -
  have "concat [[48, 48], [48, 50, 79], [75, 48, 48, 48, 49], [33]] = concat (map frame [[79, 75], [33]])"
    by (simp add: frame_def qemud_sizes numeral_eq_Suc hexchars_def)
  from framed_messages [OF framing_client_ready(1) _ this, of 3 "[]"] framing_client_ready(2) show ?thesis by simp
qed

text \<open>
  Property C38 (termination). An empty frame, or a frame whose header is not a hexadecimal number, hangs the emulator: the
  header is not reset, so when more bytes follow in the same payload the loop of
  \<open>qemud_client_recv\<close> reads the same header again for ever.
\<close>

theorem empty_frame_hangs:
  assumes "client_ready c" and "length h = FRAME_HEADER_SIZE" and "hex2int h \<le> 0" and "bs \<noteq> []"
  shows "qemud_client_recv recv c r (h @ bs) = None"
proof -
  have h: "length h = 4" using assms(2) by (simp add: qemud_sizes)
  have "client_loop recv (Some (after_header c h)) r bs = None"
    using assms h by (intro stuck_loop) (simp_all add: after_header_def client_ready_def client_wf_def)
  moreover have "h @ bs \<noteq> []" using assms(4) by simp
  ultimately show ?thesis using assms(1) bad_header_pass [OF assms(1) h assms(3), of recv r bs]
    by (simp add: client_recv_loop client_loop_pass client_ready_def)
qed

theorem empty_frame_hangs_witness:
  "qemud_client_recv (handles msg_recorder) (qemud_client_set_framing (qemud_client_alloc 3) True) []
     ([48, 48, 48, 48] @ frame [79, 75]) = None"
  by (rule empty_frame_hangs [OF framing_client_ready(1)])
    (simp_all add: qemud_sizes hex2int_def hexdigit_def frame_def)

text \<open>
  Remark (safety). A callback that closes its client while it handles a framed message, with more bytes in the same
  payload, makes the loop use the client after it was freed.
\<close>

theorem close_in_callback:
  assumes "client_ready c" and "msg \<noteq> []" and "length msg < 65536" and "bs \<noteq> []"
    and "\<And>c. f r msg c = Some (Inr (r', None))"
  shows "qemud_client_recv (Some f) c r (frame msg @ bs) = Some (Inl Undefined)"
  using assms(1,4,5) loop_frame [OF assms(1-3), of "Some f" r bs]
  by (simp add: client_recv_loop client_ready_def clie_recv_def client_loop.simps [of _ None])

theorem close_in_callback_witness:
  "qemud_client_recv (Some (\<lambda>r msg c. Some (Inr (Suc r, None)))) (qemud_client_set_framing (qemud_client_alloc 3) True) 0
     (frame [79, 75] @ frame [33]) = Some (Inl Undefined)"
  by (rule close_in_callback [OF framing_client_ready(1)]) (simp_all add: frame_def)

end
