(* ===== verification/Qemud_Mux.thy ===== *)
theory Qemud_Mux
  imports Qemud_Client
begin

unbundle bit_operations_syntax

text \<open>
  The services and the multiplexer of \<open>android/hw-qemud.c\<close>: named services with a limit on their
  clients, the global list of clients, the control channel that connects and disconnects them, and
  the functions a service calls.

  Clients and services are known by numbers that are never used twice, in place of their addresses;
  a number that is no longer in the list is a freed object. Two callbacks of a service are
  parameters: what it does when a client wants to connect, and what it does with a message. They act
  on the multiplexer only through its API, so each is a function from all that happened so far to
  the calls it makes. The multiplexer keeps, beside its own state, the history: what was
  written to the serial port, the messages given to services, and the clients of services that were
  disconnected. The close callback of a service, which frees the service's own data, makes no calls
  here.
\<close>

section \<open>State\<close>

record qemud_service =
  sv_name :: "byte list"
  max_clients :: int
  num_clients :: int
  sv_clients :: "nat list"

text \<open>A client with its identity; \<open>service\<close> is \<open>None\<close> for the control client only.\<close>

record client_obj =
  obj_id :: nat
  client :: qemud_client
  service :: "nat option"

record qemud_multiplexer =
  ver :: qemud_version
  clients :: "client_obj list"
  services :: "(nat \<times> qemud_service) list"
  next_id :: nat
  written :: "byte list list"
  received :: "(nat \<times> byte list) list"
  closed :: "nat list"

definition lookup_client :: "qemud_multiplexer \<Rightarrow> nat \<Rightarrow> client_obj option" where
  "lookup_client m i = find (\<lambda>o'. obj_id o' = i) (clients m)"

definition store_client :: "qemud_multiplexer \<Rightarrow> nat \<Rightarrow> qemud_client \<Rightarrow> qemud_multiplexer" where
  "store_client m i c = m\<lparr>clients := map (\<lambda>o'. if obj_id o' = i then o'\<lparr>client := c\<rparr> else o') (clients m)\<rparr>"

definition update_service :: "qemud_multiplexer \<Rightarrow> nat \<Rightarrow> (qemud_service \<Rightarrow> qemud_service) \<Rightarrow> qemud_multiplexer" where
  "update_service m sv f = m\<lparr>services := map (\<lambda>(j, s). (j, if j = sv then f s else s)) (services m)\<rparr>"

section \<open>Clients and services\<close>

definition mux_send :: "qemud_multiplexer \<Rightarrow> int \<Rightarrow> bool \<Rightarrow> byte list \<Rightarrow> qemud_multiplexer outcome" where
  "mux_send m ch fr msg = map_sum id (\<lambda>ws. m\<lparr>written := written m @ ws\<rparr>) (qemud_serial_send (ver m) ch fr msg)"

definition qemud_client_remove :: "qemud_multiplexer \<Rightarrow> nat \<Rightarrow> qemud_multiplexer" where
  "qemud_client_remove m i = m\<lparr>clients := filter (\<lambda>o'. obj_id o' \<noteq> i) (clients m)\<rparr>"

definition qemud_client_prepend :: "qemud_multiplexer \<Rightarrow> client_obj \<Rightarrow> qemud_multiplexer" where
  "qemud_client_prepend m c = m\<lparr>clients := c # clients m\<rparr>"

definition qemud_service_new :: "byte list \<Rightarrow> int \<Rightarrow> qemud_multiplexer \<Rightarrow> qemud_multiplexer" where
  "qemud_service_new name mx m =
     m\<lparr>services := (next_id m, \<lparr>sv_name = name, max_clients = mx, num_clients = 0, sv_clients = []\<rparr>) # services m,
       next_id := next_id m + 1\<rparr>"

definition qemud_service_add_client :: "nat \<Rightarrow> qemud_service \<Rightarrow> qemud_service" where
  "qemud_service_add_client i s = s\<lparr>sv_clients := i # sv_clients s, num_clients := num_clients s + 1\<rparr>"

definition qemud_service_remove_client :: "nat \<Rightarrow> qemud_service \<Rightarrow> qemud_service" where
  "qemud_service_remove_client i s =
     (if i \<in> set (sv_clients s) then s\<lparr>sv_clients := remove1 i (sv_clients s), num_clients := num_clients s - 1\<rparr>
      else s)"

text \<open>\<open>qemud_client_new\<close>: the new client's number is \<open>next_id\<close>.\<close>

definition qemud_client_new :: "nat \<Rightarrow> int \<Rightarrow> qemud_multiplexer \<Rightarrow> qemud_multiplexer" where
  "qemud_client_new sv ch m =
     (let m' = qemud_client_prepend m \<lparr>obj_id = next_id m, client = qemud_client_alloc ch, service = Some sv\<rparr>;
          m' = update_service m' sv (qemud_service_add_client (next_id m))
      in m'\<lparr>next_id := next_id m + 1\<rparr>)"

text \<open>The conversion \<open>%02x\<close>.\<close>

fun hex_digits :: "nat \<Rightarrow> byte list" where
  "hex_digits n = (if n < 16 then [hexchars ! n] else hex_digits (n div 16) @ [hexchars ! (n mod 16)])"

declare hex_digits.simps [simp del]

definition hex02 :: "int \<Rightarrow> byte list" where
  "hex02 n = (let ds = hex_digits (nat n) in if length ds < 2 then 48 # ds else ds)"

definition ascii :: "string \<Rightarrow> byte list" where
  "ascii s = map of_char s"

definition qemud_client_disconnect :: "qemud_multiplexer \<Rightarrow> client_obj \<Rightarrow> qemud_multiplexer outcome" where
  "qemud_client_disconnect m c =
     (let m = qemud_client_remove m (obj_id c)
      in case (if channel (client c) > 0
               then mux_send m 0 False (ascii ''disconnect:'' @ hex02 (channel (client c)))
               else Inr m) of
           Inl e \<Rightarrow> Inl e
         | Inr m \<Rightarrow>
             Inr (case service c of
                    None \<Rightarrow> m
                  | Some sv \<Rightarrow> update_service (m\<lparr>closed := closed m @ [obj_id c]\<rparr>) sv (qemud_service_remove_client (obj_id c))))"

section \<open>What services may call\<close>

datatype api_call =
    Client_Send nat "byte list"
  | Client_Set_Framing nat bool
  | Client_Close nat
  | Service_Broadcast nat "byte list"

text \<open>Sending to the clients of a service, in the order of its list.\<close>

fun broadcast_loop :: "nat list \<Rightarrow> byte list \<Rightarrow> qemud_multiplexer \<Rightarrow> qemud_multiplexer outcome" where
  "broadcast_loop [] msg m = Inr m"
| "broadcast_loop (i # is) msg m =
     (case lookup_client m i of
        None \<Rightarrow> Inl Undefined
      | Some c \<Rightarrow>
          (case mux_send m (channel (client c)) (framing (client c)) msg of
             Inl e \<Rightarrow> Inl e
           | Inr m \<Rightarrow> broadcast_loop is msg m))"

fun api :: "api_call \<Rightarrow> qemud_multiplexer \<Rightarrow> qemud_multiplexer outcome" where
  "api (Client_Send i msg) m =
     (case lookup_client m i of
        None \<Rightarrow> Inl Undefined
      | Some c \<Rightarrow> mux_send m (channel (client c)) (framing (client c)) msg)"
| "api (Client_Set_Framing i fr) m =
     (case lookup_client m i of
        None \<Rightarrow> Inl Undefined
      | Some c \<Rightarrow> Inr (store_client m i (qemud_client_set_framing (client c) fr)))"
| "api (Client_Close i) m =
     (case lookup_client m i of None \<Rightarrow> Inl Undefined | Some c \<Rightarrow> qemud_client_disconnect m c)"
| "api (Service_Broadcast sv msg) m =
     (case map_of (services m) sv of None \<Rightarrow> Inl Undefined | Some s \<Rightarrow> broadcast_loop (sv_clients s) msg m)"

fun api_calls :: "api_call list \<Rightarrow> qemud_multiplexer \<Rightarrow> qemud_multiplexer outcome" where
  "api_calls [] m = Inr m"
| "api_calls (a # as) m = (case api a m of Inl e \<Rightarrow> Inl e | Inr m \<Rightarrow> api_calls as m)"

text \<open>
  The callbacks. \<open>on_connect\<close> says whether the service accepts the client, and what it calls after
  \<open>qemud_client_new\<close> (or instead of it); \<open>on_message\<close> what it calls for a message to a client.
\<close>

record callbacks =
  on_connect :: "qemud_multiplexer \<Rightarrow> nat \<Rightarrow> int \<Rightarrow> bool \<times> api_call list"
  on_message :: "qemud_multiplexer \<Rightarrow> nat \<Rightarrow> byte list \<Rightarrow> api_call list"

section \<open>The multiplexer\<close>

text \<open>\<open>qemud_multiplexer_connect\<close>; the number is the value it returns.\<close>

definition qemud_multiplexer_connect ::
  "callbacks \<Rightarrow> qemud_multiplexer \<Rightarrow> byte list \<Rightarrow> int \<Rightarrow> (qemud_multiplexer \<times> int) outcome" where
  "qemud_multiplexer_connect cb m service_name channel_id =
     (case find (\<lambda>(j, s). sv_name s = service_name) (services m) of
        None \<Rightarrow> Inr (m, -1)
      | Some (sv, s) \<Rightarrow>
          if max_clients s > 0 \<and> num_clients s \<ge> max_clients s then Inr (m, -2)
          else
            (case on_connect cb m sv channel_id of
               (accept, calls) \<Rightarrow>
                 (case api_calls calls (if accept then qemud_client_new sv channel_id m else m) of
                    Inl e \<Rightarrow> Inl e
                  | Inr m \<Rightarrow> Inr (m, if accept then 0 else -1))))"

definition qemud_multiplexer_disconnect :: "qemud_multiplexer \<Rightarrow> int \<Rightarrow> qemud_multiplexer outcome" where
  "qemud_multiplexer_disconnect m ch =
     (case find (\<lambda>o'. channel (client o') = ch) (clients m) of
        None \<Rightarrow> Inr m
      | Some c \<Rightarrow> qemud_client_disconnect m (c\<lparr>client := (client c)\<lparr>channel := -1\<rparr>\<rparr>))"

text \<open>\<open>strchr (s, c)\<close> for the string that starts with the bytes \<open>s\<close>: the index of \<open>c\<close> before the first zero.\<close>

fun strchr_idx :: "byte list \<Rightarrow> byte \<Rightarrow> nat option" where
  "strchr_idx [] c = None"
| "strchr_idx (b # bs) c = (if b = c then Some 0 else if b = 0 then None else map_option Suc (strchr_idx bs c))"

text \<open>
  Splitting \<open><service-name>:<id>\<close>, after a prefix of \<open>off\<close> bytes: the name and the channel. \<open>None\<close> for a
  malformed message or channel.
\<close>

definition split_connect :: "nat \<Rightarrow> byte list \<Rightarrow> (byte list \<times> int) option" where
  "split_connect off msg =
     (let service_name = drop off msg
      in case strchr_idx service_name 58 of
           None \<Rightarrow> None
         | Some q \<Rightarrow>
             if off + q + 3 \<noteq> length msg then None
             else
               (let ch = hex2int (take 2 (drop (q + 1) service_name))
                in if ch \<le> 0 then None else Some (take q service_name, ch)))"

definition connect_answer :: "int \<Rightarrow> int \<Rightarrow> byte list" where
  "connect_answer ret ch =
     (if ret < 0 then
        (if ret = -1 then ascii ''ko:connect:'' @ hex02 ch @ ascii '':unknown service''
         else ascii ''ko:connect:'' @ hex02 ch @ ascii '':service busy'')
      else ascii ''ok:connect:'' @ hex02 ch)"

text \<open>The legacy message \<open>ok:connect:\<close>.\<close>

definition legacy_connect :: "callbacks \<Rightarrow> qemud_multiplexer \<Rightarrow> byte list \<Rightarrow> qemud_multiplexer outcome" where
  "legacy_connect cb m msg =
     (case split_connect 11 msg of
        None \<Rightarrow> Inr m
      | Some (service_name, ch) \<Rightarrow>
          if ver m = QEMUD_VERSION_NORMAL then Inr m
          else
            (let m = m\<lparr>ver := QEMUD_VERSION_LEGACY\<rparr>;
                 service_name = (if service_name = ascii ''control'' then ascii ''hw-control'' else service_name)
             in map_sum id fst (qemud_multiplexer_connect cb m service_name ch)))"

definition qemud_multiplexer_control_recv ::
  "callbacks \<Rightarrow> qemud_multiplexer \<Rightarrow> byte list \<Rightarrow> qemud_multiplexer outcome" where
  "qemud_multiplexer_control_recv cb m msg =
     (if length msg > 8 \<and> take 8 msg = ascii ''connect:'' then
        (case split_connect 8 msg of
           None \<Rightarrow> Inr m
         | Some (service_name, ch) \<Rightarrow>
             (case qemud_multiplexer_connect cb m service_name ch of
                Inl e \<Rightarrow> Inl e
              | Inr (m, ret) \<Rightarrow> mux_send m 0 False (connect_answer ret ch)))
      else if length msg = 13 \<and> take 11 msg = ascii ''disconnect:'' then
        (let channel_id = hex2int (take 2 (drop 11 msg))
         in if channel_id \<le> 0 then Inr m else qemud_multiplexer_disconnect m channel_id)
      else if length msg > 11 \<and> take 11 msg = ascii ''ok:connect:'' then legacy_connect cb m msg
      else if ver m = QEMUD_VERSION_LEGACY then Inr m
      else mux_send m 0 False (ascii ''ko:unknown command''))"

text \<open>
  The receive callback of the client with number \<open>i\<close>, as \<open>qemud_client_recv\<close> calls it: the client is
  put back into the list, the message is handled, and the client is looked up again.
\<close>

definition message_recv :: "callbacks \<Rightarrow> nat \<Rightarrow> nat option \<Rightarrow> qemud_multiplexer client_recv" where
  "message_recv cb i sv m msg c =
     (let m = store_client m i c;
          res = (case sv of
                   None \<Rightarrow> qemud_multiplexer_control_recv cb m msg
                 | Some _ \<Rightarrow> api_calls (on_message cb m i msg) (m\<lparr>received := received m @ [(i, msg)]\<rparr>))
      in case res of
           Inl e \<Rightarrow> Some (Inl e)
         | Inr m \<Rightarrow> Some (Inr (m, map_option client (lookup_client m i))))"

definition qemud_multiplexer_serial_recv ::
  "callbacks \<Rightarrow> qemud_multiplexer \<Rightarrow> int \<Rightarrow> byte list \<Rightarrow> qemud_multiplexer outcome option" where
  "qemud_multiplexer_serial_recv cb m ch msg =
     (case find (\<lambda>o'. channel (client o') = ch) (clients m) of
        None \<Rightarrow> Some (Inr m)
      | Some c \<Rightarrow>
          obind (qemud_client_recv (Some (message_recv cb (obj_id c) (service c))) (client c) m msg) (\<lambda>(co, m).
            Some (Inr (case co of None \<Rightarrow> m | Some c' \<Rightarrow> store_client m (obj_id c) c'))))"

text \<open>The receiver of the serial port connection; the two share the version.\<close>

definition mux_recv :: "callbacks \<Rightarrow> qemud_multiplexer serial_recv" where
  "mux_recv cb m v ch msg =
     obind (qemud_multiplexer_serial_recv cb (m\<lparr>ver := v\<rparr>) ch msg) (\<lambda>m. Some (Inr (m, ver m)))"

definition qemud_multiplexer_init :: "qemud_serial \<times> qemud_multiplexer" where
  "qemud_multiplexer_init =
     (case qemud_serial_init of (s, ws) \<Rightarrow>
        (s, qemud_client_prepend
              \<lparr>ver = version s, clients = [], services = [], next_id = 1, written = ws, received = [], closed = []\<rparr>
              \<lparr>obj_id = 0, client = qemud_client_alloc 0, service = None\<rparr>))"

definition qemud_service_register :: "byte list \<Rightarrow> int \<Rightarrow> qemud_multiplexer \<Rightarrow> qemud_multiplexer" where
  "qemud_service_register service_name mx m = qemud_service_new service_name mx m"

text \<open>Bytes from the serial port, for the whole multiplexer.\<close>

definition qemud_input ::
  "callbacks \<Rightarrow> qemud_serial \<times> qemud_multiplexer \<Rightarrow> byte list \<Rightarrow> (qemud_serial \<times> qemud_multiplexer) outcome option" where
  "qemud_input cb st bs =
     obind (qemud_serial_read (mux_recv cb) (fst st) (snd st) bs) (\<lambda>(s, m). Some (Inr (s, m\<lparr>ver := version s\<rparr>)))"

section \<open>The steps of the multiplexer, and its invariant\<close>

inductive mux_step :: "callbacks \<Rightarrow> qemud_serial \<times> qemud_multiplexer \<Rightarrow> qemud_serial \<times> qemud_multiplexer \<Rightarrow> bool" for cb where
  register: "mux_step cb (s, m) (s, qemud_service_register name mx m)"
| input: "qemud_input cb st bs = Some (Inr st') \<Longrightarrow> mux_step cb st st'"
| call: "api a m = Inr m' \<Longrightarrow> mux_step cb (s, m) (s, m')"

inductive mux_reach :: "callbacks \<Rightarrow> qemud_serial \<times> qemud_multiplexer \<Rightarrow> bool" for cb where
  start: "mux_reach cb qemud_multiplexer_init"
| step: "mux_reach cb st \<Longrightarrow> mux_step cb st st' \<Longrightarrow> mux_reach cb st'"

text \<open>Who owns which client, and what each service must know of its clients.\<close>

definition owners :: "qemud_multiplexer \<Rightarrow> (nat \<times> nat option) list" where
  "owners m = map (\<lambda>o'. (obj_id o', service o')) (clients m)"

definition service_ok :: "(nat \<times> nat option) list \<Rightarrow> nat \<Rightarrow> qemud_service \<Rightarrow> bool" where
  "service_ok ow j s \<longleftrightarrow> num_clients s = int (length (sv_clients s)) \<and> distinct (sv_clients s) \<and>
     (\<forall>i. i \<in> set (sv_clients s) \<longleftrightarrow> (i, Some j) \<in> set ow) \<and> (max_clients s > 0 \<longrightarrow> num_clients s \<le> max_clients s)"

definition mux_wf :: "qemud_multiplexer \<Rightarrow> bool" where
  "mux_wf m \<longleftrightarrow> distinct (map fst (owners m)) \<and> (\<forall>i \<in> fst ` set (owners m). i < next_id m) \<and>
     distinct (map fst (services m)) \<and> (\<forall>(j, s) \<in> set (services m). j < next_id m \<and> service_ok (owners m) j s) \<and>
     (\<forall>i j. (i, Some j) \<in> set (owners m) \<longrightarrow> j \<in> fst ` set (services m))"

text \<open>Changes that do not concern the invariant.\<close>

definition same_shape :: "qemud_multiplexer \<Rightarrow> qemud_multiplexer \<Rightarrow> bool" where
  "same_shape m m' \<longleftrightarrow> owners m' = owners m \<and> services m' = services m \<and> next_id m' = next_id m"

lemma same_shape_wf: "same_shape m m' \<Longrightarrow> mux_wf m \<Longrightarrow> mux_wf m'"
  by (simp add: same_shape_def mux_wf_def)

lemma same_shape_trans: "same_shape m m' \<Longrightarrow> same_shape m' m'' \<Longrightarrow> same_shape m m''"
  by (simp add: same_shape_def)

lemma same_shape_simps [simp]:
  "same_shape m m" "same_shape m (store_client m i c)" "same_shape m (m\<lparr>ver := v\<rparr>)"
  "same_shape m (m\<lparr>written := w\<rparr>)" "same_shape m (m\<lparr>received := rs\<rparr>)" "same_shape m (m\<lparr>closed := cs\<rparr>)"
  by (auto simp: same_shape_def owners_def store_client_def)

lemma mux_send_shape: "mux_send m ch fr msg = Inr m' \<Longrightarrow> same_shape m m'"
  by (cases "qemud_serial_send (ver m) ch fr msg") (auto simp: mux_send_def)

lemma broadcast_shape: "broadcast_loop is msg m = Inr m' \<Longrightarrow> same_shape m m'"
proof (induction "is" msg m rule: broadcast_loop.induct)
  case (2 i "is" msg m)
  then obtain c m1 where c: "lookup_client m i = Some c" "mux_send m (channel (client c)) (framing (client c)) msg = Inr m1"
    "broadcast_loop is msg m1 = Inr m'"
    by (auto split: option.splits sum.splits)
  then show ?case using 2(1) same_shape_trans mux_send_shape by blast
qed simp

lemma send_wf: "mux_send m ch fr msg = Inr m' \<Longrightarrow> mux_wf m \<Longrightarrow> mux_wf m'"
  by (rule same_shape_wf [OF mux_send_shape])

lemma broadcast_wf: "broadcast_loop is msg m = Inr m' \<Longrightarrow> mux_wf m \<Longrightarrow> mux_wf m'"
  by (rule same_shape_wf [OF broadcast_shape])

lemma shape_wf:
  "mux_wf m \<Longrightarrow> mux_wf (store_client m i c)" "mux_wf m \<Longrightarrow> mux_wf (m\<lparr>ver := v\<rparr>)"
  "mux_wf m \<Longrightarrow> mux_wf (m\<lparr>received := rs\<rparr>)"
  by (rule same_shape_wf [OF same_shape_simps(2)], assumption)
    (rule same_shape_wf [OF same_shape_simps(3)], assumption, rule same_shape_wf [OF same_shape_simps(5)], assumption)

lemma find_mem: "find P xs = Some x \<Longrightarrow> x \<in> set xs \<and> P x"
  by (auto simp: find_Some_iff)

lemma update_owners [simp]: "owners (update_service m sv f) = owners m" "next_id (update_service m sv f) = next_id m"
  "map fst (services (update_service m sv f)) = map fst (services m)"
  by (auto simp: owners_def update_service_def)

lemma in_update_service:
  "(j, s) \<in> set (services (update_service m sv f)) \<Longrightarrow> \<exists>s0. (j, s0) \<in> set (services m) \<and> s = (if j = sv then f s0 else s0)"
  by (auto simp: update_service_def split: if_splits)

lemma client_new_wf:
  assumes wf: "mux_wf m" and sv: "(sv, s) \<in> set (services m)" and lim: "\<not> (max_clients s > 0 \<and> num_clients s \<ge> max_clients s)"
  shows "mux_wf (qemud_client_new sv ch m)"
proof -
  let ?m = "qemud_client_new sv ch m"
  have ow: "owners ?m = (next_id m, Some sv) # owners m" "next_id ?m = Suc (next_id m)"
    "map fst (services ?m) = map fst (services m)"
    by (auto simp: qemud_client_new_def qemud_client_prepend_def owners_def update_service_def)
  have sv': "services ?m = services (update_service m sv (qemud_service_add_client (next_id m)))"
    by (simp add: qemud_client_new_def qemud_client_prepend_def update_service_def)
  have fresh: "next_id m \<notin> fst ` set (owners m)" using wf by (auto simp: mux_wf_def)
  have sv_only: "s0 = s" if "(sv, s0) \<in> set (services m)" for s0
    using that sv wf by (auto simp: mux_wf_def dest: eq_key_imp_eq_value)
  have "j < next_id ?m \<and> service_ok (owners ?m) j t" if t: "(j, t) \<in> set (services ?m)" for j t
  proof -
    obtain s0 where s0: "(j, s0) \<in> set (services m)" "t = (if j = sv then qemud_service_add_client (next_id m) s0 else s0)"
      using in_update_service [OF t [unfolded sv']] by blast
    then have "j < next_id m" "service_ok (owners m) j s0" using wf by (auto simp: mux_wf_def)
    then show ?thesis using s0 sv_only lim fresh
      by (auto simp: ow service_ok_def qemud_service_add_client_def image_iff)
  qed
  moreover have "fst ` set (services ?m) = fst ` set (services m)" using ow(3) by (metis list.set_map)
  moreover have "sv \<in> fst ` set (services m)" using sv by force
  ultimately show ?thesis using wf fresh ow by (auto simp: mux_wf_def less_SucI)
qed

lemma register_wf: "mux_wf m \<Longrightarrow> mux_wf (qemud_service_register name mx m)"
  by (auto simp: mux_wf_def qemud_service_register_def qemud_service_new_def owners_def service_ok_def image_iff less_SucI
      dest: less_imp_neq) force+

lemma remove_owners: "owners (qemud_client_remove m i) = filter (\<lambda>p. fst p \<noteq> i) (owners m)"
  "services (qemud_client_remove m i) = services m" "next_id (qemud_client_remove m i) = next_id m"
  by (auto simp: qemud_client_remove_def owners_def filter_map comp_def)

lemma remove_service_ok:
  assumes "service_ok ow j s"
  shows "service_ok (filter (\<lambda>p. fst p \<noteq> i) ow) j (qemud_service_remove_client i s)"
proof (cases "i \<in> set (sv_clients s)")
  case True
  then have "int (length (remove1 i (sv_clients s))) = int (length (sv_clients s)) - 1"
    using length_pos_if_in_set [of i "sv_clients s"] by (simp add: length_remove1 of_nat_diff Suc_leI)
  then show ?thesis using assms True by (auto simp: service_ok_def qemud_service_remove_client_def)
qed (use assms in \<open>auto simp: service_ok_def qemud_service_remove_client_def\<close>)

text \<open>A client leaves: its service forgets it too.\<close>

lemma leave_wf:
  assumes wf: "mux_wf m" and c: "(i, Some sv) \<in> set (owners m)"
  shows "mux_wf (update_service (qemud_client_remove m i) sv (qemud_service_remove_client i))"
proof -
  let ?m = "update_service (qemud_client_remove m i) sv (qemud_service_remove_client i)"
  have only: "p = Some sv" if "(i, p) \<in> set (owners m)" for p
    using that c wf by (auto simp: mux_wf_def dest: eq_key_imp_eq_value)
  have "j < next_id m \<and> service_ok (owners ?m) j t" if t: "(j, t) \<in> set (services ?m)" for j t
  proof -
    obtain s0 where s0: "(j, s0) \<in> set (services m)" "t = (if j = sv then qemud_service_remove_client i s0 else s0)"
      using in_update_service [OF t] unfolding remove_owners by blast
    then have "j < next_id m" "service_ok (owners m) j s0" using wf by (auto simp: mux_wf_def)
    moreover have "i \<notin> set (sv_clients s0)" if "j \<noteq> sv"
      using only [of "Some j"] that calculation(2) by (simp add: service_ok_def) blast
    then have "t = qemud_service_remove_client i s0"
      unfolding s0(2) qemud_service_remove_client_def by simp
    ultimately show ?thesis by (simp add: remove_owners remove_service_ok)
  qed
  moreover have "fst ` set (services ?m) = fst ` set (services m)"
    using update_owners(3) remove_owners(2) by (metis list.set_map)
  moreover have "distinct (map fst (owners ?m))" using wf by (auto simp: mux_wf_def remove_owners distinct_map_filter)
  ultimately show ?thesis using wf by (auto simp: mux_wf_def remove_owners)
qed

lemma leave_control_wf:
  assumes wf: "mux_wf m" and c: "(i, None) \<in> set (owners m)"
  shows "mux_wf (qemud_client_remove m i)"
proof -
  have only: "p = None" if "(i, p) \<in> set (owners m)" for p
    using that c wf by (auto simp: mux_wf_def dest: eq_key_imp_eq_value)
  have "j < next_id m \<and> service_ok (filter (\<lambda>p. fst p \<noteq> i) (owners m)) j s" if s: "(j, s) \<in> set (services m)" for j s
  proof -
    have ok: "j < next_id m" "service_ok (owners m) j s" using wf s by (auto simp: mux_wf_def)
    then have "i \<notin> set (sv_clients s)" using only [of "Some j"] by (auto simp: service_ok_def)
    then show ?thesis using remove_service_ok [OF ok(2), of i] ok(1) by (simp add: qemud_service_remove_client_def)
  qed
  moreover have "distinct (map fst (owners (qemud_client_remove m i)))"
    using wf by (auto simp: mux_wf_def remove_owners distinct_map_filter)
  ultimately show ?thesis using wf by (auto simp: mux_wf_def remove_owners)
qed

lemma update_shape: "same_shape m m' \<Longrightarrow> same_shape (update_service m sv f) (update_service m' sv f)"
  by (auto simp: same_shape_def) (auto simp: update_service_def)

lemma disconnect_wf:
  assumes wf: "mux_wf m" and c: "(obj_id c, service c) \<in> set (owners m)" and d: "qemud_client_disconnect m c = Inr m'"
  shows "mux_wf m'"
proof -
  let ?m = "qemud_client_remove m (obj_id c)"
  let ?r = "if channel (client c) > 0 then mux_send ?m 0 False (ascii ''disconnect:'' @ hex02 (channel (client c))) else Inr ?m"
  obtain m1 where r: "?r = Inr m1" using d by (cases ?r) (auto simp: qemud_client_disconnect_def)
  then have m1: "same_shape ?m m1" using mux_send_shape by (auto split: if_splits)
  have m': "m' = (case service c of None \<Rightarrow> m1 | Some sv \<Rightarrow>
      update_service (m1\<lparr>closed := closed m1 @ [obj_id c]\<rparr>) sv (qemud_service_remove_client (obj_id c)))"
    using d r unfolding qemud_client_disconnect_def Let_def by simp
  show ?thesis
  proof (cases "service c")
    case None
    then show ?thesis using m' m1 same_shape_wf leave_control_wf [OF wf] c by auto
  next
    case (Some sv)
    have "same_shape ?m (m1\<lparr>closed := closed m1 @ [obj_id c]\<rparr>)" using same_shape_trans [OF m1] by simp
    from same_shape_wf [OF update_shape [OF this] leave_wf [OF wf]] show ?thesis using m' Some c by simp
  qed
qed

lemma owners_obj: "o' \<in> set (clients m) \<Longrightarrow> (obj_id o', service o') \<in> set (owners m)"
  by (auto simp: owners_def)

lemma api_wf: "mux_wf m \<Longrightarrow> api a m = Inr m' \<Longrightarrow> mux_wf m'"
proof (cases a)
  case (Client_Close i)
  assume wf: "mux_wf m" and a: "api a m = Inr m'"
  then obtain c where c: "lookup_client m i = Some c" "qemud_client_disconnect m c = Inr m'"
    using Client_Close by (auto split: option.splits)
  then have "(obj_id c, service c) \<in> set (owners m)"
    using find_mem [of _ "clients m" c] owners_obj by (auto simp: lookup_client_def)
  then show ?thesis using disconnect_wf [OF wf] c by blast
qed (auto split: option.splits dest: send_wf broadcast_wf simp: shape_wf)

lemma api_calls_wf: "mux_wf m \<Longrightarrow> api_calls as m = Inr m' \<Longrightarrow> mux_wf m'"
  by (induction "as" m rule: api_calls.induct) (auto split: sum.splits dest: api_wf)

lemma connect_wf:
  assumes "qemud_multiplexer_connect cb m name ch = Inr (m', ret)" and wf: "mux_wf m"
  shows "mux_wf m'"
proof (cases "find (\<lambda>(j, s). sv_name s = name) (services m)")
  case None
  then show ?thesis using assms by (simp add: qemud_multiplexer_connect_def)
next
  case (Some p)
  obtain sv s where p: "p = (sv, s)" by (cases p)
  have "(sv, s) \<in> set (services m)" using find_mem [OF Some] p by simp
  then show ?thesis using assms Some p client_new_wf [OF wf, of sv s ch] api_calls_wf
    by (auto simp: qemud_multiplexer_connect_def split: if_splits prod.splits sum.splits)
qed

lemma map_sum_Inr: "map_sum id f x = Inr y \<Longrightarrow> \<exists>z. x = Inr z \<and> y = f z"
  by (cases x) auto

lemma legacy_wf: "legacy_connect cb m msg = Inr m' \<Longrightarrow> mux_wf m \<Longrightarrow> mux_wf m'"
  by (auto simp: legacy_connect_def Let_def shape_wf split: option.splits if_splits dest!: map_sum_Inr connect_wf)

lemma mux_disconnect_wf:
  assumes "qemud_multiplexer_disconnect m ch = Inr m'" and wf: "mux_wf m"
  shows "mux_wf m'"
proof (cases "find (\<lambda>o'. channel (client o') = ch) (clients m)")
  case (Some c)
  let ?c = "c\<lparr>client := (client c)\<lparr>channel := -1\<rparr>\<rparr>"
  have "(obj_id ?c, service ?c) \<in> set (owners m)" using find_mem [OF Some] owners_obj by simp
  then show ?thesis using disconnect_wf [OF wf, of ?c m'] assms(1) Some by (simp add: qemud_multiplexer_disconnect_def)
qed (use assms in \<open>simp add: qemud_multiplexer_disconnect_def\<close>)

lemma control_wf: "qemud_multiplexer_control_recv cb m msg = Inr m' \<Longrightarrow> mux_wf m \<Longrightarrow> mux_wf m'"
  by (auto simp: qemud_multiplexer_control_recv_def Let_def split: if_splits option.splits sum.splits
      dest: mux_disconnect_wf legacy_wf send_wf dest!: connect_wf)

lemma message_keeps: "keeps mux_wf (message_recv cb i sv)"
  unfolding keeps_def
proof (intro allI impI)
  fix m msg c m' co
  assume wf: "mux_wf m" and m: "message_recv cb i sv m msg c = Some (Inr (m', co))"
  let ?m = "store_client m i c"
  have "mux_wf ?m" "mux_wf (?m\<lparr>received := received ?m @ [(i, msg)]\<rparr>)"
    using wf by (simp_all add: shape_wf)
  then show "mux_wf m'" using m
    by (auto simp: message_recv_def Let_def split: sum.splits option.splits intro: api_calls_wf dest!: control_wf)
qed

lemma serial_recv_wf:
  assumes wf: "mux_wf m" and "qemud_multiplexer_serial_recv cb m ch msg = Some (Inr m')"
  shows "mux_wf m'"
  using assms client_recv_inv [OF message_keeps _ wf]
  by (fastforce simp: qemud_multiplexer_serial_recv_def obind_eq_SomeInr shape_wf split: option.splits)

lemma mux_recv_wf: "\<forall>m v c msg m' v'. mux_wf m \<longrightarrow> mux_recv cb m v c msg = Some (Inr (m', v')) \<longrightarrow> mux_wf m'"
  using serial_recv_wf [OF shape_wf(2)] by (auto simp: mux_recv_def obind_eq_SomeInr)

lemma mux_init_wf: "serial_wf (fst qemud_multiplexer_init)" "mux_wf (snd qemud_multiplexer_init)"
  by (simp_all add: qemud_multiplexer_init_def qemud_serial_init_def serial_wf_def qemud_sink_reset_def qemud_sizes
    qemud_client_prepend_def mux_wf_def owners_def)

lemma mux_invariant: "mux_reach cb st \<Longrightarrow> serial_wf (fst st) \<and> mux_wf (snd st)"
proof (induction rule: mux_reach.induct)
  case (step st st')
  from step.hyps(2) show ?case
  proof cases
    case (input bs)
    then obtain s m where r: "qemud_serial_read (mux_recv cb) (fst st) (snd st) bs = Some (Inr (s, m))"
      and st': "st' = (s, m\<lparr>ver := version s\<rparr>)"
      by (auto simp: qemud_input_def obind_eq_SomeInr)
    have "serial_wf s \<and> mux_wf m" by (rule serial_read_inv [OF _ mux_recv_wf _ r]) (use step.IH in simp_all)
    then show ?thesis using st' by (simp add: shape_wf)
  qed (use step.IH in \<open>auto simp: register_wf dest: api_wf\<close>)
qed (simp add: mux_init_wf)

lemma service_set:
  assumes "mux_wf m" "(j, s) \<in> set (services m)"
  shows "set (sv_clients s) = obj_id ` {o' \<in> set (clients m). service o' = Some j}"
proof -
  have "(i, Some j) \<in> set (owners m) \<longleftrightarrow> i \<in> obj_id ` {o' \<in> set (clients m). service o' = Some j}" for i
    by (force simp: owners_def)
  moreover have "service_ok (owners m) j s" using assms by (auto simp: mux_wf_def)
  ultimately show ?thesis by (auto simp: service_ok_def)
qed

lemma service_count:
  assumes "mux_wf m" "(j, s) \<in> set (services m)"
  shows "length (sv_clients s) = length (filter (\<lambda>o'. service o' = Some j) (clients m))"
proof -
  let ?cs = "filter (\<lambda>o'. service o' = Some j) (clients m)"
  have "distinct (map obj_id (clients m))" using assms(1) by (simp add: mux_wf_def owners_def comp_def)
  then have "distinct (map obj_id ?cs)" by (simp add: distinct_map_filter)
  moreover have "set (map obj_id ?cs) = set (sv_clients s)" "distinct (sv_clients s)"
    using service_set [OF assms] assms by (auto simp: mux_wf_def service_ok_def)
  ultimately show ?thesis by (metis distinct_card length_map)
qed

section \<open>Requests on the control channel\<close>

lemma strchr_idx_append: "c \<notin> set xs \<Longrightarrow> 0 \<notin> set xs \<Longrightarrow> strchr_idx (xs @ c # ys) c = Some (length xs)"
  by (induction xs) auto

lemma split_connect_request:
  assumes "length pre = off" "58 \<notin> set name" "0 \<notin> set name" "0 < ch" "ch < 256"
  shows "split_connect off (pre @ name @ 58 # int2hex 2 ch) = Some (name, ch)"
proof -
  have "drop off (pre @ name @ 58 # int2hex 2 ch) = name @ 58 # int2hex 2 ch" using assms(1) by simp
  moreover have "hex2int (int2hex 2 ch) = ch" using hex2int_int2hex [of ch 2] assms by simp
  ultimately show ?thesis using assms strchr_idx_append [OF assms(2,3), of "int2hex 2 ch"]
    by (simp add: split_connect_def Let_def length_int2hex)
qed

lemma hex02_byte:
  assumes "0 \<le> n" "n < 256"
  shows "hex02 n = int2hex 2 n"
proof -
  obtain k where k: "n = int k" using assms(1) zero_le_imp_eq_int by blast
  have "int2hex 2 n = [hexchars ! (k div 16 mod 16), hexchars ! (k mod 16)]"
    using nibble [of 1 n] nibble [of 0 n] by (simp add: numeral_2_eq_2 k nat_mod_distrib nat_div_distrib)
  moreover have "hex02 n = [hexchars ! (k div 16 mod 16), hexchars ! (k mod 16)]"
  proof (cases "k < 16")
    case True
    then show ?thesis by (simp add: hex02_def k hex_digits.simps [of k]) (simp add: hexchars_def)
  next
    case False
    then have "k div 16 < 16" using assms k by simp
    then show ?thesis using False by (simp add: hex02_def k hex_digits.simps [of k] hex_digits.simps [of "k div 16"])
  qed
  ultimately show ?thesis by simp
qed

lemma mux_send_total: "0 \<le> ch \<Longrightarrow> \<exists>ws. mux_send m ch fr msg = Inr (m\<lparr>written := written m @ ws\<rparr>) \<and>
    qemud_serial_send (ver m) ch fr msg = Inr ws"
  using serial_send_packets [of ch "ver m" fr msg] by (auto simp: mux_send_def)

section \<open>Messages through the multiplexer\<close>

text \<open>The multiplexer after messages for client \<open>i\<close>, which is now in the state \<open>c\<close>.\<close>

definition after_messages :: "qemud_multiplexer \<Rightarrow> nat \<Rightarrow> qemud_client \<Rightarrow> byte list list \<Rightarrow> qemud_multiplexer" where
  "after_messages m i c log = store_client (m\<lparr>received := received m @ map (Pair i) log\<rparr>) i c"

lemma store_lookup:
  assumes "o' \<in> set (clients m)" "obj_id o' = i"
  shows "map_option client (lookup_client (store_client m i c) i) = Some c"
proof -
  have "map_option client (find (\<lambda>o'. obj_id o' = i) (map (\<lambda>o'. if obj_id o' = i then o'\<lparr>client := c\<rparr> else o') xs)) = Some c"
    if "o' \<in> set xs" for xs using that assms(2) by (induction xs) auto
  then show ?thesis using assms(1) by (simp add: lookup_client_def store_client_def)
qed

lemma store_find:
  assumes "mux_wf m" "find (\<lambda>o'. channel (client o') = ch) (clients m) = Some o'" "channel c = ch"
  shows "find (\<lambda>o'. channel (client o') = ch) (clients (store_client m (obj_id o') c)) = Some (o'\<lparr>client := c\<rparr>)"
proof -
  let ?P = "\<lambda>o'. channel (client o') = ch"
  have "find ?P (map (\<lambda>p. if obj_id p = obj_id o' then p\<lparr>client := c\<rparr> else p) xs) = Some (o'\<lparr>client := c\<rparr>)"
    if "find ?P xs = Some o'" "distinct (map obj_id xs)" for xs
    using that
  proof (induction xs)
    case (Cons x xs)
    show ?case
    proof (cases "?P x")
      case False
      then have "find ?P xs = Some o'" using Cons.prems by simp
      with find_mem [OF this] Cons False show ?thesis by force
    qed (use Cons.prems assms(3) in simp)
  qed simp
  moreover have "distinct (map obj_id (clients m))" using assms(1) by (simp add: mux_wf_def owners_def comp_def)
  ultimately show ?thesis using assms(2) by (simp add: store_client_def)
qed

lemma store_same:
  assumes "mux_wf m" "o' \<in> set (clients m)"
  shows "store_client m (obj_id o') (client o') = m"
proof -
  have "inj_on obj_id (set (clients m))" using assms(1) by (simp add: mux_wf_def owners_def comp_def distinct_map)
  then have "(if obj_id p = obj_id o' then p\<lparr>client := client o'\<rparr> else p) = p" if "p \<in> set (clients m)" for p
    using assms(2) that inj_on_eq_iff [of obj_id "set (clients m)" p o'] by simp
  then have "map (\<lambda>p. if obj_id p = obj_id o' then p\<lparr>client := client o'\<rparr> else p) (clients m) = clients m"
    by (rule map_idI)
  then show ?thesis by (simp add: store_client_def)
qed

lemma store_store: "store_client (store_client m i c) i c' = store_client m i c'"
  by (simp add: store_client_def)

lemma message_simulates:
  assumes "o' \<in> set (clients m)" "obj_id o' = i" and quiet: "\<And>m msg. on_message cb m i msg = []"
  shows "simulates (\<lambda>mx log. \<exists>c. mx = after_messages m i c log) (message_recv cb i (Some sv)) (the (handles msg_recorder))"
proof -
  have "message_recv cb i (Some sv) (after_messages m i c0 log) msg c = Some (Inr (after_messages m i c (log @ [msg]), Some c))" for c0 log msg c
    using quiet store_lookup [of o' "m\<lparr>received := received m @ map (Pair i) log @ [(i, msg)]\<rparr>" i c] assms(1,2)
    by (simp add: message_recv_def after_messages_def store_store) (simp add: store_client_def lookup_client_def)
  then show ?thesis by (auto simp: simulates_def handles_def msg_recorder_def)
qed

lemma after_messages_serial:
  assumes wf: "mux_wf m" and o': "find (\<lambda>o'. channel (client o') = ch) (clients m) = Some o'" "service o' = Some sv"
    and quiet: "\<And>m msg. on_message cb m (obj_id o') msg = []" and c: "channel c = ch"
    and rd: "client_reader msg_recorder (c, log) p = Some (Inr (c', log'))"
  shows "qemud_multiplexer_serial_recv cb (after_messages m (obj_id o') c log) ch p = Some (Inr (after_messages m (obj_id o') c' log'))"
proof -
  let ?i = "obj_id o'"
  let ?R = "\<lambda>mx log. \<exists>c. mx = after_messages m ?i c log"
  have h: "handles msg_recorder = Some (the (handles msg_recorder))" by (simp add: handles_def)
  have "qemud_client_recv (Some (the (handles msg_recorder))) c log p = Some (Inr (Some c', log'))"
    using rd h by (auto simp: client_reader_def obind_eq_SomeInr split: option.splits)
  moreover have "simulates ?R (message_recv cb ?i (Some sv)) (the (handles msg_recorder))"
    using message_simulates [where o' = o' and m = m and sv = sv and cb = cb and i = ?i] find_mem [OF o'(1)] quiet by simp
  ultimately obtain c1 where run: "qemud_client_recv (Some (message_recv cb ?i (Some sv))) c (after_messages m ?i c log) p =
      Some (Inr (Some c', after_messages m ?i c1 log'))"
    using client_recv_sim [where R = ?R and r = "after_messages m ?i c log" and c = c and q = log and msg = p] by blast
  have "find (\<lambda>o'. channel (client o') = ch) (clients (after_messages m ?i c log)) = Some (o'\<lparr>client := c\<rparr>)"
    unfolding after_messages_def using o' c shape_wf(3) [OF wf] by (intro store_find) simp_all
  then show ?thesis using run o'(2)
    by (simp add: qemud_multiplexer_serial_recv_def) (simp add: after_messages_def store_store)
qed

lemma after_messages_ver: "(after_messages m i c log)\<lparr>ver := v\<rparr> = after_messages (m\<lparr>ver := v\<rparr>) i c log"
  "ver (after_messages m i c log) = ver m"
  by (simp_all add: after_messages_def store_client_def)

lemma packets_to_client:
  assumes wf: "mux_wf m" and o': "find (\<lambda>o'. channel (client o') = ch) (clients m) = Some o'" "service o' = Some sv"
    and quiet: "\<And>m msg. on_message cb m (obj_id o') msg = []" and ch: "0 \<le> ch" "ch < 256" and v: "ver m = spoken v"
    and "channel c = ch" "client_ok (c, log) (concat ps)" "serial_ready v s" "\<forall>p \<in> set ps. p \<noteq> [] \<and> length p \<le> 4000"
    and "read_pieces (client_reader msg_recorder) (c, log) ps = Some (Inr (c', log'))"
  shows "\<exists>s'. serial_ready v s' \<and> qemud_serial_read (mux_recv cb) s (after_messages m (obj_id o') c log)
      (concat (map (\<lambda>p. packet_header v ch (int (length p)) @ p) ps)) = Some (Inr (s', after_messages m (obj_id o') c' log'))"
  using assms(8-12)
proof (induction ps arbitrary: c log s)
  case Nil
  then show ?case by (auto simp: serial_read_Nil)
next
  case (Cons p ps)
  let ?i = "obj_id o'"
  let ?rest = "concat (map (\<lambda>p. packet_header v ch (int (length p)) @ p) ps)"
  from Cons.prems(5) obtain c1 log1 where 1: "client_reader msg_recorder (c, log) p = Some (Inr (c1, log1))"
    "read_pieces (client_reader msg_recorder) (c1, log1) ps = Some (Inr (c', log'))"
    by (auto simp: obind_eq_SomeInr)
  have ok: "client_ok (c, log) (p @ concat ps)" using Cons.prems(2) by simp
  have c1: "channel c1 = ch" using client_reader_channel [OF client_ok_prefix [OF ok] 1(1)] Cons.prems(1) by simp
  have sv: "(spoken v = QEMUD_VERSION_LEGACY) = (v = QEMUD_VERSION_LEGACY)" by (simp add: spoken_def)
  have mv: "m\<lparr>ver := spoken v\<rparr> = m" using v by simp
  have recv: "mux_recv cb (after_messages m ?i c log) (spoken v) ch p = Some (Inr (after_messages m ?i c1 log1, spoken v))"
    using after_messages_serial [OF wf o' quiet Cons.prems(1) 1(1)] v by (simp add: mux_recv_def after_messages_ver mv)
  have p: "p \<noteq> []" "length p \<le> 4000" using Cons.prems(4) by simp_all
  obtain s1 where s1: "serial_ready v s1" "qemud_serial_read (mux_recv cb) s (after_messages m ?i c log)
      (packet_header v ch (int (length p)) @ p @ ?rest) = qemud_serial_read (mux_recv cb) s1 (after_messages m ?i c1 log1) ?rest"
    using read_packet [where recv = "mux_recv cb" and rest = ?rest, OF Cons.prems(3) ch p recv sv] by blast
  from Cons.IH [OF c1 framed_client.read_ok [OF ok 1(1)] s1(1) _ 1(2)] Cons.prems(4) s1(2) show ?case by auto
qed

lemma disconnect_new:
  assumes wf: "mux_wf m"
  shows "qemud_multiplexer_disconnect (qemud_client_new sv ch m) ch =
    Inr (m\<lparr>closed := closed m @ [next_id m], next_id := next_id m + 1\<rparr>)"
proof -
  let ?i = "next_id m"
  have "\<forall>o' \<in> set (clients m). obj_id o' \<noteq> ?i" using wf by (force simp: mux_wf_def owners_def)
  then have f: "filter (\<lambda>o'. obj_id o' \<noteq> ?i) (clients m) = clients m" by (simp add: filter_id_conv)
  have "?i \<notin> set (sv_clients s)" if "(j, s) \<in> set (services m)" for j s
    using wf that by (auto simp: mux_wf_def service_ok_def) force
  then have g: "map (\<lambda>(j, s). (j, if j = sv then qemud_service_remove_client ?i s else s))
      (map (\<lambda>(j, s). (j, if j = sv then qemud_service_add_client ?i s else s)) (services m)) = services m"
    unfolding map_map by (intro map_idI) (auto simp: qemud_service_remove_client_def qemud_service_add_client_def)
  show ?thesis using f g
    by (simp add: qemud_multiplexer_disconnect_def qemud_client_new_def qemud_client_prepend_def update_service_def
        qemud_client_disconnect_def qemud_client_remove_def qemud_client_alloc_def del: map_map)
qed

lemma control_connect:
  assumes "58 \<notin> set name" "0 \<notin> set name" "0 < ch" "ch < 256"
  shows "qemud_multiplexer_control_recv cb m (ascii ''connect:'' @ name @ 58 # int2hex 2 ch) =
    (case qemud_multiplexer_connect cb m name ch of Inl e \<Rightarrow> Inl e | Inr (m, ret) \<Rightarrow> mux_send m 0 False (connect_answer ret ch))"
proof -
  have "length (ascii ''connect:'') = 8" by (simp add: ascii_def)
  with split_connect_request [of "ascii ''connect:''" 8 name ch] assms show ?thesis
    by (simp add: qemud_multiplexer_control_recv_def)
qed

text \<open>A state that is reached: the guest connected one client to a service that takes one.\<close>

definition accepting :: callbacks where
  "accepting = \<lparr>on_connect = \<lambda>m sv ch. (True, []), on_message = \<lambda>m i msg. []\<rparr>"

lemma one_client_reached:
  "\<exists>s m. mux_reach accepting (s, m) \<and>
    (1, \<lparr>sv_name = ascii ''gsm'', max_clients = 1, num_clients = 1, sv_clients = [2]\<rparr>) \<in> set (services m)"
proof -
  let ?cb = accepting
  define m1 where "m1 = qemud_service_register (ascii ''gsm'') 1 (snd qemud_multiplexer_init)"
  define m2 where "m2 = store_client (m1\<lparr>ver := QEMUD_VERSION_NORMAL\<rparr>) 0 (qemud_client_alloc 0)"
  let ?msg = "ascii ''connect:'' @ ascii ''gsm'' @ 58 # int2hex 2 1"
  note defs = m1_def m2_def qemud_service_register_def qemud_service_new_def qemud_multiplexer_init_def qemud_serial_init_def
    qemud_client_prepend_def store_client_def
  have m2: "services m2 = [(1, \<lparr>sv_name = ascii ''gsm'', max_clients = 1, num_clients = 0, sv_clients = []\<rparr>)]" "next_id m2 = 2"
    "ver m2 = QEMUD_VERSION_NORMAL" by (simp_all add: defs)
  obtain ws where "mux_send (qemud_client_new 1 1 m2) 0 False (connect_answer 0 1) = Inr ((qemud_client_new 1 1 m2)\<lparr>written := ws\<rparr>)"
    using mux_send_total [of 0 "qemud_client_new 1 1 m2" False] by (auto simp: mux_send_def)
  moreover define m3 where "m3 = (qemud_client_new 1 1 m2)\<lparr>written := ws\<rparr>"
  ultimately have ctl: "qemud_multiplexer_control_recv ?cb m2 ?msg = Inr m3"
    using m2(1) control_connect [of "ascii ''gsm''" 1 ?cb m2] by (simp add: qemud_multiplexer_connect_def accepting_def ascii_def)
  have m3: "services m3 = [(1, \<lparr>sv_name = ascii ''gsm'', max_clients = 1, num_clients = 1, sv_clients = [2]\<rparr>)]"
    "ver m3 = QEMUD_VERSION_NORMAL" "map_option client (lookup_client m3 0) = Some (qemud_client_alloc 0)"
    using m2 by (simp_all add: m3_def qemud_client_new_def qemud_client_prepend_def update_service_def qemud_service_add_client_def
      lookup_client_def) (simp_all add: defs)
  have "find (\<lambda>o'. channel (client o') = 0) (clients (m1\<lparr>ver := QEMUD_VERSION_NORMAL\<rparr>)) =
      Some \<lparr>obj_id = 0, client = qemud_client_alloc 0, service = None\<rparr>" by (simp add: defs qemud_client_alloc_def)
  moreover have "message_recv ?cb 0 None (m1\<lparr>ver := QEMUD_VERSION_NORMAL\<rparr>) ?msg (qemud_client_alloc 0) = Some (Inr (m3, Some (qemud_client_alloc 0)))"
    using ctl m3(3) by (simp add: message_recv_def flip: m2_def)
  moreover have "\<not> framing (qemud_client_alloc 0)" "ver (store_client m3 0 (qemud_client_alloc 0)) = ver m3"
    by (simp_all add: qemud_client_alloc_def store_client_def)
  ultimately have recv: "mux_recv ?cb m1 (spoken QEMUD_VERSION_NORMAL) 0 ?msg = Some (Inr (store_client m3 0 (qemud_client_alloc 0), QEMUD_VERSION_NORMAL))"
    using m3(2) by (simp add: mux_recv_def qemud_multiplexer_serial_recv_def spoken_def qemud_client_recv_def clie_recv_def)
  obtain s where "qemud_serial_read (mux_recv ?cb) (fst qemud_serial_init) m1 (packet_header QEMUD_VERSION_NORMAL 0 (int (length ?msg)) @ ?msg @ []) =
      Some (Inr (s, store_client m3 0 (qemud_client_alloc 0)))"
    using read_packet [where recv = "mux_recv accepting" and rest = "[]", OF init_ready [of QEMUD_VERSION_NORMAL] _ _ _ _ recv]
    by (auto simp: ascii_def length_int2hex serial_read_Nil)
  moreover have "fst qemud_multiplexer_init = fst qemud_serial_init" by (simp add: qemud_multiplexer_init_def split_def)
  ultimately have "qemud_input ?cb (fst qemud_multiplexer_init, m1) (packet_header QEMUD_VERSION_NORMAL 0 (int (length ?msg)) @ ?msg) =
      Some (Inr (s, (store_client m3 0 (qemud_client_alloc 0))\<lparr>ver := version s\<rparr>))" by (simp add: qemud_input_def)
  moreover have "mux_reach ?cb (fst qemud_multiplexer_init, m1)"
    using mux_reach.start [of ?cb] mux_step.register [of ?cb "fst qemud_multiplexer_init" "snd qemud_multiplexer_init" "ascii ''gsm''" 1]
    by (auto simp: m1_def intro: mux_reach.step)
  ultimately have r: "mux_reach ?cb (s, (store_client m3 0 (qemud_client_alloc 0))\<lparr>ver := version s\<rparr>)"
    using mux_step.input mux_reach.step by blast
  have sv: "(1, \<lparr>sv_name = ascii ''gsm'', max_clients = 1, num_clients = 1, sv_clients = [2]\<rparr>) \<in>
      set (services ((store_client m3 0 (qemud_client_alloc 0))\<lparr>ver := version s\<rparr>))" using m3 by (simp add: store_client_def)
  with r show ?thesis by blast
qed

section \<open>Properties\<close>

text \<open>
  Property C4 (invariant). In every state the multiplexer reaches, whatever the guest sends and whatever the services do,
  the count a service keeps is the number of its clients that are connected, its own list names
  exactly these clients, and a service with a limit never has more clients than that.
\<close>

theorem service_clients_bounded:
  assumes "mux_reach cb (s, m)" and "(j, sv) \<in> set (services m)"
  shows "num_clients sv = int (length (filter (\<lambda>o'. service o' = Some j) (clients m))) \<and>
    distinct (sv_clients sv) \<and>
    set (sv_clients sv) = obj_id ` {o' \<in> set (clients m). service o' = Some j} \<and>
    (max_clients sv > 0 \<longrightarrow> num_clients sv \<le> max_clients sv)"
proof -
  have wf: "mux_wf m" using mux_invariant [OF assms(1)] by simp
  then have ok: "service_ok (owners m) j sv" using assms(2) by (auto simp: mux_wf_def)
  with service_set [OF wf assms(2)] service_count [OF wf assms(2)] show ?thesis by (auto simp: service_ok_def)
qed

theorem service_clients_bounded_witness:
  "\<exists>s m sv. mux_reach accepting (s, m) \<and> (1, sv) \<in> set (services m) \<and> num_clients sv = 1 \<and> max_clients sv = 1 \<and>
     num_clients sv = int (length (filter (\<lambda>o'. service o' = Some 1) (clients m)))"
proof -
  obtain s m where r: "mux_reach accepting (s, m)"
    and sv: "(1, \<lparr>sv_name = ascii ''gsm'', max_clients = 1, num_clients = 1, sv_clients = [2]\<rparr>) \<in> set (services m)"
    using one_client_reached by blast
  show ?thesis using service_clients_bounded [OF r sv] r sv by fastforce
qed

text \<open>
  Remark (functional). A request \<open>connect:<name>:<id>\<close> on the control channel is answered \<open>ko:connect:<id>:unknown service\<close>
  when no service has the name or the service refuses, \<open>ko:connect:<id>:service busy\<close> when the
  service has all the clients it may have, and nothing changes in either case but for what a refusing service
  does; otherwise a client on that channel is added to the multiplexer and to the service, and the
  answer is \<open>ok:connect:<id>\<close>.
\<close>

theorem connect_request:
  assumes "58 \<notin> set name" and "0 \<notin> set name" and "0 < ch" and "ch < 256"
  shows "qemud_multiplexer_control_recv cb m (ascii ''connect:'' @ name @ 58 # int2hex 2 ch) =
    (case find (\<lambda>(j, s). sv_name s = name) (services m) of
       None \<Rightarrow> mux_send m 0 False (ascii ''ko:connect:'' @ int2hex 2 ch @ ascii '':unknown service'')
     | Some (sv, s) \<Rightarrow>
         if max_clients s > 0 \<and> num_clients s \<ge> max_clients s
         then mux_send m 0 False (ascii ''ko:connect:'' @ int2hex 2 ch @ ascii '':service busy'')
         else
           (case on_connect cb m sv ch of
              (accept, calls) \<Rightarrow>
                (case api_calls calls (if accept then qemud_client_new sv ch m else m) of
                   Inl e \<Rightarrow> Inl e
                 | Inr m \<Rightarrow> mux_send m 0 False
                     (if accept then ascii ''ok:connect:'' @ int2hex 2 ch
                      else ascii ''ko:connect:'' @ int2hex 2 ch @ ascii '':unknown service''))))"
proof -
  have "hex02 ch = int2hex 2 ch" using hex02_byte assms by simp
  then show ?thesis unfolding control_connect [OF assms]
    by (auto simp: qemud_multiplexer_connect_def connect_answer_def split: option.split prod.split sum.split)
qed

theorem connect_request_witness:
  "qemud_multiplexer_control_recv accepting
     (snd qemud_multiplexer_init) (ascii ''connect:gsm:01'') =
   mux_send (snd qemud_multiplexer_init) 0 False (ascii ''ko:connect:01:unknown service'')"
proof -
  have "int2hex 2 1 = [48, 49]" by (simp add: numeral_2_eq_2 hexchars_def)
  then show ?thesis
    using connect_request [of "ascii ''gsm''" 1 accepting "snd qemud_multiplexer_init"]
    by (simp add: ascii_def qemud_multiplexer_init_def qemud_serial_init_def qemud_client_prepend_def)
qed

text \<open>
  Remark (roundtrip). A client that connects and whose channel the guest then disconnects leaves no trace in the
  multiplexer but the number it used: the clients, the services and their counts are as before, nothing is sent, and the
  service is told.
\<close>

theorem connect_then_disconnect:
  assumes "mux_wf m"
  shows "qemud_multiplexer_disconnect (qemud_client_new sv ch m) ch =
    Inr (m\<lparr>closed := closed m @ [next_id m], next_id := next_id m + 1\<rparr>)"
  by (rule disconnect_new [OF assms])

theorem connect_then_disconnect_witness:
  "qemud_multiplexer_disconnect (qemud_client_new 1 5 (qemud_service_register (ascii ''gsm'') 1 (snd qemud_multiplexer_init))) 5 =
   Inr ((qemud_service_register (ascii ''gsm'') 1 (snd qemud_multiplexer_init))\<lparr>closed := [2], next_id := 3\<rparr>)"
  using connect_then_disconnect [OF register_wf [OF mux_init_wf(2)], of 1 5 "ascii ''gsm''" 1]
  by (simp add: qemud_service_register_def qemud_service_new_def qemud_multiplexer_init_def qemud_serial_init_def qemud_client_prepend_def)



end
