(* ===== verification/Hw_Sensors.thy ===== *)
theory Hw_Sensors
  imports Modem_State Qemud_Mux
begin

unbundle bit_operations_syntax

text \<open>
  The sensors service (\<open>android/hw-sensors.c\<close>): a client of the \<open>qemud\<close> service enables and disables sensors and sets the delay
  between reports; a timer sends the reports.

  The readings are floating point numbers that the console sets; what \<open>%g\<close> prints for them is a field here. Each function
  returns the client and the messages it sends, as text.
\<close>

section \<open>State\<close>

definition MAX_SENSORS :: nat where "MAX_SENSORS = 4"

definition sSensors :: "string list" where
  "sSensors = [''acceleration'', ''magnetic-field'', ''orientation'', ''temperature'']"

fun name_index :: "string list \<Rightarrow> string \<Rightarrow> nat option" where
  "name_index [] n = None"
| "name_index (x # xs) n = (if x = n then Some 0 else map_option Suc (name_index xs n))"

definition sensorIdFromName :: "string \<Rightarrow> nat option" where
  "sensorIdFromName name = name_index sSensors name"

record hw_sensors =
  sensor_enabled :: "bool list"
  sensor_text :: "nat \<Rightarrow> string"

text \<open>\<open>sensor_timer\<close> is when the client's timer expires, in nanoseconds, if it is pending.\<close>

record hw_sensor_client =
  enabledMask :: u32
  delay_ms :: int
  sensor_timer :: "int option"

definition hwSensors_init :: "bool \<Rightarrow> (nat \<Rightarrow> string) \<Rightarrow> hw_sensors" where
  "hwSensors_init hw_accelerometer txt = \<lparr>sensor_enabled = [hw_accelerometer, False, False, False], sensor_text = txt\<rparr>"

definition hwSensorClient_new :: hw_sensor_client where
  "hwSensorClient_new = \<lparr>enabledMask = 0, delay_ms = 1000, sensor_timer = None\<rparr>"

section \<open>Reports\<close>

definition hwSensorClient_enabled :: "hw_sensor_client \<Rightarrow> nat \<Rightarrow> bool" where
  "hwSensorClient_enabled cl sensorId \<longleftrightarrow> enabledMask cl AND push_bit sensorId 1 \<noteq> 0"

text \<open>A line fits \<open>buffer[128]\<close> or is cut.\<close>

definition sensor_line :: "hw_sensors \<Rightarrow> nat \<Rightarrow> string" where
  "sensor_line hw sensorId = take 127 (sSensors ! sensorId @ '':'' @ sensor_text hw sensorId)"

definition sensor_lines :: "hw_sensors \<Rightarrow> hw_sensor_client \<Rightarrow> string list" where
  "sensor_lines hw cl = map (sensor_line hw) (filter (hwSensorClient_enabled cl) [0..<MAX_SENSORS])"

definition hwSensorClient_tick :: "hw_sensors \<Rightarrow> int \<Rightarrow> hw_sensor_client \<Rightarrow> hw_sensor_client \<times> string list" where
  "hwSensorClient_tick hw now_ns cl =
     (let out = sensor_lines hw cl @ [take 127 (''sync:'' @ fmt_d (now_ns div 1000))]
      in if enabledMask cl = 0 then (cl, out)
         else
           (let delay = (if delay_ms cl < 20 then 20 else delay_ms cl)
            in (cl\<lparr>sensor_timer := Some (now_ns + delay * 1000000)\<rparr>, out)))"

section \<open>Messages\<close>

text \<open>The C string at an offset of a message, which has a zero byte behind it, and \<open>atoi\<close>.\<close>

definition c_str :: "byte list \<Rightarrow> nat \<Rightarrow> string" where
  "c_str msg off = map (\<lambda>b. char_of (unat b)) (takeWhile (\<lambda>b. b \<noteq> 0) (drop off msg))"

definition atoi :: "string \<Rightarrow> int" where
  "atoi s = sint (word_of_int (fst (strtol s)) :: 32 word)"

fun available_mask :: "nat \<Rightarrow> bool list \<Rightarrow> u32" where
  "available_mask nn [] = 0"
| "available_mask nn (e # es) = (if e then push_bit nn 1 else 0) OR available_mask (nn + 1) es"

definition set_sensor :: "hw_sensors \<Rightarrow> int \<Rightarrow> hw_sensor_client \<Rightarrow> string \<Rightarrow> hw_sensor_client \<times> string list" where
  "set_sensor hw now_ns cl s =
     (if CHR '':'' \<notin> set s then (cl, [])
      else
        (let name = takeWhile (\<lambda>c. c \<noteq> CHR '':'') s;
             q = tl (dropWhile (\<lambda>c. c \<noteq> CHR '':'') s)
         in case sensorIdFromName name of
              None \<Rightarrow> (cl, [])
            | Some sid \<Rightarrow>
                if \<not> sensor_enabled hw ! sid then (cl, [])
                else
                  (let mask = (if q \<noteq> [] \<and> hd q = CHR ''1'' then enabledMask cl OR push_bit sid 1
                               else enabledMask cl AND NOT (push_bit sid 1))
                   in hwSensorClient_tick hw now_ns (cl\<lparr>enabledMask := mask\<rparr>))))"

definition hwSensorClient_receive :: "hw_sensors \<Rightarrow> int \<Rightarrow> hw_sensor_client \<Rightarrow> byte list \<Rightarrow> hw_sensor_client \<times> string list" where
  "hwSensorClient_receive hw now_ns cl msg =
     (if length msg = 12 \<and> msg = ascii ''list-sensors'' then (cl, [fmt_d (uint (available_mask 0 (sensor_enabled hw)))])
      else if length msg = 4 \<and> msg = ascii ''wake'' then (cl, [''wake''])
      else if length msg > 10 \<and> take 10 msg = ascii ''set-delay:'' then
        (let cl = cl\<lparr>delay_ms := atoi (c_str msg 10)\<rparr>
         in if enabledMask cl \<noteq> 0 then hwSensorClient_tick hw now_ns cl else (cl, []))
      else if length msg > 4 \<and> take 4 msg = ascii ''set:'' then set_sensor hw now_ns cl (c_str msg 4)
      else (cl, []))"

section \<open>Steps\<close>

text \<open>The timer is taken out of the list before its callback runs.\<close>

inductive sensor_step :: "bool list \<Rightarrow> hw_sensor_client \<Rightarrow> hw_sensor_client \<Rightarrow> bool" for en where
  receive: "sensor_enabled hw = en \<Longrightarrow> hwSensorClient_receive hw now cl msg = (cl', out) \<Longrightarrow> sensor_step en cl cl'"
| expire: "sensor_enabled hw = en \<Longrightarrow> sensor_timer cl = Some t \<Longrightarrow> t \<le> now \<Longrightarrow>
    hwSensorClient_tick hw now (cl\<lparr>sensor_timer := None\<rparr>) = (cl', out) \<Longrightarrow> sensor_step en cl cl'"

inductive sensor_reach :: "bool list \<Rightarrow> hw_sensor_client \<Rightarrow> bool" for en where
  start: "sensor_reach en hwSensorClient_new"
| step: "sensor_reach en cl \<Longrightarrow> sensor_step en cl cl' \<Longrightarrow> sensor_reach en cl'"

definition sensor_ok :: "bool list \<Rightarrow> hw_sensor_client \<Rightarrow> bool" where
  "sensor_ok en cl \<longleftrightarrow> (enabledMask cl \<noteq> 0 \<longrightarrow> sensor_timer cl \<noteq> None) \<and> (\<forall>n. bit (enabledMask cl) n \<longrightarrow> n < MAX_SENSORS \<and> en ! n)"

lemma tick_ok:
  assumes "hwSensorClient_tick hw now cl = (cl', out)"
  shows "enabledMask cl' = enabledMask cl \<and> (enabledMask cl' \<noteq> 0 \<longrightarrow> sensor_timer cl' \<noteq> None) \<and>
    (enabledMask cl = 0 \<longrightarrow> cl' = cl)"
  using assms by (auto simp: hwSensorClient_tick_def Let_def split: if_splits)

lemma name_index_bound: "name_index xs n = Some k \<Longrightarrow> k < length xs \<and> xs ! k = n"
  by (induction xs arbitrary: k) (auto split: if_splits)

lemma sensor_id_bound: "sensorIdFromName n = Some k \<Longrightarrow> k < MAX_SENSORS \<and> sSensors ! k = n"
  using name_index_bound [of sSensors n k] by (simp add: sensorIdFromName_def sSensors_def MAX_SENSORS_def)

lemma bit_sensor: "bit (push_bit sid 1 :: u32) n \<longleftrightarrow> n = sid \<and> n < 32"
  by (auto simp: bit_exp_iff)

lemma set_sensor_ok:
  assumes "sensor_ok en cl" "sensor_enabled hw = en" "set_sensor hw now cl s = (cl', out)"
  shows "sensor_ok en cl'"
proof -
  consider "cl' = cl" | sid mask where "sid < MAX_SENSORS" "en ! sid" "hwSensorClient_tick hw now (cl\<lparr>enabledMask := mask\<rparr>) = (cl', out)"
      "mask = enabledMask cl OR push_bit sid 1 \<or> mask = enabledMask cl AND NOT (push_bit sid 1)"
    using assms(2,3) sensor_id_bound by (fastforce simp: set_sensor_def Let_def split: if_splits option.splits)
  then show ?thesis
  proof cases
    case 2
    have "bit mask n \<longrightarrow> n < MAX_SENSORS \<and> en ! n" for n
      using 2(1,2,4) assms(1) bit_sensor [of sid n] by (auto simp: sensor_ok_def bit_or_iff bit_and_iff simp del: push_bit_of_1)
    then show ?thesis using tick_ok [OF 2(3)] by (auto simp: sensor_ok_def)
  qed (use assms(1) in simp)
qed

lemma receive_ok:
  assumes "sensor_ok en cl" "sensor_enabled hw = en" "hwSensorClient_receive hw now cl msg = (cl', out)"
  shows "sensor_ok en cl'"
proof -
  have t: "sensor_ok en cl'" if "hwSensorClient_tick hw now (cl\<lparr>delay_ms := d\<rparr>) = (cl', out)" for d
    using tick_ok [OF that] assms(1) by (auto simp: sensor_ok_def)
  show ?thesis using assms set_sensor_ok [OF assms(1,2)] t
    by (auto simp: hwSensorClient_receive_def Let_def sensor_ok_def split: if_splits)
qed

lemma sensor_step_ok: "sensor_step en cl cl' \<Longrightarrow> sensor_ok en cl \<Longrightarrow> sensor_ok en cl'"
proof (induction rule: sensor_step.induct)
  case (expire hw cl t now cl' out)
  then show ?case using tick_ok [OF expire(4)] by (auto simp: sensor_ok_def)
qed (use receive_ok in blast)

section \<open>Properties\<close>

text \<open>
  Property C29 (invariant). As long as a client has a sensor enabled its timer is pending, so the reports go on, and it can only have enabled
  sensors that the device has; this holds whatever messages it sends and whenever the timer expires.
\<close>

theorem sensor_reports_scheduled:
  assumes "sensor_reach en cl"
  shows "(enabledMask cl \<noteq> 0 \<longrightarrow> (\<exists>t. sensor_timer cl = Some t)) \<and> (\<forall>n. bit (enabledMask cl) n \<longrightarrow> n < MAX_SENSORS \<and> en ! n)"
proof -
  have "sensor_ok en cl" using assms
  proof (induction rule: sensor_reach.induct)
    case start
    show ?case by (simp add: sensor_ok_def hwSensorClient_new_def)
  qed (rule sensor_step_ok)
  then show ?thesis by (simp add: sensor_ok_def)
qed

lemma unat_of_char: "unat (of_char c :: byte) = of_char c"
proof -
  have "(of_char c :: byte) = of_nat (of_char c)" by (rule of_nat_of_char [symmetric])
  then show ?thesis using of_char_mod_256 [where ?'a = nat, of c] by (simp add: unat_of_nat)
qed

lemma of_char_zero: "(of_char c :: byte) = 0 \<longleftrightarrow> c = CHR 0x00"
proof -
  have "(of_char c :: byte) = 0 \<longleftrightarrow> unat (of_char c :: byte) = 0" by (simp add: unat_eq_0)
  also have "\<dots> \<longleftrightarrow> of_char c = (of_char (CHR 0x00) :: nat)" unfolding unat_of_char by simp
  finally show ?thesis by (simp only: of_char_eq_iff)
qed

lemma c_str_ascii: "CHR 0x00 \<notin> set s \<Longrightarrow> c_str (ascii (p @ s)) (length p) = s"
  by (induction s) (auto simp: c_str_def ascii_def unat_of_char of_char_zero)

lemma sensor_names: "n \<in> set sSensors \<Longrightarrow> CHR '':'' \<notin> set n \<and> CHR 0x00 \<notin> set n \<and> n \<noteq> []"
  by (auto simp: sSensors_def)

lemma char_one_nonzero: "CHR ''1'' \<noteq> CHR 0x00"
  by simp

lemma set_message:
  assumes "sensorIdFromName name = Some sid" "sensor_enabled hw ! sid" "c \<noteq> CHR 0x00"
  shows "hwSensorClient_receive hw now cl (ascii (''set:'' @ name @ [CHR '':'', c])) =
    hwSensorClient_tick hw now (cl\<lparr>enabledMask := (if c = CHR ''1'' then enabledMask cl OR push_bit sid 1 else enabledMask cl AND NOT (push_bit sid 1))\<rparr>)"
proof -
  let ?s = "name @ [CHR '':'', c]"
  have n: "CHR '':'' \<notin> set name" "CHR 0x00 \<notin> set name" "name \<noteq> []"
  proof -
    have "length sSensors = MAX_SENSORS" by (simp add: sSensors_def MAX_SENSORS_def)
    then have "name \<in> set sSensors" using sensor_id_bound [OF assms(1)] nth_mem [of sid sSensors] by auto
    from sensor_names [OF this] show "CHR '':'' \<notin> set name" "CHR 0x00 \<notin> set name" "name \<noteq> []" by auto
  qed
  have w: "takeWhile (\<lambda>c. c \<noteq> CHR '':'') ?s = name" "dropWhile (\<lambda>c. c \<noteq> CHR '':'') ?s = [CHR '':'', c]"
    using n(1) by (subst takeWhile_append2 dropWhile_append2; auto)+
  have str: "c_str (ascii (''set:'' @ ?s)) 4 = ?s" using c_str_ascii [of ?s "''set:''"] n(2) assms(3) by (simp add: numeral_eq_Suc)
  have msg: "ascii (''set:'' @ ?s) = ascii ''set:'' @ ascii ?s" "length (ascii ?s) = length name + 2" "length (ascii ''set:'') = 4"
    by (simp_all add: ascii_def)
  have ne: "ascii ''set:'' @ x \<noteq> ascii ''list-sensors''" "ascii ''set:'' @ x \<noteq> ascii ''wake''"
      "take 10 (ascii ''set:'' @ x) \<noteq> ascii ''set-delay:''" for x
    by (simp_all add: ascii_def)
  have "hwSensorClient_receive hw now cl (ascii (''set:'' @ ?s)) = set_sensor hw now cl ?s"
    using ne msg n(3) str unfolding hwSensorClient_receive_def by (simp del: append.simps)
  also have "\<dots> = hwSensorClient_tick hw now (cl\<lparr>enabledMask :=
      (if c = CHR ''1'' then enabledMask cl OR push_bit sid 1 else enabledMask cl AND NOT (push_bit sid 1))\<rparr>)"
    using assms(1,2) by (simp add: set_sensor_def w Let_def del: push_bit_of_1)
  finally show ?thesis .
qed

text \<open>
  Remark (functional). Enabling a sensor the device has: the client gets at once the lines of all its enabled sensors, in the order of
  the list and this one among them, and a \<open>sync\<close> line; the next report is due after its delay, but not before 20 milliseconds.
\<close>

theorem sensor_enable_reports:
  assumes "sensorIdFromName name = Some sid" "sensor_enabled hw ! sid"
  shows "\<exists>cl' lines d. hwSensorClient_receive hw now cl (ascii (''set:'' @ name @ '':1'')) =
      (cl', lines @ [take 127 (''sync:'' @ fmt_d (now div 1000))]) \<and> lines = sensor_lines hw cl' \<and> sensor_line hw sid \<in> set lines \<and>
    (\<forall>n < 32. bit (enabledMask cl') n \<longleftrightarrow> bit (enabledMask cl) n \<or> n = sid) \<and>
    sensor_timer cl' = Some (now + d * 1000000) \<and> 20 \<le> d \<and> (20 \<le> delay_ms cl \<longrightarrow> d = delay_ms cl)"
proof -
  have sid: "sid < MAX_SENSORS" "sid < 32" using sensor_id_bound [OF assms(1)] by (simp_all add: MAX_SENSORS_def)
  let ?cl = "cl\<lparr>enabledMask := enabledMask cl OR push_bit sid 1\<rparr>"
  have m: "hwSensorClient_receive hw now cl (ascii (''set:'' @ name @ '':1'')) = hwSensorClient_tick hw now ?cl"
    using set_message [OF assms, of "CHR ''1''" now cl] by simp
  have b: "bit (enabledMask ?cl) n \<longleftrightarrow> bit (enabledMask cl) n \<or> n = sid" if "n < 32" for n
    using that bit_sensor [of sid n] by (simp add: bit_or_iff del: push_bit_of_1)
  have nz: "enabledMask ?cl AND push_bit sid 1 \<noteq> 0"
  proof
    assume z: "enabledMask ?cl AND push_bit sid 1 = 0"
    have "bit (enabledMask ?cl AND push_bit sid 1) sid"
      using b [OF sid(2)] bit_sensor [of sid sid] sid(2) by (simp only: bit_and_iff simp_thms)
    then show False unfolding z by simp
  qed
  have ne: "enabledMask ?cl \<noteq> 0"
  proof
    assume "enabledMask ?cl = 0"
    then show False using nz by (simp only: zero_and_eq)
  qed
  have l: "sensor_line hw sid \<in> set (sensor_lines hw ?cl)" using nz sid(1) by (simp add: sensor_lines_def hwSensorClient_enabled_def del: push_bit_of_1)
  let ?d = "if delay_ms cl < 20 then 20 else delay_ms cl"
  let ?r = "?cl\<lparr>sensor_timer := Some (now + ?d * 1000000)\<rparr>"
  have "hwSensorClient_tick hw now ?cl = (?r, sensor_lines hw ?cl @ [take 127 (''sync:'' @ fmt_d (now div 1000))])"
    using ne by (simp add: hwSensorClient_tick_def Let_def del: push_bit_of_1)
  moreover have "sensor_lines hw ?r = sensor_lines hw ?cl" by (simp add: sensor_lines_def hwSensorClient_enabled_def cong: filter_cong)
  ultimately show ?thesis using l b m
    by (intro exI [of _ ?r] exI [of _ "sensor_lines hw ?cl"] exI [of _ ?d]) (simp del: push_bit_of_1)
qed

text \<open>
  Remark (error). Disabling the last sensor does not stop the timer: when it expires, the client, which wants no
  reports, gets another \<open>sync\<close> line.
\<close>

theorem sensor_late_sync:
  assumes "sensorIdFromName name = Some sid" "sensor_enabled hw ! sid" "enabledMask cl = push_bit sid 1" "sensor_timer cl = Some t"
  shows "\<exists>cl' out. hwSensorClient_receive hw now cl (ascii (''set:'' @ name @ '':0'')) = (cl', out) \<and>
    enabledMask cl' = 0 \<and> sensor_timer cl' = Some t \<and>
    hwSensorClient_tick hw t (cl'\<lparr>sensor_timer := None\<rparr>) = (cl'\<lparr>sensor_timer := None\<rparr>, [take 127 (''sync:'' @ fmt_d (t div 1000))])"
proof -
  let ?cl = "cl\<lparr>enabledMask := 0\<rparr>"
  have "hwSensorClient_receive hw now cl (ascii (''set:'' @ name @ '':0'')) = hwSensorClient_tick hw now ?cl"
    using set_message [OF assms(1,2), of "CHR ''0''" now cl] assms(3) by (simp del: push_bit_of_1)
  then show ?thesis using assms(4) by (simp add: hwSensorClient_tick_def sensor_lines_def hwSensorClient_enabled_def Let_def)
qed

theorem sensor_reports_scheduled_witness:
  "\<exists>cl t. sensor_reach [True, False, False, False] cl \<and> enabledMask cl = 1 \<and> sensor_timer cl = Some t"
proof -
  let ?en = "[True, False, False, False]" and ?hw = "hwSensors_init True (\<lambda>_. ''0:8.5:4.9'')"
  let ?cl = "hwSensorClient_new\<lparr>enabledMask := 1, sensor_timer := Some 1000000000\<rparr>"
  have id: "sensorIdFromName ''acceleration'' = Some 0" "sensor_enabled ?hw ! 0" "sensor_enabled ?hw = ?en"
    by (simp_all add: sensorIdFromName_def sSensors_def hwSensors_init_def)
  have "\<exists>out. hwSensorClient_receive ?hw 0 hwSensorClient_new (ascii (''set:'' @ ''acceleration'' @ [CHR '':'', CHR ''1''])) = (?cl, out)"
    unfolding set_message [OF id(1,2) char_one_nonzero] by (simp add: hwSensorClient_tick_def hwSensorClient_new_def Let_def)
  then have "sensor_reach ?en ?cl" using sensor_reach.step [OF sensor_reach.start] sensor_step.receive [OF id(3)] by blast
  moreover have "\<exists>t. sensor_timer ?cl = Some t" using sensor_reports_scheduled [OF calculation] by simp
  ultimately show ?thesis by (intro exI [of _ ?cl]) simp
qed

theorem sensor_enable_reports_witness:
  "\<exists>cl' lines. hwSensorClient_receive (hwSensors_init True (\<lambda>_. ''0:8.5:4.9'')) 0 hwSensorClient_new (ascii ''set:acceleration:1'') =
     (cl', lines @ [''sync:0'']) \<and> ''acceleration:0:8.5:4.9'' \<in> set lines"
proof -
  let ?hw = "hwSensors_init True (\<lambda>_. ''0:8.5:4.9'')"
  have id: "sensorIdFromName ''acceleration'' = Some 0" "sensor_enabled ?hw ! 0"
    by (simp_all add: sensorIdFromName_def sSensors_def hwSensors_init_def)
  have "sensor_line ?hw 0 = ''acceleration:0:8.5:4.9''" by (simp add: sensor_line_def sSensors_def hwSensors_init_def)
  moreover have "take 127 (''sync:'' @ fmt_d (0 div 1000)) = ''sync:0''" by code_simp
  ultimately show ?thesis using sensor_enable_reports [OF id, of 0 hwSensorClient_new] by (auto simp del: fmt_d_def)
qed

theorem sensor_late_sync_witness:
  "\<exists>cl' out. hwSensorClient_receive (hwSensors_init True (\<lambda>_. [])) 0 (hwSensorClient_new\<lparr>enabledMask := 1, sensor_timer := Some 5\<rparr>)
     (ascii ''set:acceleration:0'') = (cl', out) \<and> sensor_timer cl' = Some 5"
proof -
  have id: "sensorIdFromName ''acceleration'' = Some 0" "sensor_enabled (hwSensors_init True (\<lambda>_. [])) ! 0"
    by (simp_all add: sensorIdFromName_def sSensors_def hwSensors_init_def)
  from sensor_late_sync [OF id, of "hwSensorClient_new\<lparr>enabledMask := 1, sensor_timer := Some 5\<rparr>" 5 0] show ?thesis by auto
qed

end
