(* ===== verification/Modem_At.thy ===== *)
theory Modem_At
  imports Modem_State
begin

text \<open>
  The command interpreter of the modem (\<open>amodem_send\<close> in \<open>telephony/android_modem.c\<close>): the table of
  commands, the sending of text messages to other emulators, the time report, and the properties
  of the whole modem.

  What the host supplies is an argument: its clock and time zone, and whether a message could be handed to another
  emulator.
\<close>

section \<open>Time report\<close>

text \<open>\<open>host_zone\<close> is the name of the time zone, none when it does not fit the buffer of 64 characters.\<close>

record host =
  host_utc :: tm
  host_local :: tm
  host_zone :: "string option"
  sms_sent :: "nat \<Rightarrow> bool"

definition tz_minutes :: "tm \<Rightarrow> tm \<Rightarrow> int" where
  "tz_minutes utc local =
     (let e_local = tm_min local + 60 * (tm_hour local + 24 * tm_yday local);
          e_utc = tm_min utc + 60 * (tm_hour utc + 24 * tm_yday utc);
          e_local' = (if tm_year utc < tm_year local then e_local + 24 * 60 else e_local);
          e_utc' = (if tm_year utc > tm_year local then e_utc + 24 * 60 else e_utc)
      in e_local' - e_utc')"

definition handleEndOfInit :: "host \<Rightarrow> modem \<Rightarrow> handled" where
  "handleEndOfInit h m =
     (let utc = host_utc h;
          tzdiff = tz_minutes utc (host_local h);
          zone = (case host_zone h of None \<Rightarrow> ''Unknown/Unknown'' | Some z \<Rightarrow> z);
          zone = map (\<lambda>c. if c = CHR ''/'' then CHR ''!'' else c) zone
      in Inr (amodem_printf (''%CTZV: '' @ fmt_02d ((tm_year utc + 1900) mod 100) @ ''/'' @ fmt_02d (tm_mon utc + 1) @ ''/'' @
           fmt_02d (tm_mday utc) @ '':'' @ fmt_02d (tm_hour utc) @ '':'' @ fmt_02d (tm_min utc) @ '':'' @ fmt_02d (tm_sec utc) @
           (if tzdiff \<ge> 0 then ''+'' else ''-'') @ fmt_d (\<bar>tzdiff\<bar> div 15) @ '':'' @
           fmt_d (if tm_isdst (host_local h) > 0 then 1 else 0) @ '':'' @ zone), m, []))"

section \<open>Text messages\<close>

definition amodem_receive_sms :: "modem \<Rightarrow> sms_pdu \<Rightarrow> modem_effect list" where
  "amodem_receive_sms m sms =
     (if unsol_func m then
        (let header = ''+CMT: 0'' @ [cr, lf];
             max = OUT_BUFF_SIZE - 3 - length header;
             (len, hex) = smspdu_to_hex sms max
         in if len > int max then []
            else [Call_effect (Unsol (header @ map (\<lambda>b. char_of (unat b)) hex @ [cr, lf]))])
      else [])"

definition handleSendSMS :: "modem \<Rightarrow> handled" where
  "handleSendSMS m = Inr (Literal ''> '', m\<lparr>wait_sms := True\<rparr>, [])"

definition handleSendSMStoSIM :: "modem \<Rightarrow> handled" where
  "handleSendSMStoSIM m = Inr (Literal ''ERROR: unimplemented'', m, [])"

definition to_bytes :: "string \<Rightarrow> byte list" where
  "to_bytes s = map (\<lambda>c. of_nat (of_char c)) s"

definition of_bytes :: "byte list \<Rightarrow> string" where
  "of_bytes bs = map (\<lambda>b. char_of (unat b)) bs"

text \<open>The PDUs that are handed to the other emulator, up to the first that could not be sent.\<close>

fun send_pdus :: "(nat \<Rightarrow> bool) \<Rightarrow> string \<Rightarrow> nat \<Rightarrow> sms_pdu list \<Rightarrow> modem_effect list" where
  "send_pdus ok num nn [] = []"
| "send_pdus ok num nn (p # ps) = Remote_sms num p # (if ok nn then send_pdus ok num (nn + 1) ps else [])"

text \<open>The address of this emulator; the port is printed into 10 characters.\<close>

definition own_address :: "modem \<Rightarrow> sms_address option" where
  "own_address m =
     (let temp = fmt_d (base_port m)
      in if length temp < 10 then map_option snd (sms_address_from_str zero_address (to_bytes temp)) else None)"

text \<open>The message at \<open>index\<close> of the receiver is complete: it is sent to \<open>num\<close>.\<close>

definition deliver_sms :: "host \<Rightarrow> string \<Rightarrow> int \<Rightarrow> sms_receiver \<Rightarrow> modem \<Rightarrow> (modem \<times> modem_effect list) outcome" where
  "deliver_sms h num index r m =
     undefined_if_none
       (Option.bind (own_address m) (\<lambda>sender.
          Option.bind (sms_receiver_create_deliver r index sender (sms_timestamp_now (host_utc h) (host_local h)) (sms_ref_num m)) (\<lambda>(deliver, r, ref).
            Some (m\<lparr>sms_rec := Some r, sms_ref_num := ref\<rparr>,
                  case deliver of None \<Rightarrow> [] | Some ps \<Rightarrow> send_pdus (sms_sent h) num 0 ps))))"

text \<open>\<open>None\<close> is a number that does not fit its 16 characters.\<close>

definition sms_number :: "sms_address \<Rightarrow> string option outcome" where
  "sms_number a =
     (case sms_address_to_str a 16 of
        None \<Rightarrow> Inl Undefined
      | Some (numlen, bs) \<Rightarrow>
          if numlen > 15 then Inr None else Inr (Some (of_bytes (takeWhile (\<lambda>b. b \<noteq> 0) bs))))"

text \<open>A PDU for another emulator goes through the receiver of this modem, which is made on first use.\<close>

definition submit_sms :: "host \<Rightarrow> sms_pdu \<Rightarrow> string \<Rightarrow> modem \<Rightarrow> (modem \<times> modem_effect list) outcome" where
  "submit_sms h pdu num m =
     (case sms_receiver_add_submit_pdu (case sms_rec m of None \<Rightarrow> sms_receiver_create | Some r \<Rightarrow> r) pdu of
        None \<Rightarrow> Inl Undefined
      | Some (index, r) \<Rightarrow>
          if index > 0 then deliver_sms h num index r (m\<lparr>sms_rec := Some r\<rparr>) else Inr (m\<lparr>sms_rec := Some r\<rparr>, []))"

definition handleSendSMSText :: "host \<Rightarrow> string \<Rightarrow> modem \<Rightarrow> handled" where
  "handleSendSMSText h cmd m =
     (let cmd = (if cmd \<noteq> [] \<and> last cmd = CHR 0x1A then butlast cmd else cmd);
          done = Literal (''+CMGS: 0'' @ [cr] @ ''OK'' @ [cr])
      in case smspdu_create_from_hex (to_bytes cmd) of
           None \<Rightarrow> Inl Undefined
         | Some None \<Rightarrow> Inr (Literal ''+CMS ERROR: INVALID SMS PDU'', m, [])
         | Some (Some pdu) \<Rightarrow>
             (case smspdu_get_receiver_address pdu zero_address of
                None \<Rightarrow> Inl Undefined
              | Some (res, address) \<Rightarrow>
                  if res < 0 then Inr (Literal ''+CMS ERROR: BAD SMS RECEIVER ADDRESS'', m, [])
                  else
                    (case sms_number address of
                       Inl e \<Rightarrow> Inl e
                     | Inr None \<Rightarrow> Inr (done, m, [])
                     | Inr (Some num) \<Rightarrow>
                         if remote_number_string_to_port num < 0 then Inr (done, m, [])
                         else map_sum id (\<lambda>(m, es). (done, m, es)) (submit_sms h pdu num m))))"

section \<open>The table of commands\<close>

datatype handler = H_RadioPower | H_ListPDPContexts | H_RequestOperator | H_OperatorSelection | H_ListCurrentCalls
  | H_SendSMStoSIM | H_Hangup | H_NetworkRegistration | H_SendSMS | H_DefinePDPContext | H_StartPDPContext | H_Dial
  | H_SIM_IO | H_Answer | H_SetDialTone | H_DeleteSMSonSIM | H_ChangeOrEnterPIN | H_SIMStatusReq | H_RadioPowerReq
  | H_EndOfInit

text \<open>A row: whether the command is a prefix (\<open>!\<close> in the source), the command, the answer, the handler.\<close>

record response =
  is_prefix :: bool
  rcmd :: string
  ranswer :: "string option"
  rhandler :: "handler option"

definition full :: "string \<Rightarrow> string option \<Rightarrow> handler option \<Rightarrow> response" where
  "full c a f = \<lparr>is_prefix = False, rcmd = c, ranswer = a, rhandler = f\<rparr>"

definition pre :: "string \<Rightarrow> handler \<Rightarrow> response" where
  "pre c f = \<lparr>is_prefix = True, rcmd = c, ranswer = None, rhandler = Some f\<rparr>"

definition sDefaultResponses :: "response list" where
  "sDefaultResponses =
    [full ''%CPHS=1'' None None,
     full ''%CTZV=1'' None None,
     full ''+CSMS=1'' (Some ''+CSMS: 1, 1, 1'') None,
     full ''+CNMI=1,2,2,1,1'' None None,
     full ''+CFUN=0'' None (Some H_RadioPower),
     full ''+CFUN=1'' None (Some H_RadioPower),
     full ''+CGACT?'' (Some []) (Some H_ListPDPContexts),
     full ''+COPS=3,0;+COPS?;+COPS=3,1;+COPS?;+COPS=3,2;+COPS?'' None (Some H_RequestOperator),
     pre ''+COPS'' H_OperatorSelection,
     full ''+CLCC'' None (Some H_ListCurrentCalls),
     pre ''+CMGW='' H_SendSMStoSIM,
     pre ''+CHLD='' H_Hangup,
     full ''+CSQ'' (Some ''+CSQ: 7,99'') None,
     pre ''+CREG'' H_NetworkRegistration,
     pre ''+CGREG'' H_NetworkRegistration,
     pre ''+CMGS='' H_SendSMS,
     full (''%CPRIM='' @ quoted ''GMM'' @ '','' @ quoted ''CONFIG MULTISLOT_CLASS=<10>'') None None,
     full (''%DATA=2,'' @ quoted ''UART'' @ '',1,,'' @ quoted ''SER'' @ '','' @ quoted ''UART'' @ '',0'') None None,
     pre ''+CGDCONT='' H_DefinePDPContext,
     full ''+CGQREQ=1'' None None,
     full ''+CGQMIN=1'' None None,
     full ''+CGEREP=1,0'' None None,
     full ''+CGACT=1,0'' None None,
     full ''D*99***1#'' None (Some H_StartPDPContext),
     pre ''D'' H_Dial,
     full ''+CNMA=1'' None None,
     full ''+CNMA=2'' None None,
     pre ''+CRSM='' H_SIM_IO,
     full ''+CHLD=0'' None (Some H_Hangup),
     full ''+CHLD=1'' None (Some H_Hangup),
     full ''+CHLD=2'' None (Some H_Hangup),
     full ''+CHLD=3'' None (Some H_Hangup),
     full ''A'' None (Some H_Answer),
     full ''H'' None (Some H_Answer),
     pre ''+VTS='' H_SetDialTone,
     full ''+CIMI'' (Some ''310260000000000'') None,
     full ''+CGSN'' (Some ''000000000000000'') None,
     full ''+CUSD=2'' None None,
     full ''+COPS=0'' None (Some H_OperatorSelection),
     pre ''+CMGD='' H_DeleteSMSonSIM,
     pre ''+CPIN='' H_ChangeOrEnterPIN,
     full ''+CPIN?'' None (Some H_SIMStatusReq),
     full ''+CNMI?'' (Some ''+CNMI: 1,2,2,1,1'') None,
     full ''+CFUN?'' None (Some H_RadioPowerReq),
     full ''E0Q0V1'' None None,
     full ''S0=0'' None None,
     full ''+CMEE=1'' None None,
     full ''+CREG=2'' None (Some H_NetworkRegistration),
     full ''+CREG=1'' None (Some H_NetworkRegistration),
     full ''+CGREG=1'' None (Some H_NetworkRegistration),
     full ''+CCWA=1'' None None,
     full ''+CMOD=0'' None None,
     full ''+CMUT=0'' None None,
     full ''+CSSN=0,1'' None None,
     full ''+COLP=0'' None None,
     full (''+CSCS='' @ quoted ''HEX'') None None,
     full ''+CUSD=1'' None None,
     full ''+CGEREP=1,0'' None None,
     full ''+CMGF=0'' None (Some H_EndOfInit),
     full ''%CPI=3'' None None,
     full ''%CSTAT=1'' None None]"

definition matches :: "string \<Rightarrow> response \<Rightarrow> bool" where
  "matches cmd r \<longleftrightarrow> (if is_prefix r then take (length (rcmd r)) cmd = rcmd r else rcmd r = cmd)"

definition find_response :: "response list \<Rightarrow> string \<Rightarrow> response option" where
  "find_response table cmd = find (matches cmd) table"

text \<open>The effects of a call operation, on a modem that may have no one to send unsolicited results to.\<close>

fun is_unsol :: "call_effect \<Rightarrow> bool" where
  "is_unsol (Unsol s) = True"
| "is_unsol e = False"

definition call_effects :: "modem \<Rightarrow> call_effect list \<Rightarrow> modem_effect list" where
  "call_effects m es = map Call_effect (filter (\<lambda>e. unsol_func m \<or> \<not> is_unsol e) es)"

definition null_or :: "string option \<Rightarrow> reply" where
  "null_or a = (case a of None \<Rightarrow> No_reply | Some s \<Rightarrow> Literal s)"

fun run_handler :: "host \<Rightarrow> handler \<Rightarrow> string \<Rightarrow> modem \<Rightarrow> handled" where
  "run_handler h H_RadioPower cmd m = handleRadioPower cmd m"
| "run_handler h H_ListPDPContexts cmd m = handleListPDPContexts cmd m"
| "run_handler h H_RequestOperator cmd m = handleRequestOperator m"
| "run_handler h H_OperatorSelection cmd m = handleOperatorSelection cmd m"
| "run_handler h H_ListCurrentCalls cmd m = handleListCurrentCalls m"
| "run_handler h H_SendSMStoSIM cmd m = handleSendSMStoSIM m"
| "run_handler h H_Hangup cmd m =
     map_sum id (\<lambda>(a, t, es). (null_or a, m\<lparr>voice := t\<rparr>, call_effects m es)) (handleHangup (voice m) cmd)"
| "run_handler h H_NetworkRegistration cmd m = handleNetworkRegistration cmd m"
| "run_handler h H_SendSMS cmd m = handleSendSMS m"
| "run_handler h H_DefinePDPContext cmd m = handleDefinePDPContext cmd m"
| "run_handler h H_StartPDPContext cmd m = Inr (No_reply, m, [])"
| "run_handler h H_Dial cmd m = map_sum id (\<lambda>(a, t). (null_or a, m\<lparr>voice := t\<rparr>, [])) (handleDial (voice m) cmd)"
| "run_handler h H_SIM_IO cmd m = handleSIM_IO cmd m"
| "run_handler h H_Answer cmd m =
     map_sum id (\<lambda>(t, es). (No_reply, m\<lparr>voice := t\<rparr>, call_effects m es)) (handleAnswer (voice m) cmd)"
| "run_handler h H_SetDialTone cmd m = Inr (No_reply, m, [])"
| "run_handler h H_DeleteSMSonSIM cmd m = Inr (No_reply, m, [])"
| "run_handler h H_ChangeOrEnterPIN cmd m = handleChangeOrEnterPIN cmd m"
| "run_handler h H_SIMStatusReq cmd m = handleSIMStatusReq m"
| "run_handler h H_RadioPowerReq cmd m = handleRadioPowerReq m"
| "run_handler h H_EndOfInit cmd m = handleEndOfInit h m"

text \<open>\<open>amodem_printf(modem, "%s\rOK", answer)\<close>; an answer in the output buffer is extended by \<open>strcat\<close>.\<close>

definition reply_ok :: "string \<Rightarrow> string" where
  "reply_ok a = take (OUT_BUFF_SIZE - 1) (a @ [cr] @ ''OK'')"

definition is_final :: "string \<Rightarrow> bool" where
  "is_final a \<longleftrightarrow> take 2 a = ''> '' \<or> take 5 a = ''ERROR'' \<or> take 6 a = ''+CME E''"

definition finish_reply :: "reply \<Rightarrow> string outcome" where
  "finish_reply r =
     (case r of
        No_reply \<Rightarrow> Inr ''OK''
      | Literal a \<Rightarrow> Inr (if is_final a then a else reply_ok a)
      | Out a \<Rightarrow> if is_final a then Inr a
                 else if length a + 3 < OUT_BUFF_SIZE then Inr (a @ [cr] @ ''OK'') else Inl Undefined)"

fun reply_text :: "reply \<Rightarrow> string option" where
  "reply_text No_reply = None"
| "reply_text (Literal a) = Some a"
| "reply_text (Out a) = Some a"

definition amodem_send :: "host \<Rightarrow> modem \<Rightarrow> string \<Rightarrow> (string option \<times> modem \<times> modem_effect list) outcome" where
  "amodem_send h m cmd =
     (if wait_sms m then
        map_sum id (\<lambda>(r, m, es). (reply_text r, m, es)) (handleSendSMSText h cmd (m\<lparr>wait_sms := False\<rparr>))
      else if ch cmd 0 \<noteq> CHR ''A'' \<or> ch cmd 1 \<noteq> CHR ''T'' \<or> ch cmd 2 = nul then Inr (None, m, [])
      else
        (let cmd = drop 2 cmd
         in case find_response sDefaultResponses cmd of
              None \<Rightarrow> Inr (Some ''ERROR: UNSUPPORTED'', m, [])
            | Some row \<Rightarrow>
                (case ranswer row of
                   Some a \<Rightarrow> Inr (Some (reply_ok a), m, [])
                 | None \<Rightarrow>
                     (case rhandler row of
                        None \<Rightarrow> Inr (Some ''OK'', m, [])
                      | Some f \<Rightarrow>
                          (case run_handler h f cmd m of
                             Inl e \<Rightarrow> Inl e
                           | Inr (r, m, es) \<Rightarrow> map_sum id (\<lambda>s. (Some s, m, es)) (finish_reply r))))))"

section \<open>Handlers and the state they leave alone\<close>

lemma undefined_if_none_Inr: "undefined_if_none x = Inr y \<longleftrightarrow> x = Some y"
  by (simp add: undefined_if_none_def split: option.split)

lemmas handler_defs = handleRadioPower_def handleListPDPContexts_def handleRequestOperator_def handleOperatorSelection_def
  select_operator_def handleListCurrentCalls_def handleSendSMStoSIM_def handleNetworkRegistration_def handleSendSMS_def
  handleDefinePDPContext_def handleSIM_IO_def handleSIMStatusReq_def handleRadioPowerReq_def handleEndOfInit_def

lemmas handler_splits = if_splits option.splits sum.splits prod.splits

lemma other_handlers_sim:
  assumes "run_handler h f cmd m = Inr (r, m', es)" "f \<noteq> H_ChangeOrEnterPIN"
  shows "sim m' = sim m"
  using assms
  by (cases f) (auto simp: handler_defs Let_def map_sum_Inr_iff split: handler_splits)

lemma sms_text_cases:
  assumes "handleSendSMSText h cmd m = Inr (r, m', es)"
  obtains "m' = m" | pdu num where "submit_sms h pdu num m = Inr (m', es)"
  using assms by (auto simp: handleSendSMSText_def Let_def map_sum_Inr_iff split: option.splits prod.splits sum.splits if_splits)

lemma submit_frame:
  "submit_sms h pdu num m = Inr (m', es) \<Longrightarrow> m'\<lparr>sms_rec := None, sms_ref_num := 0\<rparr> = m\<lparr>sms_rec := None, sms_ref_num := 0\<rparr>"
  by (auto simp: submit_sms_def deliver_sms_def undefined_if_none_Inr bind_eq_Some_conv split: handler_splits)

lemma sms_text_frame:
  assumes "handleSendSMSText h cmd m = Inr (r, m', es)"
  shows "m'\<lparr>sms_rec := None, sms_ref_num := 0\<rparr> = m\<lparr>sms_rec := None, sms_ref_num := 0\<rparr>"
  using assms by (rule sms_text_cases) (auto dest: submit_frame)

lemma send_cases:
  assumes "amodem_send h m cmd = Inr (a, m', es)"
  obtains (sms) r where "wait_sms m" "handleSendSMSText h cmd (m\<lparr>wait_sms := False\<rparr>) = Inr (r, m', es)"
  | (plain) "m' = m" "es = []"
  | (handler) f r where "\<not> wait_sms m" "run_handler h f (drop 2 cmd) m = Inr (r, m', es)" "finish_reply r = Inr (the a)"
  using assms by (auto simp: amodem_send_def Let_def map_sum_Inr_iff split: handler_splits)

text \<open>
  A service that answers lines: what the serial channel needs of the modem. The client result is that
  what one line keeps, any sequence of lines keeps.
\<close>

fun at_run :: "('s \<Rightarrow> string \<Rightarrow> ('a \<times> 's \<times> 'e list) outcome) \<Rightarrow> 's \<Rightarrow> string list \<Rightarrow> 's outcome" where
  "at_run send m [] = Inr m"
| "at_run send m (c # cs) = (case send m c of Inl e \<Rightarrow> Inl e | Inr (a, m, es) \<Rightarrow> at_run send m cs)"

locale line_service =
  fixes inv :: "'s \<Rightarrow> bool"
    and send :: "'s \<Rightarrow> string \<Rightarrow> ('a \<times> 's \<times> 'e list) outcome"
  assumes send_inv: "inv s \<Longrightarrow> send s c = Inr (a, s', es) \<Longrightarrow> inv s'"
begin

lemma run_inv: "inv s \<Longrightarrow> at_run send s cs = Inr s' \<Longrightarrow> inv s'"
proof (induction cs arbitrary: s)
  case (Cons c cs)
  then obtain a s1 es where "send s c = Inr (a, s1, es)" "at_run send s1 cs = Inr s'" by (auto split: sum.splits)
  then show ?case using Cons.IH send_inv [OF Cons.prems(1)] by blast
qed simp

end

definition puk_locked :: "sim_card \<Rightarrow> bool" where
  "puk_locked s \<longleftrightarrow> card_wf s \<and> status s \<in> {A_SIM_STATUS_PUK, A_SIM_STATUS_ABSENT} \<and>
     (\<exists>k. cstr (puk s) = Some k \<and> length k = A_SIM_PUK_SIZE)"

lemma pin_handler_locked:
  assumes "puk_locked (sim m)" "handleChangeOrEnterPIN cmd m = Inr (r, m', es)"
  shows "puk_locked (sim m')"
proof -
  obtain k where k: "cstr (puk (sim m)) = Some k" "length k = 8" "card_wf (sim m)"
    and st: "status (sim m) = A_SIM_STATUS_PUK \<or> status (sim m) = A_SIM_STATUS_ABSENT"
    using assms(1) by (auto simp: puk_locked_def sim_sizes)
  have "k \<noteq> take 4 c" for c using k(2) by (metis length_take min.cobounded2 numeral_le_iff semiring_norm(69) semiring_norm(71))
  then show ?thesis using st assms k
    by (auto simp: handleChangeOrEnterPIN_def asimcard_get_status_def asimcard_check_puk_def puk_locked_def card_wf_def sim_sizes
        Let_def split: handler_splits)
qed

lemma send_locked: "puk_locked (sim m) \<Longrightarrow> amodem_send h m cmd = Inr (a, m', es) \<Longrightarrow> puk_locked (sim m')"
proof (erule send_cases, goal_cases)
  case (1 r)
  from arg_cong [OF sms_text_frame [OF 1(3)], of sim] 1(1) show ?case by simp
next
  case (3 f r)
  then show ?case using other_handlers_sim [OF 3(3)] pin_handler_locked by (cases "f = H_ChangeOrEnterPIN") auto
qed simp

interpretation puk_lines: line_service "\<lambda>m. puk_locked (sim m)" "amodem_send h"
  by unfold_locales (rule send_locked)

text \<open>
  Property C15 (safety). A card that asks for its PUK cannot be unlocked by the guest: the PIN command takes
  four characters as the PUK, and a PUK has eight. Whatever lines the guest sends, the card keeps asking for
  the PUK until it is permanently locked.
\<close>

theorem puk_never_entered:
  assumes "card_wf (sim m)" "status (sim m) = A_SIM_STATUS_PUK" "cstr (puk (sim m)) = Some k" "length k = A_SIM_PUK_SIZE"
    and "at_run (amodem_send h) m cmds = Inr m'"
  shows "status (sim m') \<in> {A_SIM_STATUS_PUK, A_SIM_STATUS_ABSENT}"
proof -
  have "puk_locked (sim m)" using assms by (simp add: puk_locked_def)
  with assms(5) have "puk_locked (sim m')"
    by (rule puk_lines.run_inv [rotated])
  then show ?thesis by (simp add: puk_locked_def)
qed

definition sample_host :: host where
  "sample_host =
     (let t = \<lparr>tm_sec = 0, tm_min = 0, tm_hour = 0, tm_mday = 1, tm_mon = 0, tm_year = 109, tm_yday = 0, tm_isdst = 0\<rparr>
      in \<lparr>host_utc = t, host_local = t, host_zone = None, sms_sent = (\<lambda>n. True)\<rparr>)"

definition puk_modem :: modem where
  "puk_modem = (let m = the (amodem_create 5554 True) in m\<lparr>sim := asimcard_set_status (sim m) A_SIM_STATUS_PUK\<rparr>)"

theorem puk_never_entered_witness:
  "\<exists>m'. at_run (amodem_send sample_host) puk_modem [''AT+CPIN=12345678,0000'', ''AT+CPIN=1234,0000''] = Inr m' \<and>
     status (sim m') \<in> {A_SIM_STATUS_PUK, A_SIM_STATUS_ABSENT}"
proof -
  have "card_wf (sim puk_modem) \<and> status (sim puk_modem) = A_SIM_STATUS_PUK \<and> cstr (puk (sim puk_modem)) = Some ''12345678'' \<and>
      length ''12345678'' = A_SIM_PUK_SIZE \<and>
      isl (at_run (amodem_send sample_host) puk_modem [''AT+CPIN=12345678,0000'', ''AT+CPIN=1234,0000'']) = False"
    by code_simp
  then show ?thesis using puk_never_entered [of puk_modem "''12345678''" sample_host "[''AT+CPIN=12345678,0000'', ''AT+CPIN=1234,0000'']"]
    by (metis sum.collapse(2))
qed

section \<open>Dispatch\<close>

lemmas table_simps = find_response_def sDefaultResponses_def full_def pre_def matches_def quoted_def

lemma dispatch_cpin: "find_response sDefaultResponses (''+CPIN='' @ s) = Some (pre ''+CPIN='' H_ChangeOrEnterPIN)"
  by (simp add: table_simps)

lemma dispatch_cops: "s \<noteq> ''3,0;+COPS?;+COPS=3,1;+COPS?;+COPS=3,2;+COPS?'' \<Longrightarrow>
    find_response sDefaultResponses (''+COPS='' @ s) = Some (pre ''+COPS'' H_OperatorSelection)"
  by (simp add: table_simps)

lemma dispatch_creg: "find_response sDefaultResponses (''+CREG'' @ s) = Some (pre ''+CREG'' H_NetworkRegistration)"
  by (simp add: table_simps)

lemma dispatch_cgdcont: "find_response sDefaultResponses (''+CGDCONT='' @ s) = Some (pre ''+CGDCONT='' H_DefinePDPContext)"
  by (simp add: table_simps)

lemma dispatch_cgact: "find_response sDefaultResponses ''+CGACT?'' = Some (full ''+CGACT?'' (Some []) (Some H_ListPDPContexts))"
  by (simp add: table_simps)

lemma dispatch_clcc: "find_response sDefaultResponses ''+CLCC'' = Some (full ''+CLCC'' None (Some H_ListCurrentCalls))"
  by (simp add: table_simps)

text \<open>A command line with a row of the table that has a handler.\<close>

lemma send_handler:
  assumes "\<not> wait_sms m" "find_response sDefaultResponses cmd = Some row" "ranswer row = None" "rhandler row = Some f"
    and "cmd \<noteq> []" "hd cmd \<noteq> nul"
  shows "amodem_send h m (''AT'' @ cmd) =
    (case run_handler h f cmd m of Inl e \<Rightarrow> Inl e | Inr (r, m, es) \<Rightarrow> map_sum id (\<lambda>s. (Some s, m, es)) (finish_reply r))"
  using assms by (cases cmd) (simp_all add: amodem_send_def ch_def)

lemma send_prefix:
  assumes "\<not> wait_sms m" "find_response sDefaultResponses (CHR ''+'' # cmd) = Some (pre p f)"
  shows "amodem_send h m (''AT+'' @ cmd) =
    (case run_handler h f (CHR ''+'' # cmd) m of Inl e \<Rightarrow> Inl e | Inr (r, m, es) \<Rightarrow> map_sum id (\<lambda>s. (Some s, m, es)) (finish_reply r))"
  using send_handler [OF assms, of f h] by (simp add: pre_def nul_def)

text \<open>
  Remark (roundtrip). Changing the PIN over the AT interface: with the right old PIN the command is
  accepted, and when the card is locked again later the new PIN, and only the new one, opens it.
\<close>

theorem pin_change_round:
  assumes "\<not> wait_sms m" "card_wf (sim m)" "status (sim m) = A_SIM_STATUS_READY" "cstr (pin (sim m)) = Some p"
    and "length p = A_SIM_PIN_SIZE" "length q = A_SIM_PIN_SIZE" "nul \<notin> set q"
  shows "\<exists>m1. amodem_send h m (''AT+CPIN='' @ p @ '','' @ q) = Inr (Some (''+CPIN: READY'' @ [cr] @ ''OK''), m1, []) \<and>
    (let m2 = m1\<lparr>sim := asimcard_set_status (sim m1) A_SIM_STATUS_PIN\<rparr>
     in (\<exists>m3. amodem_send h m2 (''AT+CPIN='' @ q) = Inr (Some (''+CPIN: READY'' @ [cr] @ ''OK''), m3, []) \<and>
              status (sim m3) = A_SIM_STATUS_READY) \<and>
        (\<forall>x. x \<noteq> q \<longrightarrow> (\<exists>m3. amodem_send h m2 (''AT+CPIN='' @ x) = Inr (Some ''+CME ERROR: BAD PIN'', m3, []))))"
proof -
  let ?s = "(sim m)\<lparr>status := A_SIM_STATUS_READY, pin_retries := 0\<rparr>"
  have "card_wf ?s" using assms(2) by (simp add: card_wf_def)
  then obtain s1 where s1: "asimcard_set_pin ?s q = Some s1" "card_wf s1" "cstr (pin s1) = Some q" "status s1 = A_SIM_STATUS_READY"
    using set_pin_puk_wf(1) [of ?s q] assms(6,7) by (auto simp: sim_sizes)
  have chk: "asimcard_check_pin (sim m) p = Some (1, ?s)" using assms(3,4) by (simp add: asimcard_check_pin_def)
  let ?m1 = "m\<lparr>sim := s1\<rparr>" and ?m2 = "m\<lparr>sim := asimcard_set_status s1 A_SIM_STATUS_PIN\<rparr>"
  have dsp: "find_response sDefaultResponses (CHR ''+'' # ''CPIN='' @ s) = Some (pre ''+CPIN='' H_ChangeOrEnterPIN)" for s
    using dispatch_cpin [of s] by simp
  have "amodem_send h m (''AT+CPIN='' @ p @ '','' @ q) = Inr (Some (''+CPIN: READY'' @ [cr] @ ''OK''), ?m1, [])"
    using send_prefix [OF assms(1) dsp [of "p @ '','' @ q"], of h] assms(3,5,6) chk s1(1)
    by (simp add: handleChangeOrEnterPIN_def asimcard_get_status_def ch_def nth_append sim_sizes finish_reply_def is_final_def
        reply_ok_def modem_consts)
  moreover have "\<exists>m3. amodem_send h ?m2 (''AT+CPIN='' @ q) = Inr (Some (''+CPIN: READY'' @ [cr] @ ''OK''), m3, []) \<and>
      status (sim m3) = A_SIM_STATUS_READY"
    using send_prefix [OF _ dsp [of q], of ?m2 h] assms(1) s1(3)
    by (simp add: handleChangeOrEnterPIN_def asimcard_get_status_def asimcard_set_status_def asimcard_check_pin_def
        finish_reply_def is_final_def reply_ok_def modem_consts)
  moreover have "\<exists>m3. amodem_send h ?m2 (''AT+CPIN='' @ x) = Inr (Some ''+CME ERROR: BAD PIN'', m3, [])" if "x \<noteq> q" for x
    using send_prefix [OF _ dsp [of x], of ?m2 h] assms(1) s1(3) that
    by (simp add: handleChangeOrEnterPIN_def asimcard_get_status_def asimcard_set_status_def asimcard_check_pin_def Let_def
        finish_reply_def is_final_def)
  ultimately show ?thesis by (intro exI [of _ ?m1]) (simp add: Let_def)
qed

definition new_modem :: modem where
  "new_modem = the (amodem_create 5554 True)"

theorem pin_change_round_witness:
  "\<exists>m1. amodem_send sample_host new_modem ''AT+CPIN=0000,4711'' = Inr (Some (''+CPIN: READY'' @ [cr] @ ''OK''), m1, [])"
proof -
  have "\<not> wait_sms new_modem \<and> card_wf (sim new_modem) \<and> status (sim new_modem) = A_SIM_STATUS_READY \<and>
      cstr (pin (sim new_modem)) = Some ''0000'' \<and> length ''0000'' = A_SIM_PIN_SIZE \<and> length ''4711'' = A_SIM_PIN_SIZE \<and>
      nul \<notin> set ''4711''"
    by code_simp
  then show ?thesis using pin_change_round [of new_modem "''0000''" "''4711''" sample_host] by auto
qed

definition covers :: "response \<Rightarrow> response \<Rightarrow> bool" where
  "covers r s \<longleftrightarrow>
     (if is_prefix r then take (length (rcmd r)) (rcmd s) = rcmd r else \<not> is_prefix s \<and> rcmd s = rcmd r)"

fun without_covered :: "response list \<Rightarrow> response list \<Rightarrow> response list" where
  "without_covered seen [] = []"
| "without_covered seen (r # rs) =
     (if \<exists>s \<in> set seen. covers s r then without_covered seen rs else r # without_covered (r # seen) rs)"

lemma take_prefix_trans: "take (length p) q = p \<Longrightarrow> take (length q) c = q \<Longrightarrow> take (length p) c = p"
  by (metis append_take_drop_id append.assoc append_eq_conv_conj)

lemma covers_matches: "covers r s \<Longrightarrow> matches cmd s \<Longrightarrow> matches cmd r"
  by (auto simp: covers_def matches_def take_prefix_trans split: if_splits)

lemma find_without_covered:
  "\<forall>s \<in> set seen. \<not> matches cmd s \<Longrightarrow> find (matches cmd) (without_covered seen rs) = find (matches cmd) rs"
  by (induction seen rs rule: without_covered.induct) (auto dest: covers_matches)


definition names_wf :: "modem \<Rightarrow> bool" where
  "names_wf m \<longleftrightarrow> oper_count m = 2 \<and> length (operators m) = MAX_OPERATORS \<and>
     (\<forall>r \<in> set (operators m). length (oper_name r) = 3 \<and> (\<forall>a \<in> set (oper_name r). length a = OPER_NAME_SIZE))"

lemma names_wfD:
  assumes "names_wf m" "nn < 4" "i < 3"
  shows "length (oper_name (operators m ! nn)) = 3" "length (oper_name (operators m ! nn) ! i) = 16"
proof -
  have r: "operators m ! nn \<in> set (operators m)" using assms by (simp add: names_wf_def modem_consts)
  then show l: "length (oper_name (operators m ! nn)) = 3" using assms by (simp add: names_wf_def)
  then have "oper_name (operators m ! nn) ! i \<in> set (oper_name (operators m ! nn))" using assms(3) by simp
  then show "length (oper_name (operators m ! nn) ! i) = 16" using assms(1) r by (simp add: names_wf_def modem_consts)
qed

lemma int_of_char: "(of_char (char_of n :: char) :: int) = int n mod 256"
proof -
  have "(of_char (char_of n :: char) :: int) = int (of_char (char_of n :: char))" by (simp only: of_nat_of_char)
  also have "\<dots> = int n mod 256" by (simp add: of_char_of zmod_int)
  finally show ?thesis .
qed

text \<open>
  Remark (error). Selecting an operator by name never succeeds: the comparison is written as
  \<open>memcpy\<close>. The guest gets error 529 whatever name it gives, the operator stays the one it was, and the
  names of all operators in the list are overwritten with the one that was asked for.
\<close>

theorem operator_selection_fails:
  assumes "\<not> wait_sms m" "names_wf m" "f < 3" "0 < length name" "length name \<le> OPER_NAME_SIZE" "dquote \<notin> set name"
  shows "\<exists>ops. amodem_send h m (''AT+COPS=1,'' @ [ascii_digit f] @ '','' @ quoted name) =
      Inr (Some ''+CME ERROR: 529'', m\<lparr>operators := ops\<rparr>, []) \<and>
    (\<forall>nn < 2. take (length name) (oper_name (ops ! nn) ! f) = name)"
proof -
  let ?cmd = "''COPS=1,'' @ [ascii_digit f] @ '','' @ quoted name"
  have f: "f = 0 \<or> f = 1 \<or> f = 2" using assms(3) by auto
  then have d: "(of_char (ascii_digit f) :: int) - 48 = int f" by (auto simp: ascii_digit_def int_of_char)
  have dsp: "find_response sDefaultResponses (CHR ''+'' # ?cmd) = Some (pre ''+COPS'' H_OperatorSelection)"
    using dispatch_cops [of "''1,'' @ [ascii_digit f] @ '','' @ quoted name"] by simp
  note n0 = names_wfD [OF assms(2), of 0 f] and n1 = names_wfD [OF assms(2), of 1 f]
  let ?a = "\<lambda>nn. name @ drop (length name) (oper_name (operators m ! nn) ! f)"
  let ?ops = "(operators m)[0 := set_oper_name (operators m ! 0) f (?a 0), 1 := set_oper_name (operators m ! 1) f (?a 1)]"
  have loop: "select_loop 2 0 f (name @ [dquote]) (int (length name)) (operators m) = Some (None, ?ops)"
    using n0 n1 assms by (simp add: numeral_2_eq_2 memcpy_def modem_consts)
  have "run_handler h H_OperatorSelection (CHR ''+'' # ?cmd) m = Inr (Literal ''+CME ERROR: 529'', m\<lparr>operators := ?ops\<rparr>, [])"
    using loop assms d f
    by (auto simp: handleOperatorSelection_def select_operator_def ch_def oper_format_def quoted_def names_wf_def Let_def)
  then have "amodem_send h m (''AT+'' @ ?cmd) = Inr (Some ''+CME ERROR: 529'', m\<lparr>operators := ?ops\<rparr>, [])"
    using send_prefix [OF assms(1) dsp, of h] by (simp add: finish_reply_def is_final_def)
  moreover have "take (length name) (oper_name (?ops ! nn) ! f) = name" if "nn < 2" for nn
    using that n0 n1 assms by (auto simp: less_2_cases_iff set_oper_name_def names_wf_def modem_consts)
  ultimately show ?thesis by (intro exI [of _ ?ops]) simp
qed

theorem operator_selection_fails_witness:
  "\<exists>m'. amodem_send sample_host new_modem (''AT+COPS=1,0,'' @ quoted ''TelKila'') = Inr (Some ''+CME ERROR: 529'', m', [])"
proof -
  have "\<not> wait_sms new_modem \<and> names_wf new_modem \<and> 0 < length ''TelKila'' \<and> length ''TelKila'' \<le> OPER_NAME_SIZE \<and>
      dquote \<notin> set ''TelKila'' \<and> ascii_digit 0 = CHR ''0''" by code_simp
  then show ?thesis using operator_selection_fails [of new_modem 0 "''TelKila''" sample_host] by auto
qed

definition day_minutes :: "tm \<Rightarrow> int" where
  "day_minutes t = tm_min t + 60 * tm_hour t"

text \<open>
  Remark (error). The time zone that the modem reports is the difference of the two clocks, except around
  New Year: when the local clock is one year ahead and on its first day, the result is short by the whole number
  of days that have passed of the old year, 364 or 365 of them.
\<close>

theorem time_zone_new_year:
  "(tm_year local = tm_year utc \<longrightarrow>
      tz_minutes utc local = day_minutes local + 1440 * tm_yday local - (day_minutes utc + 1440 * tm_yday utc)) \<and>
   (tm_year local = tm_year utc + 1 \<and> tm_yday local = 0 \<longrightarrow>
      tz_minutes utc local = (day_minutes local + 1440 - day_minutes utc) - 1440 * tm_yday utc)"
  by (simp add: tz_minutes_def day_minutes_def Let_def)

theorem time_zone_new_year_witness:
  "let utc = \<lparr>tm_sec = 0, tm_min = 30, tm_hour = 23, tm_mday = 31, tm_mon = 11, tm_year = 108, tm_yday = 365, tm_isdst = 0\<rparr>;
       local = \<lparr>tm_sec = 0, tm_min = 30, tm_hour = 0, tm_mday = 1, tm_mon = 0, tm_year = 109, tm_yday = 0, tm_isdst = 0\<rparr>
   in tz_minutes utc local = 60 - 365 * 1440"
  using time_zone_new_year [of "\<lparr>tm_sec = 0, tm_min = 30, tm_hour = 0, tm_mday = 1, tm_mon = 0, tm_year = 109, tm_yday = 0, tm_isdst = 0\<rparr>"
    "\<lparr>tm_sec = 0, tm_min = 30, tm_hour = 23, tm_mday = 31, tm_mon = 11, tm_year = 108, tm_yday = 365, tm_isdst = 0\<rparr>"]
  by (simp add: day_minutes_def)

text \<open>
  Remark (error). A registration query without \<open>?\<close> or \<open>=\<close> behind it, such as \<open>AT+CREG\<close> alone, reaches an
  assertion that is marked unreachable: the guest can stop the emulator with it.
\<close>

theorem creg_aborts:
  assumes "\<not> wait_sms m" "ch s 0 \<noteq> CHR ''?''" "ch s 0 \<noteq> CHR ''=''"
  shows "amodem_send h m (''AT+CREG'' @ s) = Inl Cpu_abort"
proof -
  have "find_response sDefaultResponses (CHR ''+'' # ''CREG'' @ s) = Some (pre ''+CREG'' H_NetworkRegistration)"
    using dispatch_creg [of s] by simp
  from send_prefix [OF assms(1) this, of h] show ?thesis using assms(2,3) by (simp add: handleNetworkRegistration_def)
qed

theorem creg_aborts_witness: "amodem_send sample_host new_modem ''AT+CREG'' = Inl Cpu_abort"
proof -
  have "\<not> wait_sms new_modem \<and> ch [] 0 \<noteq> CHR ''?'' \<and> ch [] 0 \<noteq> CHR ''=''" by code_simp
  then show ?thesis using creg_aborts [of new_modem "[]" sample_host] by simp
qed

text \<open>
  Remark (functional). A packet data context that the guest defines is stored under its number, with its
  name; but \<open>+CGACT?\<close> reports nothing, whatever is active, because its row has an
  answer and so its handler is not called.
\<close>

theorem pdp_context_defined:
  assumes "\<not> wait_sms m" "length (data_contexts m) = MAX_DATA_CONTEXTS" "n < 4" "dquote \<notin> set apn" "length apn < A_DATA_APN_SIZE"
  shows "\<exists>m'. amodem_send h m (''AT+CGDCONT='' @ [char_of (49 + n)] @ '','' @ quoted ''IP'' @ '','' @ quoted apn @ rest) =
      Inr (Some ''OK'', m', []) \<and>
    m' = m\<lparr>data_contexts := (data_contexts m)[n := \<lparr>data_id = int n + 1, data_active = True, data_kind = A_DATA_IP, data_apn = apn\<rparr>]\<rparr> \<and>
    amodem_send h m' ''AT+CGACT?'' = Inr (Some (cr # ''OK''), m', [])"
proof -
  let ?cmd = "''CGDCONT='' @ [char_of (49 + n)] @ '','' @ quoted ''IP'' @ '','' @ quoted apn @ rest"
  let ?m = "m\<lparr>data_contexts := (data_contexts m)[n := \<lparr>data_id = int n + 1, data_active = True, data_kind = A_DATA_IP, data_apn = apn\<rparr>]\<rparr>"
  have c: "(of_char (char_of (49 + n)) :: int) = 49 + int n" using assms(3) by (simp add: int_of_char)
  have q: "char_of (49 + n) \<noteq> CHR ''?''"
  proof
    assume "char_of (49 + n) = CHR ''?''"
    then have "of_char (char_of (49 + n) :: char) = (63 :: int)" by simp
    with c assms(3) show False by simp
  qed
  have tw: "takeWhile (\<lambda>c. c \<noteq> dquote) (apn @ dquote # rest) = apn" using assms(4) by (simp add: takeWhile_append)
  have dsp: "find_response sDefaultResponses (CHR ''+'' # ?cmd) = Some (pre ''+CGDCONT='' H_DefinePDPContext)"
    using dispatch_cgdcont [of "[char_of (49 + n)] @ '','' @ quoted ''IP'' @ '','' @ quoted apn @ rest"] by simp
  have "run_handler h H_DefinePDPContext (CHR ''+'' # ?cmd) m = Inr (No_reply, ?m, [])"
    using assms c q tw by (simp add: handleDefinePDPContext_def ch_def quoted_def Let_def modem_consts numeral_eq_Suc)
  then have "amodem_send h m (''AT+'' @ ?cmd) = Inr (Some ''OK'', ?m, [])"
    using send_prefix [OF assms(1) dsp, of h] by (simp add: finish_reply_def)
  moreover have "amodem_send h ?m ''AT+CGACT?'' = Inr (Some (cr # ''OK''), ?m, [])"
    using assms(1) dispatch_cgact by (simp add: amodem_send_def ch_def nul_def full_def reply_ok_def modem_consts)
  ultimately show ?thesis by simp
qed

theorem pdp_context_defined_witness:
  "\<exists>m'. amodem_send sample_host new_modem (''AT+CGDCONT=1,'' @ quoted ''IP'' @ '','' @ quoted ''internet'' @ '',,0,0'') =
     Inr (Some ''OK'', m', []) \<and> amodem_send sample_host m' ''AT+CGACT?'' = Inr (Some (cr # ''OK''), m', [])"
proof -
  have "\<not> wait_sms new_modem \<and> length (data_contexts new_modem) = MAX_DATA_CONTEXTS \<and> dquote \<notin> set ''internet'' \<and>
      length ''internet'' < A_DATA_APN_SIZE \<and> char_of (49 + 0 :: nat) = CHR ''1''" by code_simp
  then show ?thesis using pdp_context_defined [of new_modem 0 "''internet''" sample_host "'',,0,0''"] by auto
qed

end
