(* ===== verification/Modem_Wf.thy ===== *)
theory Modem_Wf
  imports Modem_At
begin

text \<open>
  The invariant of the modem under everything that happens to it, and the bounds of its output buffer.
\<close>

section \<open>Bounds of the output buffer\<close>

lemma digits_length: "n < 10 ^ k \<Longrightarrow> 0 < k \<Longrightarrow> length (digits_of 10 n) \<le> k"
proof (induction k arbitrary: n)
  case (Suc k)
  show ?case
  proof (cases "n < 10")
    case True
    then show ?thesis by (simp add: digits_of.simps [of 10 n])
  next
    case False
    then have "k \<noteq> 0" using Suc.prems(1) by (cases k) auto
    moreover have "n div 10 < 10 ^ k" using Suc.prems(1) by (simp add: less_mult_imp_div_less mult.commute)
    ultimately show ?thesis using False Suc.IH [of "n div 10"] by (simp add: digits_of.simps [of 10 n])
  qed
qed simp

lemma fmt_d_digit: "0 \<le> i \<Longrightarrow> i < 10 \<Longrightarrow> length (fmt_d i) = 1"
  by (simp add: fmt_d_def digits_of.simps [of 10 "nat i"] nat_less_iff)

lemma fmt_d_int: "- (2 ^ 31) \<le> i \<Longrightarrow> i < 2 ^ 31 \<Longrightarrow> length (fmt_d i) \<le> 11"
  using digits_length [of "nat i" 10] digits_length [of "nat (- i)" 10] by (auto simp: fmt_d_def nat_less_iff)

lemma dir_digit: "length (fmt_d (dir_code d)) = 1"
  by (cases d) (simp_all add: fmt_d_digit)

lemma state_digit: "length (fmt_d (state_code s)) = 1"
  by (cases s) (simp_all add: fmt_d_digit)

lemma mode_digit: "length (fmt_d (call_mode_code k)) = 1"
  by (cases k) (simp_all add: fmt_d_digit)

lemma length_quoted [simp]: "length (quoted s) = length s + 2"
  by (simp add: quoted_def)

lemma fmt_129: "length (fmt_d 129) = 3"
  by (simp add: fmt_d_def digits_of.simps)

lemma clcc_length:
  assumes "1 \<le> call_id c" "call_id c \<le> 4" "length (number c) \<le> 16" "- (2 ^ 31) \<le> multi c" "multi c < 2 ^ 31"
  shows "length (clcc_line c) \<le> 64"
  using assms fmt_d_digit [of "call_id c"] fmt_d_int [of "multi c"]
  by (simp add: clcc_line_def dir_digit state_digit mode_digit fmt_129)

lemma cgdcont_length:
  assumes "1 \<le> data_id d" "data_id d \<le> 4" "length (data_apn d) \<le> 31"
  shows "length (cgdcont_line d) \<le> 64"
  using assms by (simp add: cgdcont_line_def fmt_d_digit)

lemma add_lines:
  "length out + length (concat ss) < OUT_BUFF_SIZE \<Longrightarrow> amodem_add_lines out ss = Inr (Out (out @ concat ss))"
  by (induction out ss rule: amodem_add_lines.induct) simp_all

lemma concat_length: "\<forall>s \<in> set ss. length s \<le> k \<Longrightarrow> length (concat ss) \<le> length ss * k"
  by (induction ss) auto

text \<open>Fewer than fifteen lines of at most 64 characters fit, and \<open>OK\<close> after them.\<close>

lemma lines_reply:
  assumes "\<forall>s \<in> set ss. length s \<le> 64 \<and> take 6 s \<noteq> ''+CME E'' \<and> take 2 s \<noteq> ''> '' \<and> take 5 s \<noteq> ''ERROR'' \<and> 6 \<le> length s"
    and "length ss \<le> 4"
  shows "\<exists>r. amodem_add_lines [] ss = Inr r \<and> finish_reply r = Inr (concat ss @ [cr] @ ''OK'')"
proof -
  have l: "length (concat ss) \<le> 256" using concat_length [of ss 64] assms by fastforce
  have "\<not> is_final (concat ss)"
  proof (cases ss)
    case (Cons s rest)
    then show ?thesis using assms(1) by (simp add: is_final_def)
  qed (simp add: is_final_def)
  then show ?thesis using l add_lines [of "[]" ss] by (simp add: finish_reply_def modem_consts)
qed

lemma line_heads:
  "take 6 (clcc_line c) = ''+CLCC:''" "take 6 (cgdcont_line d) = ''+CGDCO''" "6 \<le> length (clcc_line c)" "6 \<le> length (cgdcont_line d)"
  by (simp_all add: clcc_line_def cgdcont_line_def)

lemma head_not_final:
  assumes "take 6 s = CHR ''+'' # CHR ''C'' # c # rest" "c \<noteq> CHR ''M''"
  shows "take 6 s \<noteq> ''+CME E'' \<and> take 2 s \<noteq> ''> '' \<and> take 5 s \<noteq> ''ERROR''"
proof -
  have "take 2 s = take 2 (take 6 s)" "take 5 s = take 5 (take 6 s)" by simp_all
  then show ?thesis using assms by simp
qed

definition contexts_wf :: "modem \<Rightarrow> bool" where
  "contexts_wf m \<longleftrightarrow> length (data_contexts m) = MAX_DATA_CONTEXTS \<and>
     (\<forall>d \<in> set (data_contexts m). length (data_apn d) < A_DATA_APN_SIZE \<and> (data_active d \<longrightarrow> 1 \<le> data_id d \<and> data_id d \<le> 4))"


section \<open>The invariant of the modem\<close>

definition modem_wf :: "modem \<Rightarrow> bool" where
  "modem_wf m \<longleftrightarrow> names_wf m \<and> contexts_wf m \<and> card_wf (sim m) \<and> table_wf (voice m) \<and> oper_index m \<in> {0, 1} \<and>
     0 \<le> oper_name_index m \<and> oper_name_index m \<le> 2 \<and> (\<forall>r. sms_rec m = Some r \<longrightarrow> receiver_wf r)"

lemma name_update_wf:
  assumes "names_wf m" "length a = OPER_NAME_SIZE"
  shows "names_wf (m\<lparr>operators := (operators m)[nn := set_oper_name (operators m ! nn) i a]\<rparr>)"
proof (cases "nn < length (operators m)")
  case True
  then have "operators m ! nn \<in> set (operators m)" by simp
  then have "length (oper_name (operators m ! nn)) = 3" "\<forall>b \<in> set (oper_name (operators m ! nn)). length b = OPER_NAME_SIZE"
    using assms(1) by (simp_all add: names_wf_def)
  then show ?thesis using assms
    by (auto simp: names_wf_def set_oper_name_def dest!: subsetD [OF set_update_subset_insert])
qed (use assms in \<open>simp add: names_wf_def list_update_beyond\<close>)

lemma select_loop_wf:
  "select_loop k nn f cmd len (operators m) = Some (found, ops) \<Longrightarrow> names_wf m \<Longrightarrow> f < 3 \<Longrightarrow> nn + k \<le> 4 \<Longrightarrow>
   found = None \<and> names_wf (m\<lparr>operators := ops\<rparr>)"
proof (induction k arbitrary: nn m)
  case 0
  then show ?case by auto
next
  case (Suc k)
  from Suc.prems(1) obtain a where a: "memcpy (oper_name (operators m ! nn) ! f) 0 cmd len = Some a"
    "select_loop k (Suc nn) f cmd len ((operators m)[nn := set_oper_name (operators m ! nn) f a]) = Some (found, ops)"
    by (auto simp: bind_eq_Some_conv)
  let ?m = "m\<lparr>operators := (operators m)[nn := set_oper_name (operators m ! nn) f a]\<rparr>"
  have "length a = OPER_NAME_SIZE" using memcpy_length [OF a(1)] names_wfD(2) [of m nn f] Suc.prems by (simp add: modem_consts)
  then have "names_wf ?m" by (rule name_update_wf [OF Suc.prems(2)])
  then show ?case using Suc.IH [of "Suc nn" ?m] a(2) Suc.prems(3,4) by simp
qed


lemma card_keep_wf: "card_wf s \<Longrightarrow> card_wf (s\<lparr>status := st, pin_retries := k\<rparr>)" "card_wf s \<Longrightarrow> card_wf (s\<lparr>status := st\<rparr>)"
    "card_wf s \<Longrightarrow> card_wf (s\<lparr>pin_retries := k\<rparr>)"
  by (simp_all add: card_wf_def)

lemma check_pin_wf: "asimcard_check_pin s p = Some (r, s') \<Longrightarrow> card_wf s \<Longrightarrow> card_wf s'"
  by (auto simp: asimcard_check_pin_def bind_eq_Some_conv card_keep_wf Let_def split: if_splits)

lemma strncpy_array:
  assumes "strncpy a src n = Some b" "length a = Suc n" "last a = nul"
  shows "length b = Suc n \<and> last b = nul"
  using strncpy_wf [OF assms(2,3), of src] assms(1) by simp

lemma set_pin_wf: "asimcard_set_pin s p = Some s' \<Longrightarrow> card_wf s \<Longrightarrow> card_wf s'"
  using strncpy_array [of "pin s" p 4] by (auto simp: asimcard_set_pin_def card_wf_def sim_sizes)

lemma check_puk_wf:
  assumes "asimcard_check_puk s k p = Some (r, s')" "card_wf s"
  shows "card_wf s'"
  using assms strncpy_array [of "pin s" p 4] strncpy_array [of "puk s" k 8]
  by (fastforce simp: asimcard_check_puk_def card_wf_def bind_eq_Some_conv sim_sizes Let_def split: if_splits)

lemma pin_handler_wf: "handleChangeOrEnterPIN cmd m = Inr (r, m', es) \<Longrightarrow> card_wf (sim m) \<Longrightarrow> card_wf (sim m') \<and> m' = m\<lparr>sim := sim m'\<rparr>"
  by (cases "status (sim m)"; auto simp: handleChangeOrEnterPIN_def asimcard_get_status_def Let_def
      split: if_splits option.splits prod.splits dest: check_pin_wf set_pin_wf check_puk_wf)

lemma define_pdp_wf:
  assumes "handleDefinePDPContext cmd m = Inr (r, m', es)" "contexts_wf m"
  shows "contexts_wf m' \<and> m' = m\<lparr>data_contexts := data_contexts m'\<rparr>"
  using assms
  by (auto simp: handleDefinePDPContext_def Let_def contexts_wf_def modem_consts map_sum_Inr_iff split: if_splits
      dest!: subsetD [OF set_update_subset_insert])

lemma selection_wf:
  assumes "handleOperatorSelection cmd m = Inr (r, m', es)" "modem_wf m"
  shows "modem_wf m'"
proof -
  have loop: "found = None \<and> modem_wf (m\<lparr>operators := ops\<rparr>)"
    if "select_loop (nat (oper_count m)) 0 (nat f) d len (operators m) = Some (found, ops)" "\<not> 2 < f" for f d len found ops
    using select_loop_wf [OF that(1)] assms(2) that(2) by (auto simp: modem_wf_def names_wf_def contexts_wf_def)
  have "modem_wf m'" if "select_operator c m = Inr (r, m', es)" for c
    using that assms(2) by (auto simp: select_operator_def Let_def split: handler_splits dest!: loop)
  then show ?thesis using assms
    by (auto simp: handleOperatorSelection_def Let_def map_sum_Inr_iff modem_wf_def names_wf_def contexts_wf_def split: handler_splits)
qed

lemma call_handlers_wf:
  assumes "run_handler h f cmd m = Inr (r, m', es)" "f = H_Hangup \<or> f = H_Dial \<or> f = H_Answer" "modem_wf m"
  shows "modem_wf m'"
proof -
  have wf: "table_wf (voice m)" using assms(3) by (simp add: modem_wf_def)
  have "table_wf (voice m')" "m' = m\<lparr>voice := voice m'\<rparr>"
    using assms(1,2) hangup_wf [OF _ wf, of cmd] dial_wf [OF wf, of cmd] answer_wf [OF _ wf, of cmd]
    by (auto simp: map_sum_Inr_iff)
  moreover have "modem_wf (m\<lparr>voice := t\<rparr>)" if "table_wf t" for t using assms(3) that by (simp add: modem_wf_def names_wf_def contexts_wf_def)
  ultimately show ?thesis by metis
qed

lemma simple_handlers_wf:
  assumes "run_handler h f cmd m = Inr (r, m', es)" "modem_wf m"
    and "f \<notin> {H_Hangup, H_Dial, H_Answer, H_OperatorSelection, H_ChangeOrEnterPIN, H_DefinePDPContext}"
  shows "modem_wf m'"
proof -
  have "operators m' = operators m \<and> oper_count m' = oper_count m \<and> data_contexts m' = data_contexts m \<and> sim m' = sim m \<and>
      voice m' = voice m \<and> oper_index m' = oper_index m \<and> sms_rec m' = sms_rec m \<and> oper_name_index m' \<in> {2, oper_name_index m}"
    using assms(1,3) by (cases f)
     (auto simp: handleRadioPower_def handleListPDPContexts_def handleRequestOperator_def handleListCurrentCalls_def
        handleSendSMStoSIM_def handleNetworkRegistration_def handleSendSMS_def handleSIM_IO_def handleSIMStatusReq_def
        handleRadioPowerReq_def handleEndOfInit_def Let_def map_sum_Inr_iff split: handler_splits)
  then show ?thesis using assms(2) by (auto simp: modem_wf_def names_wf_def contexts_wf_def)
qed

lemma handler_wf: "run_handler h f cmd m = Inr (r, m', es) \<Longrightarrow> modem_wf m \<Longrightarrow> modem_wf m'"
proof -
  assume a: "run_handler h f cmd m = Inr (r, m', es)" "modem_wf m"
  consider "f = H_Hangup \<or> f = H_Dial \<or> f = H_Answer" | "f = H_OperatorSelection" | "f = H_ChangeOrEnterPIN" | "f = H_DefinePDPContext"
    | "f \<notin> {H_Hangup, H_Dial, H_Answer, H_OperatorSelection, H_ChangeOrEnterPIN, H_DefinePDPContext}" by blast
  then show ?thesis
  proof cases
    case 1
    then show ?thesis using call_handlers_wf a by blast
  next
    case 2
    then show ?thesis using selection_wf a by simp
  next
    case 3
    then have "card_wf (sim m')" and m': "m' = m\<lparr>sim := sim m'\<rparr>" using pin_handler_wf [of cmd m r m' es] a by (simp_all add: modem_wf_def)
    moreover have "modem_wf (m\<lparr>sim := s\<rparr>)" if "card_wf s" for s using a(2) that by (simp add: modem_wf_def names_wf_def contexts_wf_def)
    ultimately show ?thesis by metis
  next
    case 4
    then have "contexts_wf m'" and m': "m' = m\<lparr>data_contexts := data_contexts m'\<rparr>"
      using define_pdp_wf [of cmd m r m' es] a by (simp_all add: modem_wf_def)
    moreover have "modem_wf (m\<lparr>data_contexts := d\<rparr>)" if "contexts_wf (m\<lparr>data_contexts := d\<rparr>)" for d
      using a(2) that by (simp add: modem_wf_def names_wf_def contexts_wf_def)
    ultimately show ?thesis by metis
  qed (use simple_handlers_wf a in blast)
qed

lemma remove_wf: "receiver_wf r \<Longrightarrow> receiver_wf (sms_receiver_remove r index)"
proof -
  assume wf: "receiver_wf r"
  let ?i = "sms_receiver_find_index_p r index" and ?xs = "map fr_index (rc_fragments r)"
  have "distinct ?xs" using wf by (simp add: receiver_wf_def)
  then have "distinct (take ?i ?xs @ drop (Suc ?i) ?xs)"
    using set_take_disj_set_drop_if_distinct [of ?xs ?i "Suc ?i"] by simp
  then show ?thesis using wf
    by (auto simp: receiver_wf_def sms_receiver_remove_def Let_def take_map drop_map simp del: distinct_append dest: in_set_takeD in_set_dropD)
qed

lemma create_deliver_wf:
  "sms_receiver_create_deliver r index a ts n = Some (d, r', n') \<Longrightarrow> receiver_wf r \<Longrightarrow> receiver_wf r'"
  by (auto simp: sms_receiver_create_deliver_def Let_def bind_eq_Some_conv remove_wf split: if_splits)

text \<open>Everything that changes the modem: the guest's lines, the console, the call events.\<close>

inductive modem_step :: "modem \<Rightarrow> modem \<Rightarrow> bool" where
  send: "amodem_send h m cmd = Inr (a, m', es) \<Longrightarrow> modem_step m m'"
| calls: "call_step (voice m) t \<Longrightarrow> modem_step m (m\<lparr>voice := t\<rparr>)"
| radio: "modem_step m (amodem_set_radio_state m st)"
| voice_registration: "modem_step m (fst (amodem_set_voice_registration m st'))"
| data_registration: "modem_step m (fst (amodem_set_data_registration m st'))"
| network_type: "modem_step m (fst (amodem_set_data_network_type m ty))"
| operator_name: "amodem_set_operator_name m index buffer size' = Inr m' \<Longrightarrow> modem_step m m'"
| legacy: "modem_step m (amodem_set_legacy m)"
| sim_status: "modem_step m (m\<lparr>sim := asimcard_set_status (sim m) s\<rparr>)"

inductive modem_reach :: "modem \<Rightarrow> bool" where
  create: "amodem_create port unsol = Some m \<Longrightarrow> modem_reach m"
| step: "modem_reach m \<Longrightarrow> modem_step m m' \<Longrightarrow> modem_reach m'"

lemma deliver_sms_wf: "deliver_sms h num i r m = Inr (m', es) \<Longrightarrow> receiver_wf r \<Longrightarrow> \<forall>r'. sms_rec m' = Some r' \<longrightarrow> receiver_wf r'"
  by (auto simp: deliver_sms_def undefined_if_none_Inr bind_eq_Some_conv dest: create_deliver_wf)

lemma submit_wf:
  assumes "submit_sms h pdu num m = Inr (m', es)" "\<forall>r. sms_rec m = Some r \<longrightarrow> receiver_wf r"
  shows "\<forall>r. sms_rec m' = Some r \<longrightarrow> receiver_wf r"
proof -
  define r0 where "r0 = (case sms_rec m of None \<Rightarrow> sms_receiver_create | Some r \<Rightarrow> r)"
  have r0: "receiver_wf r0"
    using assms(2) by (auto simp: r0_def receiver_wf_def sms_receiver_create_def split: option.split)
  have add: "receiver_wf r1" if "sms_receiver_add_submit_pdu r0 p = Some (i, r1)" for p i r1
    using add_submit_wf [OF r0 that] by simp
  obtain i r1 where i: "sms_receiver_add_submit_pdu r0 pdu = Some (i, r1)"
    using assms(1) unfolding submit_sms_def r0_def [symmetric] by (auto split: option.splits)
  show ?thesis
  proof (cases "i > 0")
    case True
    then have "deliver_sms h num i r1 (m\<lparr>sms_rec := Some r1\<rparr>) = Inr (m', es)"
      using assms(1) i unfolding submit_sms_def r0_def [symmetric] by simp
    then show ?thesis by (rule deliver_sms_wf) (rule add [OF i])
  next
    case False
    then show ?thesis using assms(1) i add [OF i] unfolding submit_sms_def r0_def [symmetric] by auto
  qed
qed

lemma sms_text_wf:
  assumes "handleSendSMSText h cmd m = Inr (r, m', es)" "\<forall>r. sms_rec m = Some r \<longrightarrow> receiver_wf r"
  shows "\<forall>r. sms_rec m' = Some r \<longrightarrow> receiver_wf r"
  using assms(1)
proof (cases rule: sms_text_cases)
  case 1
  then show ?thesis using assms(2) by simp
next
  case (2 pdu num)
  then show ?thesis by (rule submit_wf) (rule assms(2))
qed

lemma modem_send_wf:
  assumes "amodem_send h m cmd = Inr (a, m', es)" "modem_wf m"
  shows "modem_wf m'"
  using assms(1)
proof (cases rule: send_cases)
  case (sms r)
  have "\<forall>r. sms_rec (m\<lparr>wait_sms := False\<rparr>) = Some r \<longrightarrow> receiver_wf r"
    using assms(2) unfolding modem_wf_def by simp
  then have rc: "\<forall>r. sms_rec m' = Some r \<longrightarrow> receiver_wf r" by (rule sms_text_wf [OF sms(2)])
  note fr = sms_text_frame [OF sms(2)]
  have "operators m' = operators m" "oper_count m' = oper_count m" "oper_index m' = oper_index m" "sim m' = sim m"
    "oper_name_index m' = oper_name_index m" "data_contexts m' = data_contexts m" "voice m' = voice m"
    using arg_cong [OF fr, of operators] arg_cong [OF fr, of oper_count] arg_cong [OF fr, of oper_index] arg_cong [OF fr, of sim]
      arg_cong [OF fr, of oper_name_index] arg_cong [OF fr, of data_contexts] arg_cong [OF fr, of voice] by simp_all
  then show ?thesis using assms(2) rc unfolding modem_wf_def names_wf_def contexts_wf_def by metis
next
  case (handler f r)
  then show ?thesis using handler_wf assms(2) by blast
qed (use assms in simp)

lemma set_name_wf:
  assumes "amodem_set_operator_name m index buffer n = Inr m'" "modem_wf m"
  shows "modem_wf m'"
proof (cases "m' = m")
  case False
  then obtain a0 a i where a: "memcpy (oper_name (operators m ! nat (oper_index m)) ! nat index) 0 (buffer @ [nul]) i = Some a0"
    "wr a0 i nul = Some a" "0 \<le> index" "index \<le> 2"
    and m': "m' = m\<lparr>operators := (operators m)[nat (oper_index m) := set_oper_name (operators m ! nat (oper_index m)) (nat index) a]\<rparr>"
    using assms(1) by (auto simp: amodem_set_operator_name_def undefined_if_none_Inr bind_eq_Some_conv Let_def split: if_splits)
  have n: "names_wf m" "nat (oper_index m) < 4" "nat index < 3" using assms(2) a(3,4) by (auto simp: modem_wf_def)
  have "length a = OPER_NAME_SIZE"
    using names_wfD(2) [OF n] memcpy_length [OF a(1)] a(2) by (auto simp: wr_eq_Some_iff modem_consts)
  then have "names_wf m'" unfolding m' by (rule name_update_wf [OF n(1)])
  then show ?thesis using assms(2) by (simp add: m' modem_wf_def contexts_wf_def)
qed (use assms in simp)

lemma modem_step_wf:
  assumes "modem_step m m'" "modem_wf m"
  shows "modem_wf m'"
  using assms
proof (cases rule: modem_step.cases)
  case (send h cmd a es)
  then show ?thesis using modem_send_wf assms(2) by blast
next
  case (calls t)
  then have "table_wf t" using step_wf assms(2) by (auto simp: modem_wf_def)
  then show ?thesis using calls assms(2) by (simp add: modem_wf_def names_wf_def contexts_wf_def)
next
  case (operator_name index buffer n)
  then show ?thesis using set_name_wf assms(2) by blast
qed (auto simp: modem_wf_def names_wf_def contexts_wf_def amodem_set_radio_state_def amodem_set_voice_registration_def
    amodem_set_data_registration_def amodem_set_data_network_type_def amodem_set_legacy_def asimcard_set_status_def
    card_keep_wf Let_def modem_consts)

lemma create_modem_wf:
  assumes "amodem_create port unsol = Some m"
  shows "modem_wf m"
proof -
  obtain c where c: "asimcard_create = Some c" "card_wf c" using create_wf by blast
  have "table_wf empty_table" by (rule reach_wf [OF call_reach.start])
  then show ?thesis using assms c(2) unfolding amodem_create_def c(1)
    by (auto simp: amodem_reset_def android_modem0_def modem_wf_def names_wf_def contexts_wf_def modem_consts
        zero_operator_def zero_context_def set_names_def str_array_def numeral_eq_Suc)
qed

interpretation modem_lines: line_service modem_wf "amodem_send h"
  by unfold_locales (rule modem_send_wf)

text \<open>
  Property C7 (invariant). From its creation on, whatever the guest sends and the console and the call
  timers do, the modem stays well formed as long as it runs: the current operator is one of the two that exist and its
  name index is in range, the operator names keep their arrays, the four data contexts have numbers from 1 to 4
  and names that fit, and the SIM card, the call table and the SMS receiver keep their own invariants.
\<close>

theorem modem_invariant:
  assumes "modem_reach m"
  shows "modem_wf m"
  using assms by (induction rule: modem_reach.induct) (auto intro: create_modem_wf modem_step_wf)

theorem modem_invariant_witness:
  "\<exists>m. amodem_create 5554 True = Some m \<and> modem_wf (m\<lparr>sim := asimcard_set_status (sim m) A_SIM_STATUS_PIN\<rparr>)"
proof -
  obtain m where m: "amodem_create 5554 True = Some m" using create_wf by (auto simp: amodem_create_def)
  have "modem_reach (m\<lparr>sim := asimcard_set_status (sim m) A_SIM_STATUS_PIN\<rparr>)"
    by (rule modem_reach.step [OF modem_reach.create [OF m] modem_step.sim_status])
  then show ?thesis using modem_invariant m by blast
qed

text \<open>
  Property C31 (bounds). The lists for the guest fit the output buffer: for a well-formed modem the
  reply to \<open>+CLCC\<close> is the lines of the voice calls and the reply to \<open>+CGDCONT=?\<close> the lines of the active contexts, all of them and
  whole, with \<open>OK\<close> behind them, and neither \<open>amodem_add_line\<close> nor the final \<open>strcat\<close> leaves the 1024 characters.
\<close>

theorem list_replies_fit:
  assumes "\<not> wait_sms m" "table_wf (voice m)" "contexts_wf m" "\<forall>c \<in> set (live (voice m)). - (2 ^ 31) \<le> multi c \<and> multi c < 2 ^ 31"
  shows "amodem_send h m ''AT+CLCC'' =
      Inr (Some (concat (map clcc_line (filter (\<lambda>c. mode c = A_CALL_VOICE) (live (voice m)))) @ [cr] @ ''OK''), m, []) \<and>
    amodem_send h m ''AT+CGDCONT=?'' =
      Inr (Some (concat (map cgdcont_line (filter data_active (data_contexts m))) @ [cr] @ ''OK''), m, [])"
proof
  let ?cs = "map clcc_line (filter (\<lambda>c. mode c = A_CALL_VOICE) (live (voice m)))"
  have "\<forall>s \<in> set ?cs. length s \<le> 64 \<and> take 6 s \<noteq> ''+CME E'' \<and> take 2 s \<noteq> ''> '' \<and> take 5 s \<noteq> ''ERROR'' \<and> 6 \<le> length s"
    using assms(2,4) head_not_final line_heads clcc_length by (auto simp: table_wf_def)
  moreover have "length ?cs \<le> 4"
    using length_filter_le [of "\<lambda>c. mode c = A_CALL_VOICE" "live (voice m)"] table_count [OF assms(2)] assms(2) by simp
  ultimately obtain r where "amodem_add_lines [] ?cs = Inr r" "finish_reply r = Inr (concat ?cs @ [cr] @ ''OK'')"
    using lines_reply by blast
  then show "amodem_send h m ''AT+CLCC'' = Inr (Some (concat ?cs @ [cr] @ ''OK''), m, [])"
    using send_handler [OF assms(1) dispatch_clcc, of H_ListCurrentCalls h]
    by (simp add: full_def handleListCurrentCalls_def live_def nul_def Let_def)
next
  let ?ds = "map cgdcont_line (filter data_active (data_contexts m))"
  have "\<forall>s \<in> set ?ds. length s \<le> 64 \<and> take 6 s \<noteq> ''+CME E'' \<and> take 2 s \<noteq> ''> '' \<and> take 5 s \<noteq> ''ERROR'' \<and> 6 \<le> length s"
    using assms(3) head_not_final line_heads cgdcont_length by (auto simp: contexts_wf_def modem_consts)
  moreover have "length ?ds \<le> 4"
    using length_filter_le [of data_active "data_contexts m"] assms(3) by (simp only: contexts_wf_def modem_consts length_map)
  ultimately obtain r where "amodem_add_lines [] ?ds = Inr r" "finish_reply r = Inr (concat ?ds @ [cr] @ ''OK'')"
    using lines_reply by blast
  moreover have "find_response sDefaultResponses (CHR ''+'' # ''CGDCONT=?'') = Some (pre ''+CGDCONT='' H_DefinePDPContext)"
    using dispatch_cgdcont [of "''?''"] by simp
  ultimately show "amodem_send h m ''AT+CGDCONT=?'' = Inr (Some (concat ?ds @ [cr] @ ''OK''), m, [])"
    using send_prefix [OF assms(1), of "''CGDCONT=?''" _ H_DefinePDPContext h] by (simp add: handleDefinePDPContext_def ch_def)
qed

theorem list_replies_fit_witness:
  "amodem_send sample_host new_modem ''AT+CLCC'' = Inr (Some (cr # ''OK''), new_modem, [])"
proof -
  have l: "\<not> wait_sms new_modem \<and> live (voice new_modem) = []" by code_simp
  obtain m where m: "amodem_create 5554 True = Some m" using create_wf by (auto simp: amodem_create_def)
  then have "modem_wf new_modem" using create_modem_wf [OF m] by (simp add: new_modem_def)
  then show ?thesis using list_replies_fit [of new_modem sample_host] l by (simp add: modem_wf_def)
qed

end
