(* ===== verification/Modem_Driver.thy ===== *)
theory Modem_Driver
  imports Modem_Wf
begin

text \<open>
  The character driver between the guest's serial port and the modem (\<open>telephony/modem_driver.c\<close>): it
  collects bytes into lines, hands each line to the modem and writes the answers back.

  The buffer is the list of the characters collected so far; its length is \<open>in_pos\<close>.
\<close>

section \<open>The driver\<close>

definition IN_BUFF_SIZE :: nat where "IN_BUFF_SIZE = 1024"

record modem_driver =
  in_buff :: string
  in_sms :: bool
  md_modem :: modem

datatype driver_effect = Write string | Network modem_effect

text \<open>Unsolicited results go to the serial port, by \<open>modem_driver_unsol\<close>.\<close>

fun modem_driver_effect :: "modem_effect \<Rightarrow> driver_effect" where
  "modem_driver_effect (Call_effect (Unsol s)) = Write s"
| "modem_driver_effect e = Network e"

definition modem_driver_can_read :: "modem_driver \<Rightarrow> nat" where
  "modem_driver_can_read d = IN_BUFF_SIZE - length (in_buff d)"

definition ctrl_z :: char where "ctrl_z = CHR 0x1A"

text \<open>The line in the buffer goes to the modem, as a C string.\<close>

definition driver_line :: "host \<Rightarrow> modem_driver \<Rightarrow> (modem_driver \<times> driver_effect list) outcome" where
  "driver_line h d =
     (if in_buff d = [] then Inr (d, [])
      else if length (in_buff d) \<ge> IN_BUFF_SIZE then Inl Undefined
      else
        (case amodem_send h (md_modem d) (takeWhile (\<lambda>c. c \<noteq> nul) (in_buff d)) of
           Inl e \<Rightarrow> Inl e
         | Inr (answer, m, es) \<Rightarrow>
             (let d = d\<lparr>in_buff := [], md_modem := m\<rparr>;
                  es = map modem_driver_effect es
              in case answer of
                   None \<Rightarrow> Inr (d, es)
                 | Some a \<Rightarrow> Inr (if a = ''> '' then d\<lparr>in_sms := True\<rparr> else d, es @ [Write a, Write [cr]]))))"

definition append_char :: "modem_driver \<Rightarrow> char \<Rightarrow> modem_driver" where
  "append_char d c =
     (let b = in_buff d @ [c] in d\<lparr>in_buff := (if length b = IN_BUFF_SIZE then [] else b)\<rparr>)"

definition driver_char :: "host \<Rightarrow> modem_driver \<Rightarrow> char \<Rightarrow> (modem_driver \<times> driver_effect list) outcome" where
  "driver_char h d c =
     (if in_sms d then
        (if c \<noteq> ctrl_z then Inr (append_char d c, [])
         else driver_line h (d\<lparr>in_buff := in_buff d @ [c], in_sms := False\<rparr>))
      else if c = lf \<or> c = cr then driver_line h d
      else Inr (append_char d c, []))"

fun modem_driver_read :: "host \<Rightarrow> modem_driver \<Rightarrow> string \<Rightarrow> (modem_driver \<times> driver_effect list) outcome" where
  "modem_driver_read h d [] = Inr (d, [])"
| "modem_driver_read h d (c # src) =
     (case driver_char h d c of
        Inl e \<Rightarrow> Inl e
      | Inr (d, es) \<Rightarrow> map_sum id (\<lambda>(d, es'). (d, es @ es')) (modem_driver_read h d src))"

definition modem_driver_init :: "int \<Rightarrow> modem_driver option" where
  "modem_driver_init port = map_option (\<lambda>m. \<lparr>in_buff = [], in_sms = False, md_modem = m\<rparr>) (amodem_create port True)"

section \<open>The prompt\<close>

lemma find_answer_prompt: "find_answer answers cmd \<noteq> ''> ''"
proof -
  have "list_all (\<lambda>(c, a). a \<noteq> ''> '') as \<Longrightarrow> find_answer as cmd \<noteq> ''> ''" for as
    by (induction as cmd rule: find_answer.induct) auto
  moreover have "list_all (\<lambda>(c, a). a \<noteq> ''> '') answers" by (simp add: answers_def)
  ultimately show ?thesis by blast
qed

lemma reply_ok_length: "3 \<le> length (reply_ok a)"
  by (simp add: reply_ok_def modem_consts)

lemma finish_prompt: "finish_reply r = Inr ''> '' \<Longrightarrow> r = Literal ''> '' \<or> r = Out ''> ''"
  using reply_ok_length by (auto simp: finish_reply_def split: reply.splits if_splits) (metis One_nat_def Suc_1 length_Cons list.size(3) not_less_eq_eq numeral_3_eq_3 le_refl)

lemma add_lines_reply: "amodem_add_lines out ss = Inr r \<Longrightarrow> r = Out (out @ concat ss)"
  by (induction out ss rule: amodem_add_lines.induct) (auto split: if_splits)

lemma concat_prompt: "ss = [] \<or> hd ss \<noteq> [] \<and> hd (hd ss) \<noteq> CHR ''>'' \<Longrightarrow> concat ss \<noteq> ''> ''"
  by (cases ss) (auto simp: neq_Nil_conv)

lemma map_line_prompt: "(\<And>x. take 1 (f x) = ''+'') \<Longrightarrow> amodem_add_lines [] (map f xs) = Inr r \<Longrightarrow> r \<noteq> Out ''> ''"
proof -
  assume f: "\<And>x. take 1 (f x) = ''+''" and r: "amodem_add_lines [] (map f xs) = Inr r"
  have "hd (f x) = CHR ''+''" "f x \<noteq> []" for x using f [of x] by (cases "f x"; simp)+
  then have "concat (map f xs) \<noteq> ''> ''" by (intro concat_prompt) (cases xs; simp)
  with add_lines_reply [OF r] show ?thesis by simp
qed

lemma oper_lines_prompt:
  assumes "oper_lines ''+COPS: '' rs = Inr ls" "amodem_add_lines [] ls = Inr r"
  shows "r \<noteq> Out ''> ''"
proof -
  have "ls = [] \<or> hd ls \<noteq> [] \<and> hd (hd ls) \<noteq> CHR ''>''"
    using assms(1) by (cases rs) (auto simp: map_sum_Inr_iff split: sum.splits)
  then show ?thesis using concat_prompt add_lines_reply [OF assms(2)] by fastforce
qed

lemma line_starts: "take 1 (clcc_line c) = ''+''" "take 1 (cgact_line d) = ''+''" "take 1 (cgdcont_line d) = ''+''"
  by (simp_all add: clcc_line_def cgact_line_def cgdcont_line_def)

lemmas line_prompts = map_line_prompt [OF line_starts(1)] map_line_prompt [OF line_starts(2)] map_line_prompt [OF line_starts(3)]

lemma hangup_answer: "handleHangup t cmd = Inr (a, t', es) \<Longrightarrow> a = None \<or> a = Some ''ERROR: BAD COMMAND''"
  by (auto simp: handleHangup_def map_sum_Inr_iff split: if_splits)

lemma dial_answer: "handleDial t cmd = Inr (a, t') \<Longrightarrow> a = None \<or> a = Some ''ERROR: TOO MANY CALLS''"
  by (auto simp: handleDial_def map_sum_Inr_iff Let_def split: if_splits option.splits prod.splits)

lemma printf_prompt: "amodem_printf (c # s) = Out ''> '' \<Longrightarrow> c = CHR ''>''" "amodem_printf s \<noteq> Literal x" "Literal x \<noteq> amodem_printf s"
  by (auto simp: amodem_printf_def modem_consts)

lemma pin_prompt:
  assumes "handleChangeOrEnterPIN cmd m = Inr (r, m', es)"
  shows "\<exists>a. r = Literal a \<and> a \<noteq> ''> ''" "wait_sms m' = wait_sms m"
  using assms
  by (cases "status (sim m)"; auto simp: handleChangeOrEnterPIN_def asimcard_get_status_def Let_def split: if_splits option.splits prod.splits)+

lemma handler_prompt:
  assumes "run_handler h f cmd m = Inr (r, m', es)"
  shows "r \<noteq> Out ''> ''" "r = Literal ''> '' \<longleftrightarrow> f = H_SendSMS" "wait_sms m' \<longleftrightarrow> wait_sms m \<or> f = H_SendSMS"
proof -
  note d = handler_defs creg_text_def cgreg_text_def unknownCommand_def printf_prompt(2,3) asimcard_io_def
    find_answer_prompt null_or_def Let_def map_sum_Inr_iff
  show "r \<noteq> Out ''> ''"
    using assms by (cases f) (auto simp: d split: handler_splits
        dest: line_prompts oper_lines_prompt printf_prompt(1) pin_prompt)
  show "r = Literal ''> '' \<longleftrightarrow> f = H_SendSMS"
    using assms by (cases f) (auto simp: d split: handler_splits sim_status.splits dest!: add_lines_reply hangup_answer dial_answer pin_prompt(1))
  show "wait_sms m' \<longleftrightarrow> wait_sms m \<or> f = H_SendSMS"
    using assms by (cases f) (auto simp: handler_defs Let_def map_sum_Inr_iff split: handler_splits dest: pin_prompt(2))
qed

lemma send_prompt:
  assumes "amodem_send h m cmd = Inr (a, m', es)"
  shows "wait_sms m' \<longleftrightarrow> a = Some ''> ''"
proof (cases "wait_sms m")
  case True
  then obtain r where r: "handleSendSMSText h cmd (m\<lparr>wait_sms := False\<rparr>) = Inr (r, m', es)" "a = reply_text r"
    using assms by (auto simp: amodem_send_def map_sum_Inr_iff)
  have "\<not> wait_sms m'" using arg_cong [OF sms_text_frame [OF r(1)], of wait_sms] by simp
  moreover have "a \<noteq> Some ''> ''"
    using r by (auto simp: handleSendSMSText_def Let_def map_sum_Inr_iff split: option.splits prod.splits sum.splits if_splits)
  ultimately show ?thesis by simp
next
  case False
  have ok: "reply_ok x \<noteq> ''> ''" for x using reply_ok_length [of x] by auto
  show ?thesis
  proof (cases "\<exists>f r s. run_handler h f (drop 2 cmd) m = Inr (r, m', es) \<and> finish_reply r = Inr s \<and> a = Some s")
    case True
    then obtain f r s where r: "run_handler h f (drop 2 cmd) m = Inr (r, m', es)" "finish_reply r = Inr s" "a = Some s" by blast
    then have "s = ''> '' \<longleftrightarrow> f = H_SendSMS"
      using handler_prompt [OF r(1)] finish_prompt [of r] by (auto simp: finish_reply_def is_final_def)
    then show ?thesis using r(3) False handler_prompt(3) [OF r(1)] by simp
  next
    case no: False
    then have "m' = m \<and> (a = None \<or> a = Some ''ERROR: UNSUPPORTED'' \<or> a = Some ''OK'' \<or> (\<exists>x. a = Some (reply_ok x)))"
      using assms False by (auto simp: amodem_send_def Let_def map_sum_Inr_iff split: handler_splits)
    then show ?thesis by (auto simp: ok ok [symmetric] False)
  qed
qed

section \<open>Properties\<close>

definition driver_wf :: "modem_driver \<Rightarrow> bool" where
  "driver_wf d \<longleftrightarrow> length (in_buff d) < IN_BUFF_SIZE \<and> modem_wf (md_modem d) \<and> (in_sms d \<longleftrightarrow> wait_sms (md_modem d))"

lemma append_wf: "driver_wf d \<Longrightarrow> driver_wf (append_char d c)"
  by (auto simp: driver_wf_def append_char_def Let_def IN_BUFF_SIZE_def)

lemma driver_line_wf:
  assumes "driver_line h d = Inr (d', es)" "in_buff d \<noteq> []" "modem_wf (md_modem d)" "\<not> in_sms d"
  shows "driver_wf d'"
proof -
  obtain a m es1 where s: "amodem_send h (md_modem d) (takeWhile (\<lambda>c. c \<noteq> nul) (in_buff d)) = Inr (a, m, es1)"
    and d': "d' = d\<lparr>in_buff := [], md_modem := m, in_sms := (a = Some ''> '')\<rparr>"
    using assms by (auto simp: driver_line_def Let_def split: handler_splits)
  show ?thesis using modem_send_wf [OF s assms(3)] send_prompt [OF s] by (simp add: d' driver_wf_def IN_BUFF_SIZE_def)
qed

lemma driver_char_wf:
  assumes "driver_char h d c = Inr (d', es)" "driver_wf d"
  shows "driver_wf d'"
proof -
  have "driver_wf d'" if "driver_line h (d\<lparr>in_buff := in_buff d @ [c], in_sms := False\<rparr>) = Inr (d', es)"
    using driver_line_wf [OF that] assms(2) by (simp add: driver_wf_def)
  moreover have "driver_wf d'" if "driver_line h d = Inr (d', es)" "\<not> in_sms d"
    using driver_line_wf [OF that(1)] that assms(2) by (cases "in_buff d = []") (auto simp: driver_line_def driver_wf_def)
  ultimately show ?thesis using assms append_wf by (auto simp: driver_char_def split: if_splits)
qed

text \<open>
  Property C30 (invariant). Whatever bytes the guest sends, the driver and the modem agree on whether the next line
  is the text of a message: the driver waits for the control-Z exactly when the modem waits for the text.
  Between bytes the buffer has room for one more, and the modem keeps its invariant.
\<close>

theorem driver_sms_sync:
  assumes "driver_wf d" "modem_driver_read h d src = Inr (d', es)"
  shows "driver_wf d'"
  using assms
proof (induction h d src arbitrary: es rule: modem_driver_read.induct)
  case (2 h d c src)
  then obtain d1 es1 es2 where "driver_char h d c = Inr (d1, es1)" "modem_driver_read h d1 src = Inr (d', es2)"
    by (auto simp: map_sum_Inr_iff split: sum.splits)
  then show ?case using 2(1) driver_char_wf [OF _ 2(2)] by blast
qed simp


theorem driver_sms_sync_witness:
  "\<exists>d d' es. modem_driver_init 5554 = Some d \<and> modem_driver_read sample_host d (''AT+CMGS=21'' @ [cr]) = Inr (d', es) \<and> driver_wf d'"
proof -
  obtain m where m: "amodem_create 5554 True = Some m" using create_wf by (auto simp: amodem_create_def)
  let ?d = "\<lparr>in_buff = [], in_sms = False, md_modem = m\<rparr>"
  have w: "\<not> wait_sms m" using m by (auto simp: amodem_create_def amodem_reset_def)
  then have wf: "driver_wf ?d" using create_modem_wf [OF m] by (simp add: driver_wf_def IN_BUFF_SIZE_def)
  have "\<not> isl (modem_driver_read sample_host (the (modem_driver_init 5554)) (''AT+CMGS=21'' @ [cr]))" by code_simp
  moreover have i: "modem_driver_init 5554 = Some ?d" using m by (simp add: modem_driver_init_def)
  ultimately obtain d' es where r: "modem_driver_read sample_host ?d (''AT+CMGS=21'' @ [cr]) = Inr (d', es)"
    by (metis option.sel surj_pair sum.collapse(2))
  show ?thesis using driver_sms_sync [OF wf r] r i by blast
qed

text \<open>
  The session that the guest means: it sends a list of lines, each closed by a carriage return or, after the
  prompt, by control-Z; the lines are what the modem gets, and the writes are the answers.
\<close>

definition as_sent :: "modem \<Rightarrow> string \<Rightarrow> string" where
  "as_sent m l = (if wait_sms m then l @ [ctrl_z] else l)"

fun at_session :: "host \<Rightarrow> modem \<Rightarrow> string list \<Rightarrow> (modem \<times> driver_effect list) outcome" where
  "at_session h m [] = Inr (m, [])"
| "at_session h m (l # ls) =
     (case amodem_send h m (as_sent m l) of
        Inl e \<Rightarrow> Inl e
      | Inr (a, m, es) \<Rightarrow>
          map_sum id (\<lambda>(m, out). (m, map modem_driver_effect es @ (case a of None \<Rightarrow> [] | Some x \<Rightarrow> [Write x, Write [cr]]) @ out))
            (at_session h m ls))"

fun wire :: "host \<Rightarrow> modem \<Rightarrow> string list \<Rightarrow> string" where
  "wire h m [] = []"
| "wire h m (l # ls) =
     l @ [if wait_sms m then ctrl_z else cr] @
     (case amodem_send h m (as_sent m l) of Inl e \<Rightarrow> [] | Inr (a, m, es) \<Rightarrow> wire h m ls)"

definition plain_line :: "string \<Rightarrow> bool" where
  "plain_line l \<longleftrightarrow> l \<noteq> [] \<and> length l + 1 < IN_BUFF_SIZE \<and> set l \<inter> {cr, lf, nul, ctrl_z} = {}"

lemma driver_read_append:
  "modem_driver_read h d (xs @ ys) =
     (case modem_driver_read h d xs of
        Inl e \<Rightarrow> Inl e
      | Inr (d, es) \<Rightarrow> map_sum id (\<lambda>(d, es'). (d, es @ es')) (modem_driver_read h d ys))"
proof (induction h d xs rule: modem_driver_read.induct)
  case (1 h d)
  show ?case by (cases "modem_driver_read h d ys") auto
next
  case (2 h d c xs)
  show ?case
  proof (cases "driver_char h d c")
    case (Inr p)
    then obtain d1 es1 where "driver_char h d c = Inr (d1, es1)" by (cases p) simp
    then show ?thesis using 2 [of "(d1, es1)" d1 es1]
      by (cases "modem_driver_read h d1 xs"; cases "modem_driver_read h (fst (projr (modem_driver_read h d1 xs))) ys") auto
  qed simp
qed

lemma collect:
  assumes "length (in_buff d) + length l < IN_BUFF_SIZE" "set l \<inter> {cr, lf, ctrl_z} = {}"
  shows "modem_driver_read h d l = Inr (d\<lparr>in_buff := in_buff d @ l\<rparr>, [])"
  using assms
proof (induction l arbitrary: d)
  case (Cons c l)
  let ?d = "d\<lparr>in_buff := in_buff d @ [c]\<rparr>"
  have "c \<noteq> cr" "c \<noteq> lf" "c \<noteq> ctrl_z" using Cons.prems by auto
  then have "driver_char h d c = Inr (?d, [])" using Cons.prems(1) by (simp add: driver_char_def append_char_def Let_def)
  then show ?case using Cons.IH [of ?d] Cons.prems by simp
qed simp

lemma line_sent:
  assumes "driver_wf d" "in_buff d = []" "plain_line l"
  shows "modem_driver_read h d (l @ [if wait_sms (md_modem d) then ctrl_z else cr]) =
    (case amodem_send h (md_modem d) (as_sent (md_modem d) l) of
       Inl e \<Rightarrow> Inl e
     | Inr (a, m, es) \<Rightarrow> Inr (d\<lparr>md_modem := m, in_sms := wait_sms m\<rparr>,
         map modem_driver_effect es @ (case a of None \<Rightarrow> [] | Some x \<Rightarrow> [Write x, Write [cr]])))"
proof -
  have sync: "in_sms d \<longleftrightarrow> wait_sms (md_modem d)" using assms(1) by (simp add: driver_wf_def)
  have l: "modem_driver_read h d l = Inr (d\<lparr>in_buff := l\<rparr>, [])"
    using collect [of d l h] assms(2,3) by (simp add: plain_line_def disjoint_iff)
  let ?l = "as_sent (md_modem d) l"
  have tw: "takeWhile (\<lambda>c. c \<noteq> nul) ?l = ?l" and b: "?l \<noteq> []" "\<not> length ?l \<ge> IN_BUFF_SIZE"
    using assms(3) by (auto simp: plain_line_def as_sent_def ctrl_z_def nul_def takeWhile_eq_all_conv)
  have dl: "driver_line h (d\<lparr>in_buff := as_sent (md_modem d) l, in_sms := False\<rparr>) =
    (case amodem_send h (md_modem d) (as_sent (md_modem d) l) of
       Inl e \<Rightarrow> Inl e
     | Inr (a, m, es) \<Rightarrow> Inr (d\<lparr>md_modem := m, in_sms := wait_sms m\<rparr>,
         map modem_driver_effect es @ (case a of None \<Rightarrow> [] | Some x \<Rightarrow> [Write x, Write [cr]])))"
  proof (cases "amodem_send h (md_modem d) (as_sent (md_modem d) l)")
    case (Inr p)
    then obtain a m es where s: "amodem_send h (md_modem d) (as_sent (md_modem d) l) = Inr (a, m, es)" by (cases p) auto
    have eq: "d\<lparr>in_sms := b, in_buff := [], md_modem := m\<rparr> = d\<lparr>md_modem := m, in_sms := b\<rparr>"
      "d\<lparr>in_buff := [], md_modem := m, in_sms := b\<rparr> = d\<lparr>md_modem := m, in_sms := b\<rparr>" for b
      using assms(2) by (intro modem_driver.equality; simp)+
    show ?thesis using s send_prompt [OF s] b by (auto simp: driver_line_def tw eq Let_def split: option.split)
  qed (use b in \<open>simp add: driver_line_def tw\<close>)
  show ?thesis
  proof (cases "wait_sms (md_modem d)")
    case True
    then show ?thesis using l dl sync by (simp add: driver_read_append driver_char_def as_sent_def split: sum.split)
  next
    case False
    have e: "d\<lparr>in_buff := l, in_sms := False\<rparr> = d\<lparr>in_buff := l\<rparr>" using sync False by (intro modem_driver.equality) simp_all
    from dl False have "driver_line h (d\<lparr>in_buff := l\<rparr>) =
      (case amodem_send h (md_modem d) l of
         Inl e \<Rightarrow> Inl e
       | Inr (a, m, es) \<Rightarrow> Inr (d\<lparr>md_modem := m, in_sms := wait_sms m\<rparr>,
           map modem_driver_effect es @ (case a of None \<Rightarrow> [] | Some x \<Rightarrow> [Write x, Write [cr]])))"
      by (simp add: as_sent_def e del: modem_driver.update_convs)
    then show ?thesis using False l sync by (simp add: driver_read_append driver_char_def as_sent_def split: sum.split)
  qed
qed


lemma line_keeps:
  assumes "driver_wf d" "in_buff d = []" "amodem_send h (md_modem d) l = Inr (a, m, es)"
  shows "driver_wf (d\<lparr>md_modem := m, in_sms := wait_sms m\<rparr>)"
  using assms modem_send_wf [OF assms(3)] by (simp add: driver_wf_def)



text \<open>
  Remark (error). The control-Z that closes a message text is stored without looking at the space left: after 1023 characters
  of text it fills the buffer, and the terminating zero is written one byte past its end.
\<close>

theorem driver_text_overflow:
  assumes "in_sms d" "in_buff d = []" "length l + 1 = IN_BUFF_SIZE" "set l \<inter> {cr, lf, ctrl_z} = {}"
  shows "modem_driver_read h d (l @ [ctrl_z]) = Inl Undefined"
proof -
  have "modem_driver_read h d l = Inr (d\<lparr>in_buff := l\<rparr>, [])" using collect [of d l h] assms by simp
  then show ?thesis using assms by (simp add: driver_read_append driver_char_def driver_line_def)
qed

theorem driver_text_overflow_witness:
  "modem_driver_read sample_host \<lparr>in_buff = [], in_sms = True, md_modem = new_modem\<rparr> (replicate 1023 CHR ''0'' @ [ctrl_z]) = Inl Undefined"
  by (rule driver_text_overflow) (simp_all add: IN_BUFF_SIZE_def cr_def lf_def ctrl_z_def)

end
