(* ===== verification/Goldfish_Int.thy ===== *)
theory Goldfish_Int
  imports Goldfish_Base
begin

unbundle bit_operations_syntax

text \<open>
  The goldfish interrupt controller (\<open>hw/goldfish_interrupt.c\<close>), the qemu_irq layer it is wired
  with (\<open>hw/irq.c\<close>) and the CPU's interrupt inputs (\<open>hw/arm_pic.c\<close>).
\<close>

section \<open>The CPU's interrupt inputs\<close>

text \<open>
  \<open>cpu_interrupt\<close> sets and \<open>cpu_reset_interrupt\<close> clears bits of \<open>env->interrupt_request\<close>; that
  word is the part of the CPU state modelled here (waking the CPU thread and unlinking the
  current translation block do not change it).
\<close>

definition CPU_INTERRUPT_HARD :: u32 where "CPU_INTERRUPT_HARD = 0x02"
definition CPU_INTERRUPT_FIQ :: u32 where "CPU_INTERRUPT_FIQ = 0x10"

definition cpu_interrupt :: "u32 \<Rightarrow> u32 \<Rightarrow> u32" where
  "cpu_interrupt req m = req OR m"

definition cpu_reset_interrupt :: "u32 \<Rightarrow> u32 \<Rightarrow> u32" where
  "cpu_reset_interrupt req m = req AND NOT m"

definition ARM_PIC_CPU_IRQ :: int where "ARM_PIC_CPU_IRQ = 0"
definition ARM_PIC_CPU_FIQ :: int where "ARM_PIC_CPU_FIQ = 1"

definition arm_pic_cpu_handler :: "u32 \<Rightarrow> int \<Rightarrow> int \<Rightarrow> u32 outcome" where
  "arm_pic_cpu_handler req irq level =
     (if irq = ARM_PIC_CPU_IRQ then
        Inr (if level \<noteq> 0 then cpu_interrupt req CPU_INTERRUPT_HARD
             else cpu_reset_interrupt req CPU_INTERRUPT_HARD)
      else if irq = ARM_PIC_CPU_FIQ then
        Inr (if level \<noteq> 0 then cpu_interrupt req CPU_INTERRUPT_FIQ
             else cpu_reset_interrupt req CPU_INTERRUPT_FIQ)
      else Inl Cpu_abort)"

section \<open>The controller\<close>

text \<open>
  \<open>struct goldfish_int_state\<close>. \<open>parent_irq\<close> and \<open>parent_fiq\<close> are wired to the CPU's two inputs, so
  the state carries the \<open>interrupt_request\<close> word those inputs drive.
\<close>

record int_state =
  level :: u32
  pending_count :: u32
  irq_enabled :: u32
  fiq_enabled :: u32
  cpu_request :: u32

definition INTERRUPT_STATUS :: u32 where "INTERRUPT_STATUS = 0x00"
definition INTERRUPT_NUMBER :: u32 where "INTERRUPT_NUMBER = 0x04"
definition INTERRUPT_DISABLE_ALL :: u32 where "INTERRUPT_DISABLE_ALL = 0x08"
definition INTERRUPT_DISABLE :: u32 where "INTERRUPT_DISABLE = 0x0c"
definition INTERRUPT_ENABLE :: u32 where "INTERRUPT_ENABLE = 0x10"

lemmas int_regs = INTERRUPT_STATUS_def INTERRUPT_NUMBER_def INTERRUPT_DISABLE_ALL_def
  INTERRUPT_DISABLE_def INTERRUPT_ENABLE_def

definition goldfish_int_update :: "int_state \<Rightarrow> int_state outcome" where
  "goldfish_int_update s =
     (let flags = level s AND irq_enabled s
      in case arm_pic_cpu_handler (cpu_request s) ARM_PIC_CPU_IRQ (if flags \<noteq> 0 then 1 else 0) of
           Inl e \<Rightarrow> Inl e
         | Inr req \<Rightarrow>
             (let flags = level s AND fiq_enabled s
              in case arm_pic_cpu_handler req ARM_PIC_CPU_FIQ (if flags \<noteq> 0 then 1 else 0) of
                   Inl e \<Rightarrow> Inl e
                 | Inr req' \<Rightarrow> Inr (s\<lparr>cpu_request := req'\<rparr>)))"

text \<open>\<open>1U << n\<close>: undefined for a shift outside \<open>0..31\<close>.\<close>

definition int_mask :: "int \<Rightarrow> u32 outcome" where
  "int_mask n = (if 0 \<le> n \<and> n < 32 then Inr (push_bit (nat n) 1) else Inl Undefined)"

definition goldfish_int_set_irq :: "int_state \<Rightarrow> int \<Rightarrow> int \<Rightarrow> int_state outcome" where
  "goldfish_int_set_irq s irq lvl =
     (case int_mask irq of Inl e \<Rightarrow> Inl e
      | Inr m \<Rightarrow>
         (let s = (if lvl \<noteq> 0 then
                     (if level s AND m = 0 then
                        (let s = (if irq_enabled s AND m \<noteq> 0
                                  then s\<lparr>pending_count := pending_count s + 1\<rparr> else s)
                         in s\<lparr>level := level s OR m\<rparr>)
                      else s)
                   else
                     (if level s AND m \<noteq> 0 then
                        (let s = (if irq_enabled s AND m \<noteq> 0
                                  then s\<lparr>pending_count := pending_count s - 1\<rparr> else s)
                         in s\<lparr>level := level s AND NOT m\<rparr>)
                      else s))
          in goldfish_int_update s))"

text \<open>The loop of \<open>INTERRUPT_NUMBER\<close>: the first \<open>i\<close> below 32 whose bit is set, or 0.\<close>

fun int_number :: "u32 \<Rightarrow> nat list \<Rightarrow> u32" where
  "int_number pending [] = 0"
| "int_number pending (i # is) =
     (if pending AND push_bit i 1 \<noteq> 0 then of_nat i else int_number pending is)"

definition goldfish_int_read :: "int_state \<Rightarrow> u32 \<Rightarrow> u32 outcome" where
  "goldfish_int_read s off =
     (if off = INTERRUPT_STATUS then Inr (pending_count s)
      else if off = INTERRUPT_NUMBER then
        (let pending = level s AND irq_enabled s in Inr (int_number pending [0..<32]))
      else Inl Cpu_abort)"

definition goldfish_int_write :: "int_state \<Rightarrow> u32 \<Rightarrow> u32 \<Rightarrow> int_state outcome" where
  "goldfish_int_write s off v =
     (case int_mask (uint v) of Inl e \<Rightarrow> Inl e
      | Inr m \<Rightarrow>
         if off = INTERRUPT_DISABLE_ALL then
           goldfish_int_update (s\<lparr>pending_count := 0, level := 0\<rparr>)
         else if off = INTERRUPT_DISABLE then
           goldfish_int_update
             (if irq_enabled s AND m \<noteq> 0 then
                (let s = (if level s AND m \<noteq> 0
                          then s\<lparr>pending_count := pending_count s - 1\<rparr> else s)
                 in s\<lparr>irq_enabled := irq_enabled s AND NOT m\<rparr>)
              else s)
         else if off = INTERRUPT_ENABLE then
           goldfish_int_update
             (if irq_enabled s AND m = 0 then
                (let s = s\<lparr>irq_enabled := irq_enabled s OR m\<rparr>
                 in if level s AND m \<noteq> 0
                    then s\<lparr>pending_count := pending_count s + 1\<rparr> else s)
              else s)
         else Inl Cpu_abort)"

definition goldfish_interrupt_init :: "u32 \<Rightarrow> int_state" where
  "goldfish_interrupt_init req =
     \<lparr>level = 0, pending_count = 0, irq_enabled = 0, fiq_enabled = 0, cpu_request = req\<rparr>"

section \<open>Invariant\<close>

text \<open>The pending and enabled lines, and their number.\<close>

definition pending_lines :: "int_state \<Rightarrow> nat set" where
  "pending_lines s = {i. bit (level s AND irq_enabled s) i}"

definition int_wf :: "int_state \<Rightarrow> bool" where
  "int_wf s \<longleftrightarrow> unat (pending_count s) = card (pending_lines s) \<and>
     (cpu_request s AND CPU_INTERRUPT_HARD \<noteq> 0 \<longleftrightarrow> pending_lines s \<noteq> {}) \<and>
     (cpu_request s AND CPU_INTERRUPT_FIQ \<noteq> 0 \<longleftrightarrow> level s AND fiq_enabled s \<noteq> 0)"

lemma finite_bits [simp]: "finite {i. bit (w :: 'a::len word) i}"
  by (rule finite_subset [of _ "{..<LENGTH('a)}"]) (auto dest: bit_imp_le_length)

lemma card_bits_le: "card {i. bit (w :: 'a::len word) i} \<le> LENGTH('a)"
proof -
  have "{i. bit w i} \<subseteq> {..<LENGTH('a)}" by (auto dest: bit_imp_le_length)
  from card_mono [OF _ this] show ?thesis by simp
qed

lemma and_mask_0: "(w AND 2 ^ n = 0) = (\<not> bit (w :: u32) n)"
  by (simp add: and_exp_eq_0_iff_not_bit)

lemma nonzero_bits: "(w = 0) = ({i. bit (w :: 'a::len word) i} = {})"
  by (auto intro!: bit_word_eqI)

lemma int_update_eq:
  "goldfish_int_update s = Inr (s\<lparr>cpu_request :=
     (let req = (if level s AND irq_enabled s \<noteq> 0 then cpu_request s OR CPU_INTERRUPT_HARD
                 else cpu_request s AND NOT CPU_INTERRUPT_HARD)
      in if level s AND fiq_enabled s \<noteq> 0 then req OR CPU_INTERRUPT_FIQ
         else req AND NOT CPU_INTERRUPT_FIQ)\<rparr>)"
  by (simp add: goldfish_int_update_def arm_pic_cpu_handler_def Let_def cpu_interrupt_def
      cpu_reset_interrupt_def ARM_PIC_CPU_IRQ_def ARM_PIC_CPU_FIQ_def)

text \<open>The update makes the CPU's inputs agree with the state, whatever they were before.\<close>

lemma int_update_wf:
  assumes "unat (pending_count s) = card (pending_lines s)"
  obtains s' where "goldfish_int_update s = Inr s'" "int_wf s'"
    "level s' = level s" "irq_enabled s' = irq_enabled s" "fiq_enabled s' = fiq_enabled s"
proof -
  have hard: "(w OR 2) AND 2 \<noteq> 0" "(w AND NOT 2) AND 2 = 0"
    "(w OR 16) AND 16 \<noteq> 0" "(w AND NOT 16) AND 16 = 0"
    "(w OR 16) AND 2 = w AND 2" "(w AND NOT 16) AND 2 = w AND 2" for w :: u32
  proof -
    have "bit ((w OR 2) AND 2) 1" "bit ((w OR 16) AND 16) 4"
      by (simp_all add: bit_simps)
    then show "(w OR 2) AND 2 \<noteq> 0" "(w OR 16) AND 16 \<noteq> 0" by (metis bit_0_eq bot_apply bot_bool_def)+
    show "(w AND NOT 2) AND 2 = 0" "(w AND NOT 16) AND 16 = 0"
      by (simp_all add: and.assoc)
    show "(w OR 16) AND 2 = w AND 2" "(w AND NOT 16) AND 2 = w AND 2"
      by (simp_all add: and.assoc bit.conj_disj_distrib2)
  qed
  show thesis
    by (rule that [OF int_update_eq])
      (use assms hard in \<open>simp_all add: int_wf_def pending_lines_def Let_def CPU_INTERRUPT_HARD_def
        CPU_INTERRUPT_FIQ_def nonzero_bits [symmetric] del: Collect_empty_eq\<close>)
qed

text \<open>Raising or lowering one bit of one operand moves one line in or out of the pending set.\<close>

lemma bits_or_and:
  assumes "n < 32" and "\<not> bit L n"
  shows "{i. bit ((L OR 2 ^ n) AND E) i} =
      (if bit E n then insert n {i. bit (L AND E) i} else {i. bit (L AND (E :: u32)) i})"
  using assms by (auto simp: bit_simps bit_exp_iff)

lemma bits_clear_and:
  assumes "bit L n"
  shows "{i. bit ((L AND NOT (2 ^ n)) AND E) i} = {i. bit (L AND (E :: u32)) i} - {n}"
  using assms by (auto simp: bit_simps bit_exp_iff dest: bit_imp_le_length)

lemma unat_plus1_bits:
  assumes "unat c = card {i. bit (w :: u32) i}"
  shows "unat (c + 1 :: u32) = Suc (card {i. bit w i})"
proof -
  have "unat c \<le> 32" using assms card_bits_le [of w] by simp
  then show ?thesis using assms by (simp add: unat_word_ariths)
qed

lemma unat_minus1:
  assumes "unat (c :: u32) = Suc k"
  shows "unat (c - 1) = k"
proof -
  have "1 \<le> c" using assms by (simp add: word_le_nat_alt)
  then show ?thesis using assms by (simp add: unat_sub)
qed

lemma card_bits_insert: "\<not> bit w n \<Longrightarrow> card (insert n {i. bit (w :: u32) i}) = Suc (card {i. bit w i})"
  by simp

lemma card_bits_remove:
  assumes "bit (w :: u32) n"
  shows "card {i. bit w i} = Suc (card ({i. bit w i} - {n}))"
  using card_Suc_Diff1 [of "{i. bit w i}" n] assms by simp

lemma count_set:
  assumes "n < 32" and "\<not> bit A n" and c: "unat (c :: u32) = card {i. bit (A AND B) i}"
  shows "unat (if bit B n then c + 1 else c) = card {i. bit ((A OR 2 ^ n) AND (B :: u32)) i}"
proof -
  have "\<not> bit (A AND B) n" using assms(2) by (simp add: bit_and_iff)
  then show ?thesis using assms(1,2) c unat_plus1_bits [OF c] by (simp add: bits_or_and)
qed

lemma count_clear:
  assumes "bit A n" and c: "unat (c :: u32) = card {i. bit (A AND B) i}"
  shows "unat (if bit B n then c - 1 else c) = card {i. bit ((A AND NOT (2 ^ n)) AND (B :: u32)) i}"
proof (cases "bit B n")
  case True
  then have "bit (A AND B) n" using assms(1) by (simp add: bit_and_iff)
  from card_bits_remove [OF this] c have "unat (c - 1) = card ({i. bit (A AND B) i} - {n})"
    by (simp only: unat_minus1)
  then show ?thesis using True assms(1) by (simp only: bits_clear_and if_True)
next
  case False
  then have "{i. bit (A AND B) i} - {n} = {i. bit (A AND B) i}" by (auto simp: bit_and_iff)
  then show ?thesis using False assms by (simp only: bits_clear_and if_False)
qed

lemma set_irq_wf:
  assumes wf: "int_wf s" and irq: "0 \<le> irq" "irq < 32"
  shows "\<exists>s'. goldfish_int_set_irq s irq lvl = Inr s' \<and> int_wf s' \<and>
    level s' = (if lvl \<noteq> 0 then level s OR 2 ^ nat irq
                else level s AND NOT (2 ^ nat irq)) \<and>
    irq_enabled s' = irq_enabled s \<and> fiq_enabled s' = fiq_enabled s"
proof -
  define n where "n = nat irq"
  have n: "n < 32" using irq by (simp add: n_def)
  have c: "unat (pending_count s) = card {i. bit (level s AND irq_enabled s) i}"
    using wf by (simp add: int_wf_def pending_lines_def)
  define t where "t = (if lvl \<noteq> 0 then
      (if bit (level s) n then s
       else s\<lparr>pending_count := (if bit (irq_enabled s) n then pending_count s + 1 else pending_count s),
              level := level s OR 2 ^ n\<rparr>)
    else (if bit (level s) n
       then s\<lparr>pending_count := (if bit (irq_enabled s) n then pending_count s - 1 else pending_count s),
              level := level s AND NOT (2 ^ n)\<rparr>
       else s))"
  have eq: "goldfish_int_set_irq s irq lvl = goldfish_int_update t"
    using irq by (simp add: goldfish_int_set_irq_def int_mask_def Let_def and_mask_0 t_def n_def)
  have same: "bit (level s) n \<Longrightarrow> level s OR 2 ^ n = level s"
    "\<not> bit (level s) n \<Longrightarrow> level s AND NOT (2 ^ n) = level s"
    by (auto intro!: bit_word_eqI simp: bit_simps bit_exp_iff)
  have t: "level t = (if lvl \<noteq> 0 then level s OR 2 ^ n else level s AND NOT (2 ^ n))"
    "irq_enabled t = irq_enabled s" "fiq_enabled t = fiq_enabled s"
    using same by (auto simp: t_def)
  have "unat (pending_count t) = card (pending_lines t)"
    using c count_set [OF n _ c] count_clear [OF _ c] by (simp add: t_def pending_lines_def)
  from int_update_wf [OF this] obtain s' where "goldfish_int_update t = Inr s'" "int_wf s'"
    "level s' = level t" "irq_enabled s' = irq_enabled t" "fiq_enabled s' = fiq_enabled t" by blast
  then show ?thesis using t by (simp add: eq n_def)
qed

lemma write_enable_wf:
  assumes wf: "int_wf s" and v: "v < 32" and off: "off = INTERRUPT_ENABLE \<or> off = INTERRUPT_DISABLE"
  shows "\<exists>s'. goldfish_int_write s off v = Inr s' \<and> int_wf s' \<and> level s' = level s \<and>
    irq_enabled s' = (if off = INTERRUPT_ENABLE then irq_enabled s OR 2 ^ unat v
                      else irq_enabled s AND NOT (2 ^ unat v)) \<and>
    fiq_enabled s' = fiq_enabled s"
proof -
  define n where "n = unat v"
  have n: "n < 32" "uint v < 32" "nat (uint v) = n"
    using v by (simp add: n_def word_less_nat_alt, simp add: word_less_def, simp add: n_def)
  have c: "unat (pending_count s) = card {i. bit (irq_enabled s AND level s) i}"
    using wf by (simp add: int_wf_def pending_lines_def and.commute)
  define t where "t = (if off = INTERRUPT_ENABLE then
      (if bit (irq_enabled s) n then s
       else s\<lparr>irq_enabled := irq_enabled s OR 2 ^ n,
              pending_count := (if bit (level s) n then pending_count s + 1 else pending_count s)\<rparr>)
    else (if bit (irq_enabled s) n
       then s\<lparr>pending_count := (if bit (level s) n then pending_count s - 1 else pending_count s),
              irq_enabled := irq_enabled s AND NOT (2 ^ n)\<rparr>
       else s))"
  have eq: "goldfish_int_write s off v = goldfish_int_update t"
    using n off by (auto simp: goldfish_int_write_def int_mask_def Let_def and_mask_0 t_def int_regs)
  have same: "bit (irq_enabled s) n \<Longrightarrow> irq_enabled s OR 2 ^ n = irq_enabled s"
    "\<not> bit (irq_enabled s) n \<Longrightarrow> irq_enabled s AND NOT (2 ^ n) = irq_enabled s"
    by (auto intro!: bit_word_eqI simp: bit_simps bit_exp_iff)
  have t: "irq_enabled t = (if off = INTERRUPT_ENABLE then irq_enabled s OR 2 ^ n
      else irq_enabled s AND NOT (2 ^ n))" "level t = level s" "fiq_enabled t = fiq_enabled s"
    using same by (auto simp: t_def)
  have pl: "pending_lines u = {i. bit (irq_enabled u AND level u) i}" for u
    by (simp add: pending_lines_def and.commute)
  have "unat (pending_count t) = card (pending_lines t)"
    using c count_set [OF n(1) _ c] count_clear [OF _ c] by (simp add: t_def pl)
  from int_update_wf [OF this] obtain s' where "goldfish_int_update t = Inr s'" "int_wf s'"
    "level s' = level t" "irq_enabled s' = irq_enabled t" "fiq_enabled s' = fiq_enabled t" by blast
  then show ?thesis using t by (simp add: eq n_def)
qed

lemma write_disable_all_wf:
  assumes "v < 32"
  shows "\<exists>s'. goldfish_int_write s INTERRUPT_DISABLE_ALL v = Inr s' \<and> int_wf s' \<and> level s' = 0 \<and>
    irq_enabled s' = irq_enabled s \<and> fiq_enabled s' = fiq_enabled s"
proof -
  let ?t = "s\<lparr>pending_count := 0, level := 0\<rparr>"
  have "uint v < 32" using assms by (simp add: word_less_def)
  then have eq: "goldfish_int_write s INTERRUPT_DISABLE_ALL v = goldfish_int_update ?t"
    by (simp add: goldfish_int_write_def int_mask_def)
  have "unat (pending_count ?t) = card (pending_lines ?t)" by (simp add: pending_lines_def)
  from int_update_wf [OF this] show ?thesis unfolding eq by auto
qed

section \<open>The controller as a step relation\<close>

text \<open>Everything that can change the controller: a device driving a line, or a guest write.\<close>

inductive int_step :: "int_state \<Rightarrow> int_state \<Rightarrow> bool" where
  drive: "goldfish_int_set_irq s irq lvl = Inr s' \<Longrightarrow> int_step s s'"
| guest_write: "goldfish_int_write s off v = Inr s' \<Longrightarrow> int_step s s'"

inductive int_reachable :: "int_state \<Rightarrow> bool" where
  init: "req AND CPU_INTERRUPT_HARD = 0 \<Longrightarrow> req AND CPU_INTERRUPT_FIQ = 0 \<Longrightarrow>
    int_reachable (goldfish_interrupt_init req)"
| step: "int_reachable s \<Longrightarrow> int_step s s' \<Longrightarrow> int_reachable s'"

inductive_cases int_stepE: "int_step s s'"

lemma set_irq_Inr_range: "goldfish_int_set_irq s irq lvl = Inr s' \<Longrightarrow> 0 \<le> irq \<and> irq < 32"
  by (simp add: goldfish_int_set_irq_def int_mask_def split: if_splits sum.splits)

lemma int_write_Inr:
  "goldfish_int_write s off v = Inr s' \<Longrightarrow>
   v < 32 \<and> (off = INTERRUPT_ENABLE \<or> off = INTERRUPT_DISABLE \<or> off = INTERRUPT_DISABLE_ALL)"
  by (auto simp: goldfish_int_write_def int_mask_def word_less_def split: if_splits sum.splits)

lemma int_step_wf:
  assumes "int_step s s'" and "int_wf s"
  shows "int_wf s' \<and> fiq_enabled s' = fiq_enabled s"
  using assms(1)
proof (cases rule: int_step.cases)
  case (drive irq lvl)
  then show ?thesis using set_irq_wf [OF assms(2), of irq lvl] set_irq_Inr_range [OF drive] by auto
next
  case (guest_write off v)
  then show ?thesis
    using int_write_Inr [OF guest_write] write_enable_wf [OF assms(2)] write_disable_all_wf
    by (metis sum.inject(2))
qed

lemma init_wf:
  "req AND CPU_INTERRUPT_HARD = 0 \<Longrightarrow> req AND CPU_INTERRUPT_FIQ = 0 \<Longrightarrow>
   int_wf (goldfish_interrupt_init req)"
  by (simp add: int_wf_def goldfish_interrupt_init_def pending_lines_def)

lemma int_number_correct:
  assumes "bit w i" and "i \<in> set is"
  shows "\<exists>j. int_number w is = of_nat j \<and> bit w j \<and> j \<in> set is \<and>
    (sorted is \<longrightarrow> (\<forall>k \<in> set is. bit w k \<longrightarrow> j \<le> k))"
  using assms
proof (induction "is")
  case Nil
  then show ?case by simp
next
  case (Cons a as)
  show ?case
  proof (cases "bit w a")
    case True
    then show ?thesis by (intro exI [of _ a]) (auto simp: and_mask_0)
  next
    case False
    then show ?thesis using Cons by (auto simp: and_mask_0)
  qed
qed

section \<open>Properties\<close>

text \<open>
  Property C19 (invariant). In every state the interrupt controller can reach from its
  initialisation by devices driving their lines and by guest register writes, \<open>pending_count\<close> is
  exactly the number of lines that are both asserted and enabled, the CPU's IRQ input is asserted
  exactly when there is such a line, and the FIQ input is never asserted (no register sets
  \<open>fiq_enabled\<close>).
\<close>

theorem goldfish_int_consistent:
  assumes "int_reachable s"
  shows "unat (pending_count s) = card {i. bit (level s) i \<and> bit (irq_enabled s) i} \<and>
    (cpu_request s AND CPU_INTERRUPT_HARD \<noteq> 0 \<longleftrightarrow> (\<exists>i. bit (level s) i \<and> bit (irq_enabled s) i)) \<and>
    cpu_request s AND CPU_INTERRUPT_FIQ = 0"
proof -
  have "int_wf s \<and> fiq_enabled s = 0"
    using assms
  proof induction
    case (init req)
    then show ?case by (simp add: init_wf) (simp add: goldfish_interrupt_init_def)
  next
    case (step s s')
    then show ?case using int_step_wf by metis
  qed
  then show ?thesis by (auto simp: int_wf_def pending_lines_def bit_and_iff)
qed

theorem goldfish_int_consistent_witness:
  "\<exists>s. int_reachable s \<and> level s = 8 \<and>
     unat (pending_count s) = card {i. bit (level s) i \<and> bit (irq_enabled s) i} \<and>
     (cpu_request s AND CPU_INTERRUPT_HARD \<noteq> 0 \<longleftrightarrow> (\<exists>i. bit (level s) i \<and> bit (irq_enabled s) i)) \<and>
     cpu_request s AND CPU_INTERRUPT_FIQ = 0"
proof -
  have "int_wf (goldfish_interrupt_init 0)" by (rule init_wf) simp_all
  from set_irq_wf [OF this, of 3 1] obtain s where
    s: "goldfish_int_set_irq (goldfish_interrupt_init 0) 3 1 = Inr s" "level s = 8"
    by (auto simp: goldfish_interrupt_init_def)
  have "int_reachable s"
    by (rule int_reachable.step [OF int_reachable.init [of 0] int_step.drive [OF s(1)]]) simp_all
  with s(2) goldfish_int_consistent [OF this] show ?thesis by blast
qed

text \<open>
  Remark (functional). Reading \<open>INTERRUPT_NUMBER\<close> in a state with a pending line
  returns the number of the lowest asserted and enabled line.
\<close>

theorem goldfish_int_number_lowest:
  assumes "bit (level s) i" and "bit (irq_enabled s) i"
  shows "\<exists>j. goldfish_int_read s INTERRUPT_NUMBER = Inr (of_nat j) \<and>
    bit (level s) j \<and> bit (irq_enabled s) j \<and> j \<le> i"
proof -
  have "i < 32" using assms(1) by (auto dest: bit_imp_le_length)
  then show ?thesis
    using int_number_correct [of "level s AND irq_enabled s" i "[0..<32]"] assms
    by (auto simp: goldfish_int_read_def int_regs bit_and_iff)
qed

theorem goldfish_int_number_lowest_witness:
  "\<exists>j. goldfish_int_read \<lparr>level = 12, pending_count = 1, irq_enabled = 8, fiq_enabled = 0, cpu_request = 2\<rparr>
      INTERRUPT_NUMBER = Inr (of_nat j) \<and> bit (12 :: u32) j \<and> bit (8 :: u32) j \<and> j \<le> 3"
  using goldfish_int_number_lowest [of "\<lparr>level = 12, pending_count = 1, irq_enabled = 8, fiq_enabled = 0, cpu_request = 2\<rparr>" 3]
  by simp

text \<open>
  Remark (safety). The controller never stops the emulator on the writes its register map
  documents with a line number below 32, and a write whose value is 32 or more shifts out of
  range, whatever the register: the guest controls the shift count of \<open>1U << value\<close>.
\<close>

theorem goldfish_int_write_total:
  assumes "int_wf s"
  shows "(v < 32 \<longrightarrow> off \<in> {INTERRUPT_DISABLE_ALL, INTERRUPT_DISABLE, INTERRUPT_ENABLE} \<longrightarrow>
      (\<exists>s'. goldfish_int_write s off v = Inr s' \<and> int_wf s')) \<and>
    (\<not> v < 32 \<longrightarrow> goldfish_int_write s off v = Inl Undefined)"
proof (intro conjI impI)
  assume "v < 32" and "off \<in> {INTERRUPT_DISABLE_ALL, INTERRUPT_DISABLE, INTERRUPT_ENABLE}"
  then show "\<exists>s'. goldfish_int_write s off v = Inr s' \<and> int_wf s'"
    using write_enable_wf [OF assms] write_disable_all_wf by blast
next
  assume "\<not> v < 32"
  then show "goldfish_int_write s off v = Inl Undefined"
    by (simp add: goldfish_int_write_def int_mask_def word_less_def)
qed

theorem goldfish_int_write_total_witness:
  "(\<exists>s'. goldfish_int_write (goldfish_interrupt_init 0) INTERRUPT_ENABLE 5 = Inr s' \<and> int_wf s') \<and>
   goldfish_int_write (goldfish_interrupt_init 0) INTERRUPT_ENABLE 32 = Inl Undefined"
proof -
  have wf: "int_wf (goldfish_interrupt_init 0)" by (rule init_wf) simp_all
  show ?thesis using goldfish_int_write_total [OF wf, of 5 INTERRUPT_ENABLE]
      goldfish_int_write_total [OF wf, of 32 INTERRUPT_ENABLE] by simp
qed

end
