(* ===== verification/Goldfish_Bus.thy ===== *)
theory Goldfish_Bus
  imports Goldfish_Int
begin

unbundle bit_operations_syntax

text \<open>
  The goldfish device list and device bus (\<open>hw/goldfish_device.c\<close>): registering devices, driving
  a device's interrupt line, and the enumeration protocol by which the guest kernel discovers
  the devices.
\<close>

section \<open>Device list\<close>

text \<open>
  The globals of \<open>goldfish_device.c\<close>. \<open>devices\<close> is the list from \<open>first_device\<close> to \<open>last_device\<close>
  along \<open>next\<close>; \<open>current\<close>, the bus's cursor, is a position in it, \<open>None\<close> for \<open>NULL\<close>.
\<close>

record bus_state =
  devices :: "goldfish_device list"
  free_base :: u32
  free_irq :: u32
  current :: "nat option"

definition goldfish_device_init :: "u32 \<Rightarrow> u32 \<Rightarrow> bus_state" where
  "goldfish_device_init base irq =
     \<lparr>devices = [], free_base = base, free_irq = irq, current = None\<rparr>"

text \<open>
  \<open>goldfish_pic\<close> is the array of the controller's 32 lines, so driving \<open>goldfish_pic[k]\<close> calls
  \<open>goldfish_int_set_irq\<close> with line \<open>k\<close>.
\<close>

definition goldfish_device_set_irq ::
  "goldfish_device \<Rightarrow> int \<Rightarrow> int \<Rightarrow> int_state \<Rightarrow> int_state outcome" where
  "goldfish_device_set_irq dev irq lvl pic =
     (if (word_of_int irq :: u32) \<ge> irq_count dev then Inl Cpu_abort
      else if dev_irq dev + word_of_int irq \<ge> 32 then Inl Undefined
      else goldfish_int_set_irq pic (uint (dev_irq dev + word_of_int irq)) lvl)"

definition assign_base :: "bus_state \<Rightarrow> goldfish_device \<Rightarrow> goldfish_device \<times> bus_state" where
  "assign_base s dev =
     (if dev_base dev = 0
      then (dev\<lparr>dev_base := free_base s\<rparr>, s\<lparr>free_base := free_base s + dev_size dev\<rparr>)
      else (dev, s))"

definition assign_irq :: "bus_state \<Rightarrow> goldfish_device \<Rightarrow> goldfish_device \<times> bus_state" where
  "assign_irq s dev =
     (if dev_irq dev = 0 \<and> irq_count dev > 0
      then (dev\<lparr>dev_irq := free_irq s\<rparr>, s\<lparr>free_irq := free_irq s + irq_count dev\<rparr>)
      else (dev, s))"

definition goldfish_add_device_no_io :: "bus_state \<Rightarrow> goldfish_device \<Rightarrow> bus_state" where
  "goldfish_add_device_no_io s dev =
     (let (dev, s) = assign_base s dev;
          (dev, s) = assign_irq s dev
      in s\<lparr>devices := devices s @ [dev]\<rparr>)"

section \<open>Bus registers\<close>

definition PDEV_BUS_OP_DONE :: u32 where "PDEV_BUS_OP_DONE = 0x00"
definition PDEV_BUS_OP_ADD_DEV :: u32 where "PDEV_BUS_OP_ADD_DEV = 0x08"
definition PDEV_BUS_OP_INIT :: u32 where "PDEV_BUS_OP_INIT = 0x00"
definition PDEV_BUS_OP :: u32 where "PDEV_BUS_OP = 0x00"
definition PDEV_BUS_GET_NAME :: u32 where "PDEV_BUS_GET_NAME = 0x04"
definition PDEV_BUS_NAME_LEN :: u32 where "PDEV_BUS_NAME_LEN = 0x08"
definition PDEV_BUS_ID :: u32 where "PDEV_BUS_ID = 0x0c"
definition PDEV_BUS_IO_BASE :: u32 where "PDEV_BUS_IO_BASE = 0x10"
definition PDEV_BUS_IO_SIZE :: u32 where "PDEV_BUS_IO_SIZE = 0x14"
definition PDEV_BUS_IRQ :: u32 where "PDEV_BUS_IRQ = 0x18"
definition PDEV_BUS_IRQ_COUNT :: u32 where "PDEV_BUS_IRQ_COUNT = 0x1c"

lemmas bus_regs = PDEV_BUS_OP_DONE_def PDEV_BUS_OP_ADD_DEV_def PDEV_BUS_OP_INIT_def
  PDEV_BUS_OP_def PDEV_BUS_GET_NAME_def PDEV_BUS_NAME_LEN_def PDEV_BUS_ID_def
  PDEV_BUS_IO_BASE_def PDEV_BUS_IO_SIZE_def PDEV_BUS_IRQ_def PDEV_BUS_IRQ_COUNT_def

text \<open>The next position along the list, \<open>NULL\<close> past its end.\<close>

definition next_dev :: "goldfish_device list \<Rightarrow> nat \<Rightarrow> nat option" where
  "next_dev ds i = (if i < length ds then Some i else None)"

text \<open>\<open>while(s->current && s->current->reported_state == 1) s->current = s->current->next\<close>\<close>

function skip_reported :: "goldfish_device list \<Rightarrow> nat option \<Rightarrow> nat option" where
  "skip_reported ds None = None"
| "skip_reported ds (Some i) =
     (if i < length ds \<and> reported_state (ds ! i) = 1
      then skip_reported ds (next_dev ds (Suc i)) else Some i)"
  by pat_completeness auto
termination
  by (relation "measure (\<lambda>(ds, c). case c of None \<Rightarrow> 0 | Some i \<Rightarrow> Suc (length ds) - i)")
    (auto simp: next_dev_def)

declare skip_reported.simps(2) [simp del]

definition current_field :: "bus_state \<Rightarrow> (goldfish_device \<Rightarrow> u32) \<Rightarrow> u32 outcome" where
  "current_field s f =
     (case current s of None \<Rightarrow> Inr 0
      | Some i \<Rightarrow> if i < length (devices s) then Inr (f (devices s ! i)) else Inl Undefined)"

definition bus_op_read :: "bus_state \<Rightarrow> bus_state" where
  "bus_op_read s =
     (let s = (case current s of
                 Some i \<Rightarrow> s\<lparr>devices := (devices s)[i := (devices s ! i)\<lparr>reported_state := 1\<rparr>],
                             current := next_dev (devices s) (Suc i)\<rparr>
               | None \<Rightarrow> s\<lparr>current := next_dev (devices s) 0\<rparr>)
      in s\<lparr>current := skip_reported (devices s) (current s)\<rparr>)"

definition goldfish_bus_read :: "bus_state \<Rightarrow> u32 \<Rightarrow> (u32 \<times> bus_state \<times> effect list) outcome" where
  "goldfish_bus_read s off =
     (if off = PDEV_BUS_OP then
        (if (case current s of Some i \<Rightarrow> i \<ge> length (devices s) | None \<Rightarrow> False) then Inl Undefined
         else
           (let s = bus_op_read s
            in if current s \<noteq> None then Inr (PDEV_BUS_OP_ADD_DEV, s, [])
               else Inr (PDEV_BUS_OP_DONE, s, [Set_irq 0 0])))
      else
        map_sum id (\<lambda>v. (v, s, []))
         (if off = PDEV_BUS_NAME_LEN then current_field s (\<lambda>d. of_nat (length (dev_name d)))
          else if off = PDEV_BUS_ID then current_field s dev_id
          else if off = PDEV_BUS_IO_BASE then current_field s dev_base
          else if off = PDEV_BUS_IO_SIZE then current_field s dev_size
          else if off = PDEV_BUS_IRQ then current_field s dev_irq
          else if off = PDEV_BUS_IRQ_COUNT then current_field s irq_count
          else Inl Cpu_abort))"

definition goldfish_bus_op_init :: "bus_state \<Rightarrow> bus_state \<times> effect list" where
  "goldfish_bus_op_init s =
     (s\<lparr>devices := map (\<lambda>d. d\<lparr>reported_state := 0\<rparr>) (devices s), current := None\<rparr>,
      [Set_irq 0 (if devices s \<noteq> [] then 1 else 0)])"

definition goldfish_bus_write :: "bus_state \<Rightarrow> u32 \<Rightarrow> u32 \<Rightarrow> (bus_state \<times> effect list) outcome" where
  "goldfish_bus_write s off v =
     (if off = PDEV_BUS_OP then
        (if v = PDEV_BUS_OP_INIT then Inr (goldfish_bus_op_init s) else Inl Cpu_abort)
      else if off = PDEV_BUS_GET_NAME then
        (case current s of
           None \<Rightarrow> Inr (s, [])
         | Some i \<Rightarrow> if i < length (devices s)
             then Inr (s, [Mem_write v (map of_char (dev_name (devices s ! i)))])
             else Inl Undefined)
      else Inl Cpu_abort)"

section \<open>Enumeration\<close>

definition bus_inv :: "bus_state \<Rightarrow> bool" where
  "bus_inv s \<longleftrightarrow> (\<forall>i. current s = Some i \<longrightarrow>
     i < length (devices s) \<and> (\<forall>j < i. reported_state (devices s ! j) = 1))"

definition bus_wants :: "bus_state \<Rightarrow> bool" where
  "bus_wants s \<longleftrightarrow> (\<exists>d \<in> set (devices s). reported_state d \<noteq> 1)"

lemma skip_reported_None:
  "skip_reported ds (next_dev ds i) = None \<longleftrightarrow> (\<forall>j. i \<le> j \<and> j < length ds \<longrightarrow> reported_state (ds ! j) = 1)"
proof (induction "length ds - i" arbitrary: i)
  case 0
  then show ?case by (auto simp: next_dev_def)
next
  case (Suc n)
  then have IH: "skip_reported ds (next_dev ds (Suc i)) = None \<longleftrightarrow>
      (\<forall>j. Suc i \<le> j \<and> j < length ds \<longrightarrow> reported_state (ds ! j) = 1)" and "i < length ds"
    by (auto intro: Suc.hyps(1))
  have split: "(\<forall>j. i \<le> j \<and> j < length ds \<longrightarrow> P j) \<longleftrightarrow>
      P i \<and> (\<forall>j. Suc i \<le> j \<and> j < length ds \<longrightarrow> P j)" for P
    using \<open>i < length ds\<close> by (metis Suc_le_eq le_neq_implies_less order_refl less_imp_le)
  show ?case unfolding split using IH \<open>i < length ds\<close>
    by (simp add: next_dev_def [of ds i] skip_reported.simps(2) [of ds i])
qed

lemma skip_reported_Some:
  "skip_reported ds (next_dev ds i) = Some k \<Longrightarrow>
   i \<le> k \<and> k < length ds \<and> reported_state (ds ! k) \<noteq> 1 \<and>
   (\<forall>j. i \<le> j \<and> j < k \<longrightarrow> reported_state (ds ! j) = 1)"
proof (induction "length ds - i" arbitrary: i)
  case 0
  then show ?case by (auto simp: next_dev_def)
next
  case (Suc n)
  then have i: "i < length ds" by simp
  show ?case
  proof (cases "reported_state (ds ! i) = 1")
    case True
    then have "skip_reported ds (next_dev ds (Suc i)) = Some k"
      using Suc.prems i by (simp add: next_dev_def [of ds i] skip_reported.simps(2) [of ds i])
    with Suc.hyps(1) [of "Suc i"] Suc.hyps(2) True show ?thesis
      by (metis Suc_diff_Suc Suc_leD diff_Suc_1 i le_neq_implies_less Suc_leI)
  next
    case False
    then show ?thesis using Suc.prems i
      by (auto simp: next_dev_def skip_reported.simps(2) [of ds i])
  qed
qed

lemma bus_op_read_devices:
  assumes "bus_inv s"
  shows "devices (bus_op_read s) = (case current s of None \<Rightarrow> devices s
    | Some i \<Rightarrow> (devices s)[i := (devices s ! i)\<lparr>reported_state := 1\<rparr>])"
  by (simp add: bus_op_read_def Let_def split: option.splits)

lemma bus_op_read_current:
  "current (bus_op_read s) = skip_reported (devices (bus_op_read s))
     (next_dev (devices (bus_op_read s)) (case current s of None \<Rightarrow> 0 | Some i \<Rightarrow> Suc i))"
  by (simp add: bus_op_read_def Let_def next_dev_def split: option.splits)

text \<open>Everything before the position the cursor moves on from has been reported.\<close>

lemma bus_op_read_before:
  assumes inv: "bus_inv s" and j: "j < (case current s of None \<Rightarrow> 0 | Some i \<Rightarrow> Suc i)"
  shows "reported_state (devices (bus_op_read s) ! j) = 1"
  using assms by (auto simp: bus_op_read_devices bus_inv_def nth_list_update split: option.splits)

lemma bus_op_read_inv:
  assumes inv: "bus_inv s"
  shows "bus_inv (bus_op_read s)"
  unfolding bus_inv_def [of "bus_op_read s"]
proof (intro allI impI)
  fix k assume "current (bus_op_read s) = Some k"
  note * = skip_reported_Some [OF this [unfolded bus_op_read_current]]
  show "k < length (devices (bus_op_read s)) \<and>
      (\<forall>j<k. reported_state (devices (bus_op_read s) ! j) = 1)"
    using * bus_op_read_before [OF inv] by (metis not_le)
qed

lemma bus_op_read_wants:
  assumes inv: "bus_inv s"
  shows "bus_wants (bus_op_read s) \<longleftrightarrow> current (bus_op_read s) \<noteq> None"
proof (cases "current (bus_op_read s)")
  case None
  then have "\<forall>j < length (devices (bus_op_read s)). reported_state (devices (bus_op_read s) ! j) = 1"
    using bus_op_read_before [OF inv] by (subst (asm) bus_op_read_current)
      (metis not_le skip_reported_None)
  then show ?thesis using None by (auto simp: bus_wants_def in_set_conv_nth)
next
  case (Some k)
  then show ?thesis using skip_reported_Some [OF Some [unfolded bus_op_read_current]]
    by (auto simp: bus_wants_def)
qed

lemma bus_op_read_keeps_wants:
  assumes inv: "bus_inv s" and "\<not> bus_wants s"
  shows "\<not> bus_wants (bus_op_read s)"
  using assms by (auto simp: bus_wants_def bus_op_read_devices bus_inv_def
      dest!: set_update_subset_insert [THEN subsetD] split: option.splits)

text \<open>What the guest can do to the bus.\<close>

datatype mmio = Mmio_read u32 | Mmio_write u32 u32

fun bus_step :: "bus_state \<Rightarrow> mmio \<Rightarrow> (bus_state \<times> effect list) outcome" where
  "bus_step s (Mmio_read off) = map_sum id (\<lambda>(v, s, es). (s, es)) (goldfish_bus_read s off)"
| "bus_step s (Mmio_write off v) = goldfish_bus_write s off v"

lemma bus_read_cases:
  assumes "goldfish_bus_read s off = Inr (v, s', es)"
  obtains (op) "off = PDEV_BUS_OP" "s' = bus_op_read s"
      "v = (if current s' \<noteq> None then PDEV_BUS_OP_ADD_DEV else PDEV_BUS_OP_DONE)"
      "es = (if current s' \<noteq> None then [] else [Set_irq 0 0])"
    | (info) "s' = s" "es = []"
  using assms
  by (auto simp: goldfish_bus_read_def Let_def current_field_def map_sum_def
      split: if_splits sum.splits option.splits)

lemma bus_step_ok:
  assumes inv: "bus_inv s" and st: "bus_step s x = Inr (s', es)"
  shows "bus_inv s' \<and> line_after (bus_wants s) es = bus_wants s'"
proof (cases x)
    case (Mmio_read off)
    then obtain v where "goldfish_bus_read s off = Inr (v, s', es)"
      using st by (auto simp: map_sum_def split: sum.splits)
    then show ?thesis
      using inv bus_op_read_inv [OF inv] bus_op_read_wants [OF inv] bus_op_read_keeps_wants [OF inv]
      by (cases rule: bus_read_cases) (auto split: if_splits)
  next
    case (Mmio_write off v)
    then show ?thesis using st inv
      by (auto simp: goldfish_bus_write_def goldfish_bus_op_init_def bus_inv_def bus_wants_def
          ex_in_conv split: if_splits option.splits)
qed

interpretation bus_line: level_device bus_inv bus_wants bus_step
  by unfold_locales (use bus_step_ok in blast)+

section \<open>Properties\<close>

text \<open>\<open>n\<close> reads of \<open>PDEV_BUS_OP\<close>: each result with the device the cursor then stands on.\<close>

fun bus_scan :: "nat \<Rightarrow> bus_state \<Rightarrow> (u32 \<times> nat option) list" where
  "bus_scan 0 s = []"
| "bus_scan (Suc n) s =
     (case goldfish_bus_read s PDEV_BUS_OP of
        Inl e \<Rightarrow> []
      | Inr (v, s', es) \<Rightarrow> (v, current s') # bus_scan n s')"

lemma bus_read_op:
  assumes "bus_inv s"
  shows "goldfish_bus_read s PDEV_BUS_OP =
    Inr (if current (bus_op_read s) \<noteq> None then PDEV_BUS_OP_ADD_DEV else PDEV_BUS_OP_DONE,
         bus_op_read s, if current (bus_op_read s) \<noteq> None then [] else [Set_irq 0 0])"
  using assms by (auto simp: goldfish_bus_read_def Let_def bus_inv_def split: option.splits)

text \<open>From a cursor at \<open>k - 1\<close> with everything later unreported, the next read moves it to \<open>k\<close>.\<close>

definition scanned :: "bus_state \<Rightarrow> nat \<Rightarrow> bool" where
  "scanned s k \<longleftrightarrow> bus_inv s \<and> (case current s of None \<Rightarrow> k = 0 | Some i \<Rightarrow> k = Suc i) \<and>
     (\<forall>j. k \<le> j \<and> j < length (devices s) \<longrightarrow> reported_state (devices s ! j) \<noteq> 1)"

lemma scanned_step:
  assumes "scanned s k"
  shows "current (bus_op_read s) = next_dev (devices s) k" "length (devices (bus_op_read s)) = length (devices s)"
    "k < length (devices s) \<Longrightarrow> scanned (bus_op_read s) (Suc k)"
proof -
  have inv: "bus_inv s" and k: "(case current s of None \<Rightarrow> 0 | Some i \<Rightarrow> Suc i) = k"
    and late: "\<And>j. k \<le> j \<Longrightarrow> j < length (devices s) \<Longrightarrow> reported_state (devices s ! j) \<noteq> 1"
    using assms by (auto simp: scanned_def split: option.splits)
  show len: "length (devices (bus_op_read s)) = length (devices s)"
    by (simp add: bus_op_read_devices [OF inv] split: option.splits)
  have same: "devices (bus_op_read s) ! j = devices s ! j" if "k \<le> j" for j
    using that k by (auto simp: bus_op_read_devices [OF inv] split: option.splits)
  show cur: "current (bus_op_read s) = next_dev (devices s) k"
    by (subst bus_op_read_current)
      (simp add: k same late len next_dev_def skip_reported.simps(2))
  show "scanned (bus_op_read s) (Suc k)" if "k < length (devices s)"
    using that cur bus_op_read_inv [OF inv] late same len by (simp add: scanned_def next_dev_def)
qed

lemma bus_scan_from:
  "scanned s k \<Longrightarrow> k \<le> length (devices s) \<Longrightarrow>
   bus_scan (Suc (length (devices s) - k)) s =
     map (\<lambda>i. (PDEV_BUS_OP_ADD_DEV, Some i)) [k..<length (devices s)] @ [(PDEV_BUS_OP_DONE, None)]"
proof (induction "length (devices s) - k" arbitrary: s k)
  case 0
  then show ?case using scanned_step [OF 0(2)] bus_read_op [of s]
    by (auto simp: scanned_def next_dev_def)
next
  case (Suc n)
  then have k: "k < length (devices s)" by simp
  note st = scanned_step [OF Suc.prems(1)]
  have eq: "Suc (length (devices s) - Suc k) = length (devices s) - k" using k by simp
  have "bus_scan (Suc (length (devices s) - Suc k)) (bus_op_read s) =
     map (\<lambda>i. (PDEV_BUS_OP_ADD_DEV, Some i)) [Suc k..<length (devices s)] @ [(PDEV_BUS_OP_DONE, None)]"
    using Suc.hyps(1) [of "bus_op_read s" "Suc k"] Suc.hyps(2) st k by simp
  then show ?case
    using k st(1) bus_read_op [of s] Suc.prems(1) unfolding eq
    by (simp add: scanned_def next_dev_def upt_conv_Cons)
qed

text \<open>
  Property C20 (liveness). The guest's discovery protocol terminates and finds every device: after
  the guest writes \<open>PDEV_BUS_OP_INIT\<close>, its reads of \<open>PDEV_BUS_OP\<close> report \<open>ADD_DEV\<close> for each
  registered device once, in registration order, and then \<open>DONE\<close>.
\<close>

theorem bus_enumerates_all:
  assumes "goldfish_bus_write s PDEV_BUS_OP PDEV_BUS_OP_INIT = Inr (s', es)"
  shows "bus_scan (Suc (length (devices s))) s' =
    map (\<lambda>i. (PDEV_BUS_OP_ADD_DEV, Some i)) [0..<length (devices s)] @ [(PDEV_BUS_OP_DONE, None)]"
proof -
  have s': "s' = fst (goldfish_bus_op_init s)" using assms by (auto simp: goldfish_bus_write_def)
  have "scanned s' 0" by (auto simp: s' scanned_def bus_inv_def goldfish_bus_op_init_def)
  from bus_scan_from [OF this] show ?thesis by (simp add: s' goldfish_bus_op_init_def)
qed

definition test_dev :: "string \<Rightarrow> goldfish_device" where
  "test_dev n = \<lparr>reported_state = 1, dev_name = n, dev_id = 0, dev_base = 0, dev_size = 0x1000,
     dev_irq = 0, irq_count = 1\<rparr>"

theorem bus_enumerates_all_witness:
  "\<exists>s' es. goldfish_bus_write (goldfish_add_device_no_io (goldfish_device_init 0x10 1) (test_dev ''a''))
      PDEV_BUS_OP PDEV_BUS_OP_INIT = Inr (s', es) \<and>
    bus_scan 2 s' = [(PDEV_BUS_OP_ADD_DEV, Some 0), (PDEV_BUS_OP_DONE, None)]"
proof -
  define s where "s = goldfish_add_device_no_io (goldfish_device_init 0x10 1) (test_dev ''a'')"
  obtain s' es where w: "goldfish_bus_write s PDEV_BUS_OP PDEV_BUS_OP_INIT = Inr (s', es)"
    by (simp add: goldfish_bus_write_def goldfish_bus_op_init_def)
  have len: "length (devices s) = 1"
    by (simp add: s_def goldfish_add_device_no_io_def assign_base_def assign_irq_def
        goldfish_device_init_def test_dev_def)
  show ?thesis using w bus_enumerates_all [OF w] unfolding s_def [symmetric] len
    by (simp add: numeral_2_eq_2 upt_rec)
qed

text \<open>
  Remark (invariant). Once the guest has initialised the bus, the bus's interrupt line is high
  exactly while some device has not been reported, after any sequence of guest register accesses.
\<close>

theorem bus_irq_in_step:
  assumes "goldfish_bus_write s PDEV_BUS_OP PDEV_BUS_OP_INIT = Inr (s1, es)"
    and "device_run bus_step s1 (line_after l es) xs = Inr (s', l')"
  shows "l' \<longleftrightarrow> (\<exists>d \<in> set (devices s'). reported_state d \<noteq> 1)"
proof -
  have s1: "s1 = fst (goldfish_bus_op_init s)" "es = snd (goldfish_bus_op_init s)"
    using assms(1) by (auto simp: goldfish_bus_write_def)
  have "bus_inv s1" "line_after l es = bus_wants s1"
    by (auto simp: s1 bus_inv_def bus_wants_def goldfish_bus_op_init_def ex_in_conv)
  then show ?thesis using bus_line.run_line [of s1 xs s' l'] assms(2) by (simp add: bus_wants_def)
qed

theorem bus_irq_in_step_witness:
  "\<exists>s1 es s' l'. goldfish_bus_write (goldfish_device_init 0x10 1) PDEV_BUS_OP PDEV_BUS_OP_INIT = Inr (s1, es) \<and>
     device_run bus_step s1 (line_after True es) [Mmio_read PDEV_BUS_OP] = Inr (s', l') \<and>
     (l' \<longleftrightarrow> (\<exists>d \<in> set (devices s'). reported_state d \<noteq> 1))"
proof -
  obtain s1 es where w: "goldfish_bus_write (goldfish_device_init 0x10 1) PDEV_BUS_OP PDEV_BUS_OP_INIT = Inr (s1, es)"
    by (simp add: goldfish_bus_write_def goldfish_bus_op_init_def)
  then have "bus_inv s1"
    by (auto simp: goldfish_bus_write_def goldfish_bus_op_init_def bus_inv_def)
  then obtain s' l' where r: "device_run bus_step s1 (line_after True es) [Mmio_read PDEV_BUS_OP] = Inr (s', l')"
    by (simp add: bus_read_op)
  show ?thesis using w r bus_irq_in_step [OF w r] by blast
qed

text \<open>What dynamic allocation has handed out so far ends at or below the free marks.\<close>

abbreviation add_devices :: "bus_state \<Rightarrow> goldfish_device list \<Rightarrow> bus_state" where
  "add_devices \<equiv> foldl goldfish_add_device_no_io"

definition dynamic :: "goldfish_device \<Rightarrow> bool" where
  "dynamic d \<longleftrightarrow> dev_base d = 0 \<and> dev_irq d = 0 \<and> irq_count d > 0"

lemma add_dynamic:
  assumes "dynamic d"
  shows "goldfish_add_device_no_io s d = s\<lparr>free_base := free_base s + dev_size d,
     free_irq := free_irq s + irq_count d,
     devices := devices s @ [d\<lparr>dev_base := free_base s, dev_irq := free_irq s\<rparr>]\<rparr>"
  using assms by (simp add: goldfish_add_device_no_io_def assign_base_def assign_irq_def dynamic_def)

lemma unat_add_le: "unat a + unat b < 2 ^ 32 \<Longrightarrow> unat (a + b :: u32) = unat a + unat b"
  by (simp add: unat_word_ariths)

lemma add_devices_marks:
  assumes "list_all dynamic ds"
    and "unat b + sum_list (map (\<lambda>d. unat (dev_size d)) ds) < 2 ^ 32"
    and "unat i + sum_list (map (\<lambda>d. unat (irq_count d)) ds) < 2 ^ 32"
  defines "s \<equiv> add_devices (goldfish_device_init b i) ds"
  shows "unat (free_base s) = unat b + sum_list (map (\<lambda>d. unat (dev_size d)) ds) \<and>
    unat (free_irq s) = unat i + sum_list (map (\<lambda>d. unat (irq_count d)) ds) \<and>
    (\<forall>d \<in> set (devices s). unat (dev_base d) + unat (dev_size d) \<le> unat (free_base s) \<and>
       unat (dev_irq d) + unat (irq_count d) \<le> unat (free_irq s)) \<and>
    sorted_wrt (\<lambda>d e. unat (dev_base d) + unat (dev_size d) \<le> unat (dev_base e) \<and>
       unat (dev_irq d) + unat (irq_count d) \<le> unat (dev_irq e)) (devices s)"
  using assms(1-3) unfolding s_def
proof (induction ds rule: rev_induct)
  case Nil
  then show ?case by (simp add: goldfish_device_init_def)
next
  case (snoc d ds)
  let ?s = "add_devices (goldfish_device_init b i) ds"
  have pre: "list_all dynamic ds" "unat b + sum_list (map (\<lambda>d. unat (dev_size d)) ds) < 2 ^ 32"
    "unat i + sum_list (map (\<lambda>d. unat (irq_count d)) ds) < 2 ^ 32"
    using snoc.prems by simp_all
  note IH = snoc.IH [OF pre]
  have "unat (free_base ?s + dev_size d) = unat (free_base ?s) + unat (dev_size d)"
    "unat (free_irq ?s + irq_count d) = unat (free_irq ?s) + unat (irq_count d)"
    using IH snoc.prems by (simp_all add: unat_add_le)
  then show ?case using IH snoc.prems by (auto simp: add_dynamic sorted_wrt_append)
qed

text \<open>
  Remark (safety). Devices registered with no base and no interrupt of their own get
  pairwise disjoint register windows and interrupt ranges, in registration order, as long as
  the windows and lines handed out stay below \<open>2 ^ 32\<close>.
\<close>

theorem devices_disjoint:
  assumes "list_all dynamic ds"
    and "unat b + sum_list (map (\<lambda>d. unat (dev_size d)) ds) < 2 ^ 32"
    and "unat i + sum_list (map (\<lambda>d. unat (irq_count d)) ds) < 2 ^ 32"
    and "j < k" and "k < length ds"
  defines "r \<equiv> devices (add_devices (goldfish_device_init b i) ds)"
  shows "unat (dev_base (r ! j)) + unat (dev_size (r ! j)) \<le> unat (dev_base (r ! k)) \<and>
    unat (dev_irq (r ! j)) + unat (irq_count (r ! j)) \<le> unat (dev_irq (r ! k))"
proof -
  have "length (devices (add_devices (goldfish_device_init b i) ds)) = length ds"
    using assms(1) by (induction ds rule: rev_induct) (auto simp: add_dynamic goldfish_device_init_def)
  then show ?thesis
    using add_devices_marks [OF assms(1-3)] assms(4,5) sorted_wrt_nth_less unfolding r_def by fastforce
qed

theorem devices_disjoint_witness:
  "let r = devices (add_devices (goldfish_device_init 0xff010000 10) [test_dev ''a'', test_dev ''b'']) in
    unat (dev_base (r ! 0)) + unat (dev_size (r ! 0)) \<le> unat (dev_base (r ! 1)) \<and>
    unat (dev_irq (r ! 0)) + unat (irq_count (r ! 0)) \<le> unat (dev_irq (r ! 1))"
  using devices_disjoint [of "[test_dev ''a'', test_dev ''b'']" "0xff010000" 10 0 1]
  by (simp add: dynamic_def test_dev_def Let_def)

end
