(* ===== verification/Goldfish_Board.thy ===== *)
theory Goldfish_Board
  imports Goldfish_Bus
begin

unbundle bit_operations_syntax

text \<open>
  A board device wired to the interrupt controller. The handlers of the devices call
  \<open>goldfish_device_set_irq\<close> (\<open>hw/goldfish_device.c\<close>), which drives a line of the controller of
  \<open>hw/goldfish_interrupt.c\<close>, which drives the CPU's interrupt inputs. Here the calls of a handler
  are performed on the controller, in order, and the guest may program the controller between
  any two operations of the device.
\<close>

section \<open>Performing the calls of a handler\<close>

fun deliver :: "goldfish_device \<Rightarrow> effect list \<Rightarrow> int_state \<Rightarrow> int_state outcome" where
  "deliver dev [] pic = Inr pic"
| "deliver dev (Set_irq n v # es) pic =
     (case goldfish_device_set_irq dev n v pic of Inl e \<Rightarrow> Inl e | Inr pic' \<Rightarrow> deliver dev es pic')"
| "deliver dev (_ # es) pic = deliver dev es pic"

text \<open>
  An operation of the board: one of the device, or a write of the guest to a register of the
  controller.
\<close>

datatype 'op board_op = Dev_op 'op | Pic_write u32 u32

fun board_run ::
  "goldfish_device \<Rightarrow> ('s \<Rightarrow> 'op \<Rightarrow> ('s \<times> effect list) outcome) \<Rightarrow> 's \<Rightarrow> int_state \<Rightarrow> 'op board_op list \<Rightarrow>
   ('s \<times> int_state) outcome" where
  "board_run dev step s pic [] = Inr (s, pic)"
| "board_run dev step s pic (Dev_op x # xs) =
     (case step s x of Inl e \<Rightarrow> Inl e
      | Inr (s', es) \<Rightarrow>
          (case deliver dev es pic of Inl e \<Rightarrow> Inl e | Inr pic' \<Rightarrow> board_run dev step s' pic' xs))"
| "board_run dev step s pic (Pic_write off v # xs) =
     (case goldfish_int_write pic off v of Inl e \<Rightarrow> Inl e | Inr pic' \<Rightarrow> board_run dev step s pic' xs)"

text \<open>
  Writing \<open>INTERRUPT_DISABLE_ALL\<close> clears the levels themselves, so the runs below leave it out.
\<close>

fun keeps_levels :: "'op board_op \<Rightarrow> bool" where
  "keeps_levels (Dev_op x) = True"
| "keeps_levels (Pic_write off v) = (off \<noteq> INTERRUPT_DISABLE_ALL)"

section \<open>The controller follows the line\<close>

text \<open>A handler of a device with one line only drives line 0.\<close>

fun single_line :: "effect list \<Rightarrow> bool" where
  "single_line [] = True"
| "single_line (Set_irq n v # es) = (n = 0 \<and> single_line es)"
| "single_line (_ # es) = single_line es"

definition on_line :: "goldfish_device \<Rightarrow> bool" where
  "on_line dev \<longleftrightarrow> irq_count dev = 1 \<and> dev_irq dev < 32"

definition pic_line :: "goldfish_device \<Rightarrow> int_state \<Rightarrow> bool" where
  "pic_line dev pic = bit (level pic) (unat (dev_irq dev))"

lemma device_set_irq_line:
  assumes wf: "int_wf pic" and dev: "on_line dev"
  obtains p where "goldfish_device_set_irq dev 0 v pic = Inr p" "int_wf p"
    "pic_line dev p = (v \<noteq> 0)" "irq_enabled p = irq_enabled pic" "fiq_enabled p = fiq_enabled pic"
proof -
  define k where "k = unat (dev_irq dev)"
  have k: "k < 32" "uint (dev_irq dev) = int k"
    using dev by (simp add: on_line_def k_def word_less_nat_alt, simp add: k_def)
  have bounds: "0 \<le> int k" "int k < 32" using k(1) by simp_all
  from set_irq_wf [OF wf bounds, of v] obtain p where p: "goldfish_int_set_irq pic (int k) v = Inr p" "int_wf p"
    "level p = (if v \<noteq> 0 then level pic OR 2 ^ k else level pic AND NOT (2 ^ k))"
    "irq_enabled p = irq_enabled pic" "fiq_enabled p = fiq_enabled pic"
    unfolding nat_int by blast
  have "goldfish_device_set_irq dev 0 v pic = Inr p"
    using dev p(1) k by (simp add: goldfish_device_set_irq_def on_line_def not_le)
  moreover have "pic_line dev p = (v \<noteq> 0)"
    using p(3) k(1) by (simp add: pic_line_def bit_simps bit_exp_iff flip: k_def)
  ultimately show thesis using p that by blast
qed

lemma deliver_line:
  assumes "int_wf pic" and "on_line dev" and "single_line es"
  shows "\<exists>p. deliver dev es pic = Inr p \<and> int_wf p \<and> pic_line dev p = line_after (pic_line dev pic) es \<and>
    irq_enabled p = irq_enabled pic \<and> fiq_enabled p = fiq_enabled pic"
  using assms
proof (induction dev es pic rule: deliver.induct)
  case (2 dev n v es pic)
  then have n: "n = 0" by simp
  obtain p where p: "goldfish_device_set_irq dev 0 v pic = Inr p" "int_wf p"
    "pic_line dev p = (v \<noteq> 0)" "irq_enabled p = irq_enabled pic" "fiq_enabled p = fiq_enabled pic"
    using device_set_irq_line [OF "2.prems"(1,2)] by metis
  have "\<exists>q. deliver dev es p = Inr q \<and> int_wf q \<and> pic_line dev q = line_after (pic_line dev p) es \<and>
      irq_enabled q = irq_enabled p \<and> fiq_enabled q = fiq_enabled p"
    using "2.IH" [of p] p(1,2) "2.prems" n by simp
  then show ?case using p n by simp
qed auto

text \<open>The guest's writes to the other controller registers keep every level.\<close>

lemma pic_write_line:
  assumes "int_wf pic" and "goldfish_int_write pic off v = Inr p" and "off \<noteq> INTERRUPT_DISABLE_ALL"
  shows "int_wf p \<and> level p = level pic"
proof -
  have off: "off = INTERRUPT_ENABLE \<or> off = INTERRUPT_DISABLE"
    using assms(2,3) by (auto simp: goldfish_int_write_def split: sum.splits if_splits)
  moreover have "v < 32"
    using assms(2) by (auto simp: goldfish_int_write_def int_mask_def word_less_def split: sum.splits if_splits)
  ultimately show ?thesis using write_enable_wf [OF assms(1)] assms(2) by fastforce
qed

text \<open>
  The contract of a level-triggered device with one line, and what it gives on the board: the
  controller's level is what the device wants, and the CPU is interrupted exactly as the
  controller is programmed.
\<close>

locale wired_device = level_device inv wants step
  for inv :: "'s \<Rightarrow> bool" and wants :: "'s \<Rightarrow> bool" and step :: "'s \<Rightarrow> 'op \<Rightarrow> ('s \<times> effect list) outcome" +
  assumes step_single: "inv s \<Longrightarrow> step s x = Inr (s', es) \<Longrightarrow> single_line es"
begin

lemma board_in_step:
  assumes "on_line dev" and "inv s" and "int_wf pic" and "pic_line dev pic = wants s"
    and "list_all keeps_levels xs" and "board_run dev step s pic xs = Inr (s', pic')"
  shows "inv s' \<and> int_wf pic' \<and> pic_line dev pic' = wants s'"
  using assms
proof (induction xs arbitrary: s pic)
  case (Cons x xs)
  show ?case
  proof (cases x)
    case (Dev_op y)
    with Cons.prems obtain s1 es where s1: "step s y = Inr (s1, es)"
      by (auto split: sum.splits)
    from deliver_line [OF Cons.prems(3,1) step_single [OF Cons.prems(2) s1]] obtain p where
      p: "deliver dev es pic = Inr p" "int_wf p" "pic_line dev p = line_after (pic_line dev pic) es"
      by blast
    have "pic_line dev p = wants s1"
      using p(3) Cons.prems(4) step_line [OF Cons.prems(2) s1] by simp
    from Cons.IH [OF Cons.prems(1) step_inv [OF Cons.prems(2) s1] p(2) this]
    show ?thesis using Cons.prems(5,6) Dev_op s1 p(1) by simp
  next
    case (Pic_write off v)
    with Cons.prems obtain p where p: "goldfish_int_write pic off v = Inr p"
      by (auto split: sum.splits)
    have "int_wf p \<and> level p = level pic"
      using pic_write_line [OF Cons.prems(3) p] Cons.prems(5) Pic_write by simp
    then show ?thesis
      using Cons.IH [OF Cons.prems(1,2), of p] Cons.prems(4-6) Pic_write p by (simp add: pic_line_def)
  qed
qed simp

end

end
