(* ===== verification/Savevm.thy ===== *)
theory Savevm
  imports Emu_Prelude
begin

unbundle bit_operations_syntax

text \<open>
  The snapshot stream of \<open>savevm.c\<close>: the buffered file \<open>QEMUFile\<close>, the big-endian integers written
  to it, and the table-driven \<open>qemu_put_struct\<close>/\<open>qemu_get_struct\<close>.

  The backing store behind a \<open>QEMUFile\<close> is reached through its function pointers \<open>put_buffer\<close> and
  \<open>get_buffer\<close>; the operations take them as arguments, and the locales \<open>append_store\<close> and
  \<open>read_store\<close> say what the operations need of them. Both are interpreted on the stdio backend
  (\<open>file_put_buffer\<close>, \<open>file_get_buffer\<close>).
\<close>

section \<open>Buffered files\<close>

definition IO_BUF_SIZE :: int where "IO_BUF_SIZE = 32768"

record 'd qemu_file =
  opaque :: 'd
  is_write :: bool
  buf_offset :: int
  buf_index :: int
  buf_size :: int
  buf :: "byte list"
  has_error :: bool

type_synonym 'd put_fn = "'d \<Rightarrow> byte list \<Rightarrow> int \<Rightarrow> 'd \<times> int"
type_synonym 'd get_fn = "'d \<Rightarrow> int \<Rightarrow> int \<Rightarrow> byte list \<times> int"

definition qemu_fopen_ops :: "'d \<Rightarrow> 'd qemu_file" where
  "qemu_fopen_ops d = \<lparr>opaque = d, is_write = False, buf_offset = 0, buf_index = 0, buf_size = 0,
     buf = replicate (nat IO_BUF_SIZE) 0, has_error = False\<rparr>"

definition qemu_fflush :: "'d put_fn option \<Rightarrow> 'd qemu_file \<Rightarrow> 'd qemu_file" where
  "qemu_fflush put f =
     (case put of
        None \<Rightarrow> f
      | Some put_buffer \<Rightarrow>
          if is_write f \<and> buf_index f > 0 then
            (let (d, len) = put_buffer (opaque f) (take (nat (buf_index f)) (buf f)) (buf_offset f);
                 f = f\<lparr>opaque := d\<rparr>;
                 f = (if len > 0 then f\<lparr>buf_offset := buf_offset f + buf_index f\<rparr>
                      else f\<lparr>has_error := True\<rparr>)
             in f\<lparr>buf_index := 0\<rparr>)
          else f)"

text \<open>\<open>None\<close>: the \<open>abort\<close> of a write into a file that is being read, or a write past \<open>buf\<close>.\<close>

definition write_ok :: "'d qemu_file \<Rightarrow> bool" where
  "write_ok f \<longleftrightarrow> \<not> (\<not> has_error f \<and> \<not> is_write f \<and> buf_index f > 0)"

definition qemu_put_byte :: "'d put_fn option \<Rightarrow> 'd qemu_file \<Rightarrow> byte \<Rightarrow> 'd qemu_file option" where
  "qemu_put_byte put f v =
     (if \<not> write_ok f then None
      else Option.bind (wr (buf f) (buf_index f) v)
        (\<lambda>b. let f = f\<lparr>buf := b, buf_index := buf_index f + 1, is_write := True\<rparr>
             in Some (if buf_index f \<ge> IO_BUF_SIZE then qemu_fflush put f else f)))"

partial_function (option) put_buffer_loop ::
  "'d put_fn option \<Rightarrow> 'd qemu_file \<Rightarrow> byte list \<Rightarrow> int \<Rightarrow> 'd qemu_file option" where
  "put_buffer_loop put f bs sz =
     (if \<not> has_error f \<and> sz > 0 then
        (let l = IO_BUF_SIZE - buf_index f;
             l = (if l > sz then sz else l)
         in Option.bind (memcpy (buf f) (buf_index f) bs l)
              (\<lambda>b. let f = f\<lparr>buf := b, is_write := True, buf_index := buf_index f + l\<rparr>
                   in put_buffer_loop put
                        (if buf_index f \<ge> IO_BUF_SIZE then qemu_fflush put f else f)
                        (drop (nat l) bs) (sz - l)))
      else Some f)"

definition qemu_put_buffer ::
  "'d put_fn option \<Rightarrow> 'd qemu_file \<Rightarrow> byte list \<Rightarrow> int \<Rightarrow> 'd qemu_file option" where
  "qemu_put_buffer put f bs sz =
     (if \<not> write_ok f then None else put_buffer_loop put f bs sz)"

definition EAGAIN :: int where "EAGAIN = 11"

definition qemu_fill_buffer :: "'d get_fn option \<Rightarrow> 'd qemu_file \<Rightarrow> 'd qemu_file option" where
  "qemu_fill_buffer get f =
     (case get of
        None \<Rightarrow> Some f
      | Some get_buffer \<Rightarrow>
          if is_write f then None
          else
            (let (bs, len) = get_buffer (opaque f) (buf_offset f) IO_BUF_SIZE
             in if len > 0 then
                  map_option (\<lambda>b. f\<lparr>buf := b, buf_index := 0, buf_size := len,
                                    buf_offset := buf_offset f + len\<rparr>)
                    (memcpy (buf f) 0 bs len)
                else if len \<noteq> - EAGAIN then Some (f\<lparr>has_error := True\<rparr>)
                else Some f))"

definition qemu_get_byte :: "'d get_fn option \<Rightarrow> 'd qemu_file \<Rightarrow> (byte \<times> 'd qemu_file) option" where
  "qemu_get_byte get f =
     (if is_write f then None
      else Option.bind (if buf_index f \<ge> buf_size f then qemu_fill_buffer get f else Some f)
        (\<lambda>f. if buf_index f \<ge> buf_size f then Some (0, f)
             else map_option (\<lambda>b. (b, f\<lparr>buf_index := buf_index f + 1\<rparr>)) (rd (buf f) (buf_index f))))"

definition qemu_ftell :: "'d qemu_file \<Rightarrow> int" where
  "qemu_ftell f = buf_offset f - buf_size f + buf_index f"

section \<open>Writing: the stream is an append-only log\<close>

text \<open>What a writer needs of \<open>put_buffer\<close>: writing at the end of the store extends it.\<close>

locale append_store =
  fixes put_buffer :: "'d put_fn" and store :: "'d \<Rightarrow> byte list"
  assumes put_at_end: "bs \<noteq> [] \<Longrightarrow> pos = int (length (store d)) \<Longrightarrow>
    \<exists>d' len. put_buffer d bs pos = (d', len) \<and> len > 0 \<and> store d' = store d @ bs"
begin

definition writing :: "'d qemu_file \<Rightarrow> bool" where
  "writing f \<longleftrightarrow> \<not> has_error f \<and> (buf_index f > 0 \<longrightarrow> is_write f) \<and>
     length (buf f) = nat IO_BUF_SIZE \<and> 0 \<le> buf_index f \<and> buf_index f < IO_BUF_SIZE \<and>
     buf_offset f = int (length (store (opaque f)))"

definition written :: "'d qemu_file \<Rightarrow> byte list" where
  "written f = store (opaque f) @ take (nat (buf_index f)) (buf f)"

lemma fflush_written:
  assumes "\<not> has_error f" "is_write f" "0 < buf_index f" "length (buf f) = nat IO_BUF_SIZE"
    "buf_index f \<le> IO_BUF_SIZE" "buf_offset f = int (length (store (opaque f)))"
  shows "writing (qemu_fflush (Some put_buffer) f) \<and>
    store (opaque (qemu_fflush (Some put_buffer) f)) = written f \<and>
    written (qemu_fflush (Some put_buffer) f) = written f"
proof -
  let ?bs = "take (nat (buf_index f)) (buf f)"
  have bs: "?bs \<noteq> []" "length ?bs = nat (buf_index f)"
    using assms by (auto simp: IO_BUF_SIZE_def)
  obtain d' len where "put_buffer (opaque f) ?bs (buf_offset f) = (d', len)" "len > 0"
    "store d' = store (opaque f) @ ?bs" using put_at_end [OF bs(1) assms(6)] by blast
  then show ?thesis using assms bs by (auto simp: qemu_fflush_def writing_def written_def IO_BUF_SIZE_def)
qed

lemma flush_if_full:
  assumes "\<not> has_error f" "is_write f" "0 < buf_index f" "length (buf f) = nat IO_BUF_SIZE"
    "buf_index f \<le> IO_BUF_SIZE" "buf_offset f = int (length (store (opaque f)))"
  shows "writing (if buf_index f \<ge> IO_BUF_SIZE then qemu_fflush (Some put_buffer) f else f) \<and>
    written (if buf_index f \<ge> IO_BUF_SIZE then qemu_fflush (Some put_buffer) f else f) = written f"
proof (cases "buf_index f \<ge> IO_BUF_SIZE")
  case True
  then show ?thesis using fflush_written [OF assms] by simp
next
  case False
  then show ?thesis using assms by (simp add: writing_def)
qed

lemma put_byte_written:
  assumes "writing f"
  shows "\<exists>f'. qemu_put_byte (Some put_buffer) f v = Some f' \<and> writing f' \<and> written f' = written f @ [v]"
proof -
  let ?f = "f\<lparr>buf := (buf f)[nat (buf_index f) := v], buf_index := buf_index f + 1, is_write := True\<rparr>"
  have eq: "qemu_put_byte (Some put_buffer) f v =
      Some (if buf_index ?f \<ge> IO_BUF_SIZE then qemu_fflush (Some put_buffer) ?f else ?f)"
    using assms by (auto simp: qemu_put_byte_def write_ok_def writing_def wr_def)
  have w: "written ?f = written f @ [v]"
    using assms by (simp add: written_def writing_def nat_add_distrib take_Suc_conv_app_nth)
  have "writing (if buf_index ?f \<ge> IO_BUF_SIZE then qemu_fflush (Some put_buffer) ?f else ?f) \<and>
    written (if buf_index ?f \<ge> IO_BUF_SIZE then qemu_fflush (Some put_buffer) ?f else ?f) = written ?f"
    by (rule flush_if_full) (use assms in \<open>simp_all add: writing_def\<close>)
  then show ?thesis unfolding eq w by blast
qed

lemma put_buffer_loop_written:
  "writing f \<Longrightarrow> sz \<le> int (length bs) \<Longrightarrow>
   \<exists>f'. put_buffer_loop (Some put_buffer) f bs sz = Some f' \<and> writing f' \<and>
     written f' = written f @ take (nat sz) bs"
proof (induction "nat sz" arbitrary: f bs sz rule: less_induct)
  case less
  show ?case
  proof (cases "sz > 0")
    case False
    then show ?thesis using less.prems by (subst put_buffer_loop.simps) simp
  next
    case True
    define l where "l = (if IO_BUF_SIZE - buf_index f > sz then sz else IO_BUF_SIZE - buf_index f)"
    have l: "0 < l" "l \<le> sz" "buf_index f + l \<le> IO_BUF_SIZE" "0 \<le> buf_index f" "\<not> has_error f"
      "length (buf f) = nat IO_BUF_SIZE"
      using True less.prems by (auto simp: l_def writing_def)
    define b where
      "b = take (nat (buf_index f)) (buf f) @ take (nat l) bs @ drop (nat (buf_index f + l)) (buf f)"
    let ?f = "f\<lparr>buf := b, is_write := True, buf_index := buf_index f + l\<rparr>"
    let ?g = "if buf_index ?f \<ge> IO_BUF_SIZE then qemu_fflush (Some put_buffer) ?f else ?f"
    have "memcpy (buf f) (buf_index f) bs l = Some b"
      using l less.prems by (simp add: memcpy_def IO_BUF_SIZE_def b_def)
    then have step: "put_buffer_loop (Some put_buffer) f bs sz =
        put_buffer_loop (Some put_buffer) ?g (drop (nat l) bs) (sz - l)"
      using True l by (subst put_buffer_loop.simps) (simp add: Let_def flip: l_def)
    have len: "length b = nat IO_BUF_SIZE" using l less.prems by (simp add: b_def IO_BUF_SIZE_def nat_add_distrib)
    have w: "written ?f = written f @ take (nat l) bs"
      using l less.prems by (simp add: b_def written_def nat_add_distrib IO_BUF_SIZE_def)
    have "writing ?g \<and> written ?g = written ?f"
      by (rule flush_if_full) (use l len less.prems(1) in \<open>simp_all add: writing_def\<close>)
    then have g: "writing ?g" "written ?g = written f @ take (nat l) bs" unfolding w by blast+
    have "take (nat sz) bs = take (nat l) bs @ take (nat (sz - l)) (drop (nat l) bs)"
      using l take_add [of "nat l" "nat (sz - l)" bs] by (simp add: nat_add_distrib [symmetric])
    moreover have "\<exists>f'. put_buffer_loop (Some put_buffer) ?g (drop (nat l) bs) (sz - l) = Some f' \<and>
        writing f' \<and> written f' = written ?g @ take (nat (sz - l)) (drop (nat l) bs)"
      by (rule less.hyps) (use g(1) l True less.prems(2) in simp_all)
    ultimately show ?thesis unfolding step g(2) by simp
  qed
qed

end

section \<open>Reading: the stream from the current position\<close>

text \<open>What a reader needs of \<open>get_buffer\<close>: it returns the bytes at a position, fewer at the end.\<close>

locale read_store =
  fixes get_buffer :: "'d get_fn" and store :: "'d \<Rightarrow> byte list"
  assumes get_at: "0 \<le> pos \<Longrightarrow> pos \<le> int (length (store d)) \<Longrightarrow> 0 < n \<Longrightarrow>
    get_buffer d pos n =
      (take (nat n) (drop (nat pos) (store d)), min n (int (length (store d)) - pos))"
begin

definition reading :: "'d qemu_file \<Rightarrow> bool" where
  "reading f \<longleftrightarrow> \<not> is_write f \<and> length (buf f) = nat IO_BUF_SIZE \<and> 0 \<le> buf_index f \<and>
     buf_index f \<le> buf_size f \<and> buf_size f \<le> IO_BUF_SIZE \<and>
     0 \<le> buf_offset f \<and> buf_offset f \<le> int (length (store (opaque f)))"

definition remaining :: "'d qemu_file \<Rightarrow> byte list" where
  "remaining f = drop (nat (buf_index f)) (take (nat (buf_size f)) (buf f)) @
     drop (nat (buf_offset f)) (store (opaque f))"

lemma fill_buffer_reading:
  assumes "reading f" and "buf_index f = buf_size f"
  shows "\<exists>f'. qemu_fill_buffer (Some get_buffer) f = Some f' \<and> reading f' \<and>
    remaining f' = remaining f \<and> (buf_index f' = buf_size f' \<longrightarrow> remaining f = [])"
proof -
  define d where "d = drop (nat (buf_offset f)) (store (opaque f))"
  define n where "n = min IO_BUF_SIZE (int (length (store (opaque f))) - buf_offset f)"
  have got: "get_buffer (opaque f) (buf_offset f) IO_BUF_SIZE = (take (nat IO_BUF_SIZE) d, n)"
    using assms(1) get_at [of "buf_offset f" "opaque f" IO_BUF_SIZE]
    by (simp add: reading_def n_def d_def IO_BUF_SIZE_def)
  have rem: "remaining f = d" using assms by (simp add: remaining_def d_def)
  have n: "0 \<le> n" "n \<le> IO_BUF_SIZE" "nat n \<le> length d" "nat n = min (nat IO_BUF_SIZE) (length d)"
    using assms(1) by (auto simp: n_def d_def reading_def IO_BUF_SIZE_def)
  show ?thesis
  proof (cases "n > 0")
    case False
    then have "d = []" using n by (auto simp: IO_BUF_SIZE_def min_def split: if_splits)
    then show ?thesis using False got n rem assms
      by (auto simp: qemu_fill_buffer_def reading_def remaining_def d_def)
  next
    case True
    define b where "b = take (nat n) (take (nat IO_BUF_SIZE) d) @ drop (nat n) (buf f)"
    have b: "memcpy (buf f) 0 (take (nat IO_BUF_SIZE) d) n = Some b" "length b = nat IO_BUF_SIZE"
      using n assms(1) True by (auto simp: memcpy_def b_def reading_def)
    let ?f = "f\<lparr>buf := b, buf_index := 0, buf_size := n, buf_offset := buf_offset f + n\<rparr>"
    have "qemu_fill_buffer (Some get_buffer) f = Some ?f"
      using True got b assms(1) by (simp add: qemu_fill_buffer_def reading_def)
    moreover have "reading ?f" using assms(1) b n by (auto simp: reading_def n_def)
    moreover have "remaining ?f = take (nat n) d @ drop (nat n) d"
      using n True assms(1)
      by (simp add: remaining_def b_def d_def reading_def nat_add_distrib add.commute min_absorb2)
    ultimately show ?thesis using True rem by auto
  qed
qed

lemma get_byte_reading:
  assumes "reading f"
  shows "\<exists>f'. qemu_get_byte (Some get_buffer) f =
      Some (case remaining f of [] \<Rightarrow> 0 | b # _ \<Rightarrow> b, f') \<and> reading f' \<and> remaining f' = tl (remaining f)"
proof -
  have take1: "remaining g = buf g ! nat (buf_index g) # remaining (g\<lparr>buf_index := buf_index g + 1\<rparr>)"
    and rd1: "rd (buf g) (buf_index g) = Some (buf g ! nat (buf_index g))"
    if "reading g" "buf_index g < buf_size g" for g
  proof -
    have "nat (buf_index g) < length (take (nat (buf_size g)) (buf g))"
      using that by (simp add: reading_def)
    from Cons_nth_drop_Suc [OF this]
    show "remaining g = buf g ! nat (buf_index g) # remaining (g\<lparr>buf_index := buf_index g + 1\<rparr>)"
      using that by (simp add: remaining_def reading_def nat_add_distrib)
    show "rd (buf g) (buf_index g) = Some (buf g ! nat (buf_index g))"
      using that by (simp add: rd_def reading_def)
  qed
  obtain g where g: "(if buf_index f \<ge> buf_size f then qemu_fill_buffer (Some get_buffer) f else Some f) = Some g"
    "reading g" "remaining g = remaining f" "buf_index g = buf_size g \<longrightarrow> remaining f = []"
    using fill_buffer_reading [OF assms] assms by (cases "buf_index f \<ge> buf_size f") (auto simp: reading_def)
  show ?thesis
  proof (cases "buf_index g \<ge> buf_size g")
    case True
    then have "buf_index g = buf_size g" using g(2) by (simp add: reading_def)
    then show ?thesis using g assms by (simp add: qemu_get_byte_def reading_def)
  next
    case False
    then have r: "remaining f = buf g ! nat (buf_index g) # remaining (g\<lparr>buf_index := buf_index g + 1\<rparr>)"
      using take1 [of g] g by simp
    show ?thesis
      unfolding r using False g(1,2) assms rd1 [of g] by (auto simp: qemu_get_byte_def reading_def)
  qed
qed

end

section \<open>The stdio backend\<close>

text \<open>
  \<open>fseek\<close> and \<open>fwrite\<close>/\<open>fread\<close> on a file, taken as the list of its bytes: writing at a position
  replaces the bytes there and extends the file.
\<close>

definition file_put_buffer :: "byte list put_fn" where
  "file_put_buffer d bs pos =
     (take (nat pos) d @ replicate (nat pos - length d) 0 @ bs @ drop (nat pos + length bs) d,
      int (length bs))"

definition file_get_buffer :: "byte list get_fn" where
  "file_get_buffer d pos n =
     (let bs = take (nat n) (drop (nat pos) d) in (bs, int (length bs)))"

interpretation stdio_put: append_store file_put_buffer id
  by unfold_locales (auto simp: file_put_buffer_def)

interpretation stdio_get: read_store file_get_buffer id
  by unfold_locales (auto simp: file_get_buffer_def Let_def min_def nat_diff_distrib)

section \<open>Big-endian integers on the stream\<close>

fun put_bytes :: "'d put_fn option \<Rightarrow> 'd qemu_file \<Rightarrow> byte list \<Rightarrow> 'd qemu_file option" where
  "put_bytes put f [] = Some f"
| "put_bytes put f (b # bs) = Option.bind (qemu_put_byte put f b) (\<lambda>f. put_bytes put f bs)"

definition be16_bytes :: "u32 \<Rightarrow> byte list" where
  "be16_bytes v = [ucast (drop_bit 8 v), ucast v]"

definition be32_bytes :: "u32 \<Rightarrow> byte list" where
  "be32_bytes v = [ucast (drop_bit 24 v), ucast (drop_bit 16 v), ucast (drop_bit 8 v), ucast v]"

definition be64_bytes :: "u64 \<Rightarrow> byte list" where
  "be64_bytes v = be32_bytes (ucast (drop_bit 32 v)) @ be32_bytes (ucast v)"

definition qemu_put_be16 :: "'d put_fn option \<Rightarrow> 'd qemu_file \<Rightarrow> u32 \<Rightarrow> 'd qemu_file option" where
  "qemu_put_be16 put f v = put_bytes put f (be16_bytes v)"

definition qemu_put_be32 :: "'d put_fn option \<Rightarrow> 'd qemu_file \<Rightarrow> u32 \<Rightarrow> 'd qemu_file option" where
  "qemu_put_be32 put f v = put_bytes put f (be32_bytes v)"

definition qemu_put_be64 :: "'d put_fn option \<Rightarrow> 'd qemu_file \<Rightarrow> u64 \<Rightarrow> 'd qemu_file option" where
  "qemu_put_be64 put f v =
     Option.bind (qemu_put_be32 put f (ucast (drop_bit 32 v))) (\<lambda>f. qemu_put_be32 put f (ucast v))"

text \<open>Reading from the remaining stream; at its end \<open>qemu_get_byte\<close> returns 0.\<close>

fun get_byte :: "byte list \<Rightarrow> byte \<times> byte list" where
  "get_byte [] = (0, [])"
| "get_byte (b # bs) = (b, bs)"

definition qemu_get_be16 :: "byte list \<Rightarrow> u32 \<times> byte list" where
  "qemu_get_be16 s =
     (let (b1, s) = get_byte s; (b0, s) = get_byte s
      in (push_bit 8 (ucast b1) OR ucast b0, s))"

definition qemu_get_be32 :: "byte list \<Rightarrow> u32 \<times> byte list" where
  "qemu_get_be32 s =
     (let (b3, s) = get_byte s; (b2, s) = get_byte s; (b1, s) = get_byte s; (b0, s) = get_byte s
      in (push_bit 24 (ucast b3) OR push_bit 16 (ucast b2) OR push_bit 8 (ucast b1) OR ucast b0, s))"

definition qemu_get_be64 :: "byte list \<Rightarrow> u64 \<times> byte list" where
  "qemu_get_be64 s =
     (let (hi, s) = qemu_get_be32 s; (lo, s) = qemu_get_be32 s
      in (push_bit 32 (ucast hi) OR ucast lo, s))"

lemma be16_roundtrip [simp]: "qemu_get_be16 (be16_bytes v @ r) = (v AND mask 16, r)"
proof -
  have "push_bit 8 (ucast (ucast (drop_bit 8 v) :: byte)) OR ucast (ucast v :: byte) = (v AND mask 16 :: u32)"
    (is "?l = _")
  proof (rule bit_word_eqI)
    fix n
    show "bit ?l n = bit (v AND mask 16 :: u32) n"
      by (cases "n < 8"; cases "n < 16") (auto simp: bit_simps)
  qed
  then show ?thesis by (simp add: qemu_get_be16_def be16_bytes_def)
qed

lemma be32_roundtrip [simp]: "qemu_get_be32 (be32_bytes v @ r) = (v, r)"
proof -
  have "push_bit 24 (ucast (ucast (drop_bit 24 v) :: byte)) OR
      push_bit 16 (ucast (ucast (drop_bit 16 v) :: byte)) OR
      push_bit 8 (ucast (ucast (drop_bit 8 v) :: byte)) OR ucast (ucast v :: byte) = v" (is "?l = v")
  proof (rule bit_word_eqI)
    fix n assume "n < LENGTH(32)"
    then consider "n < 8" | "8 \<le> n" "n < 16" | "16 \<le> n" "n < 24" | "24 \<le> n" "n < 32"
      by fastforce
    then show "bit ?l n = bit v n" by cases (auto simp: bit_simps)
  qed
  then show ?thesis by (simp add: qemu_get_be32_def be32_bytes_def)
qed

lemma be64_roundtrip [simp]: "qemu_get_be64 (be64_bytes v @ r) = (v, r)"
proof -
  have "push_bit 32 (ucast (ucast (drop_bit 32 v) :: u32)) OR ucast (ucast v :: u32) = v"
    by (rule bit_word_eqI) (auto simp: bit_simps)
  then show ?thesis by (simp add: qemu_get_be64_def be64_bytes_def)
qed

section \<open>Table-driven structures\<close>

datatype qfield_type =
  Q_FIELD_END | Q_FIELD_BYTE | Q_FIELD_INT16 | Q_FIELD_INT32 | Q_FIELD_INT64
  | Q_FIELD_BUFFER | Q_FIELD_BUFFER_SIZE

type_synonym qfield = "qfield_type \<times> u16"

text \<open>How a table walk ends early: \<open>exit(1)\<close> on a bad table, or a read outside an object.\<close>

datatype walk_stop = Exit1 | Out_of_bounds

text \<open>An integer field of the structure in memory, little endian as on the emulator's hosts.\<close>

fun le_bytes :: "byte list \<Rightarrow> u64" where
  "le_bytes [] = 0"
| "le_bytes (b # bs) = ucast b OR push_bit 8 (le_bytes bs)"

definition field_bytes :: "byte list \<Rightarrow> u16 \<Rightarrow> nat \<Rightarrow> walk_stop + byte list" where
  "field_bytes s off n =
     (if unat off + n \<le> length s then Inr (take n (drop (unat off) s)) else Inl Out_of_bounds)"

text \<open>
  \<open>qemu_put_struct\<close>: the walk from table entry \<open>i\<close>, appending to the bytes put so far. The \<open>break\<close>
  of the \<open>Q_FIELD_END\<close> case leaves the \<open>switch\<close> and not the loop, so the walk goes on to the next
  entry; the buffer case looks at \<open>fields[1]\<close> and \<open>fields[2]\<close>, the table's second and third
  entries, whichever entry it is at.
\<close>

definition buffer_size :: "qfield list \<Rightarrow> walk_stop + nat" where
  "buffer_size tbl =
     (if length tbl < 3 then Inl Out_of_bounds
      else if fst (tbl ! 1) \<noteq> Q_FIELD_BUFFER_SIZE \<or> fst (tbl ! 2) \<noteq> Q_FIELD_BUFFER_SIZE
      then Inl Exit1
      else Inr (unat (push_bit 16 (ucast (snd (tbl ! 1)) :: u32) OR ucast (snd (tbl ! 2)))))"

function put_struct_from ::
  "qfield list \<Rightarrow> byte list \<Rightarrow> nat \<Rightarrow> byte list \<Rightarrow> walk_stop + byte list" where
  "put_struct_from tbl s i out =
     (if i \<ge> length tbl then Inl Out_of_bounds
      else let off = snd (tbl ! i) in
        case fst (tbl ! i) of
          Q_FIELD_END \<Rightarrow> put_struct_from tbl s (i + 1) out
        | Q_FIELD_BYTE \<Rightarrow>
            (case field_bytes s off 1 of Inl e \<Rightarrow> Inl e
             | Inr bs \<Rightarrow> put_struct_from tbl s (i + 1) (out @ bs))
        | Q_FIELD_INT16 \<Rightarrow>
            (case field_bytes s off 2 of Inl e \<Rightarrow> Inl e
             | Inr bs \<Rightarrow> put_struct_from tbl s (i + 1) (out @ be16_bytes (ucast (le_bytes bs))))
        | Q_FIELD_INT32 \<Rightarrow>
            (case field_bytes s off 4 of Inl e \<Rightarrow> Inl e
             | Inr bs \<Rightarrow> put_struct_from tbl s (i + 1) (out @ be32_bytes (ucast (le_bytes bs))))
        | Q_FIELD_INT64 \<Rightarrow>
            (case field_bytes s off 8 of Inl e \<Rightarrow> Inl e
             | Inr bs \<Rightarrow> put_struct_from tbl s (i + 1) (out @ be64_bytes (le_bytes bs)))
        | Q_FIELD_BUFFER \<Rightarrow>
            (case buffer_size tbl of Inl e \<Rightarrow> Inl e
             | Inr n \<Rightarrow>
                 (case field_bytes s off n of Inl e \<Rightarrow> Inl e
                  | Inr bs \<Rightarrow> put_struct_from tbl s (i + 3) (out @ bs)))
        | Q_FIELD_BUFFER_SIZE \<Rightarrow> Inl Exit1)"
  by pat_completeness auto
termination
  by (relation "measure (\<lambda>(tbl, s, i, out). length tbl - i)") auto

declare put_struct_from.simps [simp del]

definition qemu_put_struct :: "qfield list \<Rightarrow> byte list \<Rightarrow> walk_stop + byte list" where
  "qemu_put_struct tbl s = put_struct_from tbl s 0 []"

section \<open>Properties\<close>

context append_store
begin

lemma put_bytes_written:
  "writing f \<Longrightarrow> \<exists>f'. put_bytes (Some put_buffer) f bs = Some f' \<and> writing f' \<and> written f' = written f @ bs"
proof (induction bs arbitrary: f)
  case Nil
  then show ?case by simp
next
  case (Cons b bs)
  obtain f1 where f1: "qemu_put_byte (Some put_buffer) f b = Some f1" "writing f1" "written f1 = written f @ [b]"
    using put_byte_written [OF Cons.prems] by blast
  then show ?case using Cons.IH [OF f1(2)] by auto
qed

lemma put_buffer_written:
  "writing f \<Longrightarrow> \<exists>f'. qemu_put_buffer (Some put_buffer) f bs (int (length bs)) = Some f' \<and>
    writing f' \<and> written f' = written f @ bs"
  using put_buffer_loop_written [of f "int (length bs)" bs]
  by (auto simp: qemu_put_buffer_def write_ok_def writing_def)

lemma final_flush:
  assumes "writing f"
  shows "store (opaque (qemu_fflush (Some put_buffer) f)) = written f"
proof (cases "buf_index f > 0")
  case True
  then show ?thesis using fflush_written [of f] assms by (simp add: writing_def)
next
  case False
  then show ?thesis using assms by (simp add: qemu_fflush_def written_def writing_def)
qed

end

text \<open>The puts a device's save handler makes, and what they put.\<close>

datatype put_op = Put_byte byte | Put_buffer "byte list" | Put_be32 u32 | Put_be64 u64

fun run_put :: "'d put_fn option \<Rightarrow> 'd qemu_file \<Rightarrow> put_op \<Rightarrow> 'd qemu_file option" where
  "run_put put f (Put_byte b) = qemu_put_byte put f b"
| "run_put put f (Put_buffer bs) = qemu_put_buffer put f bs (int (length bs))"
| "run_put put f (Put_be32 v) = qemu_put_be32 put f v"
| "run_put put f (Put_be64 v) = qemu_put_be64 put f v"

fun op_bytes :: "put_op \<Rightarrow> byte list" where
  "op_bytes (Put_byte b) = [b]"
| "op_bytes (Put_buffer bs) = bs"
| "op_bytes (Put_be32 v) = be32_bytes v"
| "op_bytes (Put_be64 v) = be64_bytes v"

fun run_puts :: "'d put_fn option \<Rightarrow> 'd qemu_file \<Rightarrow> put_op list \<Rightarrow> 'd qemu_file option" where
  "run_puts put f [] = Some f"
| "run_puts put f (x # xs) = Option.bind (run_put put f x) (\<lambda>f. run_puts put f xs)"

context append_store
begin

lemma run_put_written:
  "writing f \<Longrightarrow> \<exists>f'. run_put (Some put_buffer) f x = Some f' \<and> writing f' \<and> written f' = written f @ op_bytes x"
proof (cases x)
  case (Put_be64 v)
  assume "writing f"
  then obtain f1 where f1: "put_bytes (Some put_buffer) f (be32_bytes (ucast (drop_bit 32 v))) = Some f1"
    "writing f1" "written f1 = written f @ be32_bytes (ucast (drop_bit 32 v))"
    using put_bytes_written by blast
  then show ?thesis using put_bytes_written [OF f1(2), of "be32_bytes (ucast v)"] Put_be64
    by (auto simp: qemu_put_be64_def qemu_put_be32_def be64_bytes_def)
qed (auto simp: qemu_put_be32_def intro: put_byte_written put_buffer_written put_bytes_written)

lemma run_puts_written:
  "writing f \<Longrightarrow> \<exists>f'. run_puts (Some put_buffer) f xs = Some f' \<and> writing f' \<and>
     written f' = written f @ concat (map op_bytes xs)"
proof (induction xs arbitrary: f)
  case Nil
  then show ?case by simp
next
  case (Cons x xs)
  obtain f1 where f1: "run_put (Some put_buffer) f x = Some f1" "writing f1" "written f1 = written f @ op_bytes x"
    using run_put_written [OF Cons.prems] by blast
  then show ?case using Cons.IH [OF f1(2)] by auto
qed

end

lemma puts_on_file:
  "\<exists>f. run_puts (Some file_put_buffer) (qemu_fopen_ops []) xs = Some f \<and>
     opaque (qemu_fflush (Some file_put_buffer) f) = concat (map op_bytes xs)"
proof -
  have "stdio_put.writing (qemu_fopen_ops [])"
    by (simp add: stdio_put.writing_def qemu_fopen_ops_def IO_BUF_SIZE_def)
  then obtain f where f: "run_puts (Some file_put_buffer) (qemu_fopen_ops []) xs = Some f"
    "stdio_put.writing f" "stdio_put.written f = stdio_put.written (qemu_fopen_ops []) @ concat (map op_bytes xs)"
    using stdio_put.run_puts_written by blast
  moreover have "stdio_put.written (qemu_fopen_ops []) = []"
    by (simp add: stdio_put.written_def qemu_fopen_ops_def)
  ultimately show ?thesis using stdio_put.final_flush [OF f(2)] by auto
qed

text \<open>
  Property C24 (refinement). Writing a snapshot to a fresh file on the stdio backend never aborts
  and never leaves the 32 KB buffer: whatever mix of \<open>qemu_put_byte\<close>, \<open>qemu_put_buffer\<close>,
  \<open>qemu_put_be32\<close> and \<open>qemu_put_be64\<close> is made, after \<open>qemu_fflush\<close> the file holds exactly the bytes
  put, in order.
\<close>

theorem savevm_write_stream:
  "\<exists>f. run_puts (Some file_put_buffer) (qemu_fopen_ops []) xs = Some f \<and>
     opaque (qemu_fflush (Some file_put_buffer) f) = concat (map op_bytes xs)"
  by (rule puts_on_file)

fun get_bytes :: "'d get_fn option \<Rightarrow> 'd qemu_file \<Rightarrow> nat \<Rightarrow> (byte list \<times> 'd qemu_file) option" where
  "get_bytes get f 0 = Some ([], f)"
| "get_bytes get f (Suc n) =
     Option.bind (qemu_get_byte get f)
       (\<lambda>(b, f). map_option (\<lambda>(bs, f). (b # bs, f)) (get_bytes get f n))"

context read_store
begin

lemma get_bytes_reading:
  "reading f \<Longrightarrow> \<exists>f'. get_bytes (Some get_buffer) f n = Some (take n (remaining f @ replicate n 0), f')"
proof (induction n arbitrary: f)
  case 0
  then show ?case by simp
next
  case (Suc n)
  obtain f1 where f1: "qemu_get_byte (Some get_buffer) f =
      Some (case remaining f of [] \<Rightarrow> 0 | b # _ \<Rightarrow> b, f1)" "reading f1" "remaining f1 = tl (remaining f)"
    using get_byte_reading [OF Suc.prems] by blast
  have "take n (r @ 0 # replicate n 0) = take n (r @ replicate n (0 :: byte))" for r
    by (simp add: replicate_app_Cons_same take_append flip: replicate_Suc)
  then show ?case using Suc.IH [OF f1(2)] f1 by (auto split: list.splits)
qed

end

text \<open>
  Remark (roundtrip). Reading back: \<open>qemu_get_byte\<close> on a file opened on the stdio backend
  returns the file's bytes in order, across buffer refills, and zeros past its end.
\<close>

theorem savevm_read_stream:
  "\<exists>f. get_bytes (Some file_get_buffer) (qemu_fopen_ops d) n = Some (take n (d @ replicate n 0), f)"
proof -
  have "stdio_get.reading (qemu_fopen_ops d)"
    by (simp add: stdio_get.reading_def qemu_fopen_ops_def IO_BUF_SIZE_def)
  from stdio_get.get_bytes_reading [OF this] show ?thesis
    by (simp add: stdio_get.remaining_def qemu_fopen_ops_def)
qed

text \<open>
  Remark (roundtrip). The big-endian integers of the snapshot stream read back as written,
  wherever they stand in the stream.
\<close>

theorem be_roundtrip:
  "qemu_get_be16 (be16_bytes h @ r) = (h AND mask 16, r) \<and>
   qemu_get_be32 (be32_bytes w @ r) = (w, r) \<and> qemu_get_be64 (be64_bytes d @ r) = (d, r)"
  by simp

text \<open>
  Remark (error). \<open>qemu_put_struct\<close> never returns: for every field table and every structure
  the walk ends by reading outside the table or the structure, or by \<open>exit(1)\<close>. The \<open>break\<close> of the
  \<open>Q_FIELD_END\<close> case does not leave the \<open>for (;;)\<close> loop.
\<close>

theorem put_struct_never_returns: "\<exists>e. qemu_put_struct tbl s = Inl e"
proof -
  have "\<exists>e. put_struct_from tbl s i out = Inl e" for i out
  proof (induction tbl s i out rule: put_struct_from.induct)
    case (1 tbl s i out)
    then show ?case
      by (subst put_struct_from.simps) (auto simp: Let_def split: qfield_type.splits sum.splits)
  qed
  then show ?thesis by (simp add: qemu_put_struct_def)
qed

end
