(* ===== verification/Chr_Sink.thy ===== *)
theory Chr_Sink
  imports Goldfish_Base
begin

text \<open>
  The interface between character back ends (\<open>charpipe.c\<close>) and the front ends that read from them
  (\<open>hw/goldfish_tty.c\<close>): the handlers a front end installs with \<open>qemu_chr_add_handlers\<close>, how
  \<open>qemu-char.c\<close> calls them, and the contract the two sides rely on.
\<close>

section \<open>Handlers\<close>

text \<open>\<open>chr_can_read\<close> and \<open>chr_read\<close> of a \<open>CharDriverState\<close>, \<open>None\<close> for \<open>NULL\<close>; \<open>'s\<close> is the front end's state.\<close>

record 's chr_handlers =
  chr_can_read :: "('s \<Rightarrow> int) option"
  chr_read :: "('s \<Rightarrow> byte list \<Rightarrow> ('s \<times> effect list) outcome) option"

definition qemu_chr_can_read :: "'s chr_handlers \<Rightarrow> 's \<Rightarrow> int" where
  "qemu_chr_can_read h s = (case chr_can_read h of None \<Rightarrow> 0 | Some f \<Rightarrow> f s)"

definition qemu_chr_read :: "'s chr_handlers \<Rightarrow> 's \<Rightarrow> byte list \<Rightarrow> ('s \<times> effect list) outcome" where
  "qemu_chr_read h s bs = (case chr_read h of None \<Rightarrow> Inl Undefined | Some f \<Rightarrow> f s bs)"

section \<open>The contract of a character sink\<close>

text \<open>
  What a character device front end promises to \<open>qemu-char.c\<close>: \<open>can_receive\<close> says how many bytes
  \<open>receive\<close> takes, and a receive of at most that many appends them to what is buffered. Then a
  backend that always asks first never loses or reorders bytes.
\<close>

locale chr_sink =
  fixes wf :: "'s \<Rightarrow> bool"
    and buffered :: "'s \<Rightarrow> byte list"
    and can_receive :: "'s \<Rightarrow> nat"
    and receive :: "'s \<Rightarrow> byte list \<Rightarrow> ('s \<times> effect list) outcome"
  assumes receive_ok: "wf s \<Longrightarrow> length bs \<le> can_receive s \<Longrightarrow>
    \<exists>s' es. receive s bs = Inr (s', es) \<and> wf s' \<and> buffered s' = buffered s @ bs"
begin

lemma receive_some:
  assumes "wf s"
  shows "\<exists>s' es. receive s (take (can_receive s) bs) = Inr (s', es) \<and> wf s' \<and>
    buffered s' @ drop (can_receive s) bs = buffered s @ bs"
proof -
  obtain s' es where "receive s (take (can_receive s) bs) = Inr (s', es)" "wf s'"
      "buffered s' = buffered s @ take (can_receive s) bs"
    using receive_ok [OF assms, of "take (can_receive s) bs"] by auto
  then show ?thesis by simp
qed

end

end
