(* ===== verification/Goldfish_Tty.thy ===== *)
theory Goldfish_Tty
  imports Goldfish_Board Savevm Chr_Sink
begin

unbundle bit_operations_syntax

text \<open>
  The serial port (\<open>hw/goldfish_tty.c\<close>): a 128-byte receive buffer that a host character device
  fills and the guest drains through DMA commands, and the transmit command that copies a guest
  buffer to the host in pieces of 64 bytes.

  Guest memory is the function \<open>mem\<close> from addresses to bytes: what \<open>cpu_memory_rw_debug\<close> reads.
  A negative length handed to the host character device is \<open>Undefined\<close>.
\<close>

section \<open>State and operations\<close>

record tty_state =
  tty_cs :: bool
  tty_ptr :: u32
  ptr_len :: u32
  tty_ready :: u32
  tty_data :: "byte list"
  data_count :: u32

definition TTY_PUT_CHAR :: u32 where "TTY_PUT_CHAR = 0x00"
definition TTY_BYTES_READY :: u32 where "TTY_BYTES_READY = 0x04"
definition TTY_CMD :: u32 where "TTY_CMD = 0x08"
definition TTY_DATA_PTR :: u32 where "TTY_DATA_PTR = 0x10"
definition TTY_DATA_LEN :: u32 where "TTY_DATA_LEN = 0x14"
definition TTY_CMD_INT_DISABLE :: u32 where "TTY_CMD_INT_DISABLE = 0"
definition TTY_CMD_INT_ENABLE :: u32 where "TTY_CMD_INT_ENABLE = 1"
definition TTY_CMD_WRITE_BUFFER :: u32 where "TTY_CMD_WRITE_BUFFER = 2"
definition TTY_CMD_READ_BUFFER :: u32 where "TTY_CMD_READ_BUFFER = 3"
definition GOLDFISH_TTY_SAVE_VERSION :: int where "GOLDFISH_TTY_SAVE_VERSION = 1"

lemmas tty_regs = TTY_PUT_CHAR_def TTY_BYTES_READY_def TTY_CMD_def TTY_DATA_PTR_def TTY_DATA_LEN_def
  TTY_CMD_INT_DISABLE_def TTY_CMD_INT_ENABLE_def TTY_CMD_WRITE_BUFFER_def TTY_CMD_READ_BUFFER_def

definition goldfish_tty_add :: "bool \<Rightarrow> tty_state" where
  "goldfish_tty_add cs =
     \<lparr>tty_cs = cs, tty_ptr = 0, ptr_len = 0, tty_ready = 0, tty_data = replicate 128 0, data_count = 0\<rparr>"

text \<open>The save handler writes the count as one byte and then that many bytes of the buffer.\<close>

definition goldfish_tty_save :: "tty_state \<Rightarrow> put_op list" where
  "goldfish_tty_save s =
     [Put_be32 (tty_ptr s), Put_be32 (ptr_len s), Put_byte (ucast (tty_ready s)),
      Put_byte (ucast (data_count s)), Put_buffer (take (unat (data_count s)) (tty_data s))]"

text \<open>\<open>qemu_get_buffer\<close> into an array: the bytes left in the stream, at most as many as asked.\<close>

definition goldfish_tty_load ::
  "tty_state \<Rightarrow> byte list \<Rightarrow> int \<Rightarrow> (int \<times> tty_state \<times> byte list) outcome" where
  "goldfish_tty_load s f version_id =
     (if version_id \<noteq> GOLDFISH_TTY_SAVE_VERSION then Inr (-1, s, f)
      else
        (let (p, f) = qemu_get_be32 f;
             (n, f) = qemu_get_be32 f;
             (r, f) = get_byte f;
             (c, f) = get_byte f;
             s = s\<lparr>tty_ptr := p, ptr_len := n, tty_ready := ucast r, data_count := ucast c\<rparr>;
             k = min (unat c) (length f)
         in case memcpy (tty_data s) 0 f (int k) of
              None \<Rightarrow> Inl Undefined
            | Some d \<Rightarrow> Inr (0, s\<lparr>tty_data := d\<rparr>, drop k f)))"

definition goldfish_tty_read :: "tty_state \<Rightarrow> u32 \<Rightarrow> u32 outcome" where
  "goldfish_tty_read s off = (if off = TTY_BYTES_READY then Inr (data_count s) else Inl Cpu_abort)"

text \<open>The transmit loop: \<open>len\<close> is the \<open>int\<close> local of the handler.\<close>

definition mem_range :: "(u32 \<Rightarrow> byte) \<Rightarrow> u32 \<Rightarrow> nat \<Rightarrow> byte list" where
  "mem_range mem a n = map (\<lambda>i. mem (a + of_nat i)) [0..<n]"

function tty_write_loop :: "(u32 \<Rightarrow> byte) \<Rightarrow> u32 \<Rightarrow> int \<Rightarrow> effect list outcome" where
  "tty_write_loop mem data len =
     (if len = 0 then Inr []
      else
        (let to_write = (if 64 > len then len else 64)
         in if to_write < 0 then Inl Undefined
            else map_sum id (\<lambda>es. Chr_write (mem_range mem data (nat to_write)) # es)
                   (tty_write_loop mem (data + word_of_int to_write) (len - to_write))))"
  by auto
termination by (relation "measure (\<lambda>(mem, data, len). nat len)") auto

declare tty_write_loop.simps [simp del]

definition goldfish_tty_write ::
  "(u32 \<Rightarrow> byte) \<Rightarrow> tty_state \<Rightarrow> u32 \<Rightarrow> u32 \<Rightarrow> (tty_state \<times> effect list) outcome" where
  "goldfish_tty_write mem s off value =
     (if off = TTY_PUT_CHAR then Inr (s, if tty_cs s then [Chr_write [ucast value]] else [])
      else if off = TTY_CMD then
        (if value = TTY_CMD_INT_DISABLE then
           (if tty_ready s \<noteq> 0
            then Inr (s\<lparr>tty_ready := 0\<rparr>, if data_count s > 0 then [Set_irq 0 0] else [])
            else Inr (s, []))
         else if value = TTY_CMD_INT_ENABLE then
           (if tty_ready s = 0
            then Inr (s\<lparr>tty_ready := 1\<rparr>, if data_count s > 0 then [Set_irq 0 1] else [])
            else Inr (s, []))
         else if value = TTY_CMD_WRITE_BUFFER then
           (if tty_cs s
            then map_sum id (\<lambda>es. (s, es)) (tty_write_loop mem (tty_ptr s) (sint (ptr_len s)))
            else Inr (s, []))
         else if value = TTY_CMD_READ_BUFFER then
           (if ptr_len s > data_count s then Inl Cpu_abort
            else if unat (data_count s) > length (tty_data s) then Inl Undefined
            else
              (let n = unat (ptr_len s);
                   c = unat (data_count s);
                   out = [Mem_write (tty_ptr s) (take n (tty_data s))];
                   s = (if data_count s > ptr_len s
                        then s\<lparr>tty_data := take (c - n) (drop n (tty_data s)) @ drop (c - n) (tty_data s)\<rparr>
                        else s);
                   s = s\<lparr>data_count := data_count s - ptr_len s\<rparr>
               in Inr (s, out @ (if data_count s = 0 \<and> tty_ready s \<noteq> 0 then [Set_irq 0 0] else []))))
         else Inl Cpu_abort)
      else if off = TTY_DATA_PTR then Inr (s\<lparr>tty_ptr := value\<rparr>, [])
      else if off = TTY_DATA_LEN then Inr (s\<lparr>ptr_len := value\<rparr>, [])
      else Inl Cpu_abort)"

definition tty_can_receive :: "tty_state \<Rightarrow> u32" where
  "tty_can_receive s = 128 - data_count s"

definition tty_receive :: "tty_state \<Rightarrow> byte list \<Rightarrow> (tty_state \<times> effect list) outcome" where
  "tty_receive s data =
     (case memcpy (tty_data s) (uint (data_count s)) data (int (length data)) of
        None \<Rightarrow> Inl Undefined
      | Some d \<Rightarrow>
          (let s = s\<lparr>tty_data := d, data_count := data_count s + of_nat (length data)\<rparr>
           in Inr (s, if data_count s > 0 \<and> tty_ready s \<noteq> 0 then [Set_irq 0 1] else [])))"

section \<open>Invariant and line\<close>

definition tty_wf :: "tty_state \<Rightarrow> bool" where
  "tty_wf s \<longleftrightarrow> length (tty_data s) = 128 \<and> unat (data_count s) \<le> 128"

definition tty_buffered :: "tty_state \<Rightarrow> byte list" where
  "tty_buffered s = take (unat (data_count s)) (tty_data s)"

definition tty_wants :: "tty_state \<Rightarrow> bool" where
  "tty_wants s \<longleftrightarrow> data_count s > 0 \<and> tty_ready s \<noteq> 0"

lemma unat_can_receive: "tty_wf s \<Longrightarrow> unat (tty_can_receive s) = 128 - unat (data_count s)"
  by (simp add: tty_wf_def tty_can_receive_def unat_sub_if_size word_le_nat_alt)

lemma unat_count_add:
  "unat (data_count s) + n \<le> 128 \<Longrightarrow> unat (data_count s + of_nat n) = unat (data_count s) + n"
  by (simp add: unat_word_ariths unat_of_nat)

lemma tty_receive_ok:
  assumes "tty_wf s" "length bs \<le> unat (tty_can_receive s)"
  shows "\<exists>s' es. tty_receive s bs = Inr (s', es) \<and> tty_wf s' \<and> tty_buffered s' = tty_buffered s @ bs \<and>
    line_after (tty_wants s) es = tty_wants s'"
proof -
  let ?c = "unat (data_count s)"
  have b: "?c + length bs \<le> 128" "length (tty_data s) = 128"
    using assms unat_can_receive [OF assms(1)] by (auto simp: tty_wf_def)
  let ?d = "take ?c (tty_data s) @ bs @ drop (?c + length bs) (tty_data s)"
  let ?s = "s\<lparr>tty_data := ?d, data_count := data_count s + of_nat (length bs)\<rparr>"
  have "memcpy (tty_data s) (int ?c) bs (int (length bs)) = Some ?d"
    using b by (simp del: of_nat_unat add: memcpy_def nat_add_distrib)
  then have m: "memcpy (tty_data s) (uint (data_count s)) bs (int (length bs)) = Some ?d" by simp
  then have "tty_receive s bs = Inr (?s, if data_count ?s > 0 \<and> tty_ready s \<noteq> 0 then [Set_irq 0 1] else [])"
    by (simp add: tty_receive_def Let_def)
  moreover have "tty_wf ?s" "tty_buffered ?s = tty_buffered s @ bs"
    using b by (simp_all add: tty_wf_def tty_buffered_def unat_count_add)
  moreover have "data_count s > 0 \<Longrightarrow> data_count ?s > 0"
    using unat_count_add [OF b(1)] by (simp add: word_less_nat_alt)
  ultimately show ?thesis by (auto simp: tty_wants_def)
qed

interpretation tty_sink: chr_sink tty_wf tty_buffered "\<lambda>s. unat (tty_can_receive s)" tty_receive
  by unfold_locales (use tty_receive_ok in blast)

text \<open>The transmit loop sends the guest buffer in order, in pieces of at most 64 bytes.\<close>

fun chr_bytes :: "effect list \<Rightarrow> byte list" where
  "chr_bytes [] = []"
| "chr_bytes (Chr_write bs # es) = bs @ chr_bytes es"
| "chr_bytes (_ # es) = chr_bytes es"

lemma mem_range_split: "mem_range mem a (m + n) = mem_range mem a m @ mem_range mem (a + of_nat m) n"
  by (rule nth_equalityI) (auto simp: mem_range_def nth_append add.assoc simp flip: of_nat_add)

lemma tty_write_loop_ok:
  "0 \<le> len \<Longrightarrow> \<exists>es. tty_write_loop mem a len = Inr es \<and> chr_bytes es = mem_range mem a (nat len) \<and>
     (\<forall>l. line_after l es = l) \<and> (\<forall>e \<in> set es. \<exists>bs. e = Chr_write bs \<and> length bs \<le> 64)"
proof (induction mem a len rule: tty_write_loop.induct)
  case (1 mem a len)
  show ?case
  proof (cases "len = 0")
    case True
    then show ?thesis by (subst tty_write_loop.simps) (simp add: mem_range_def)
  next
    case False
    define k where "k = (if 64 > len then len else 64)"
    have k: "0 < k" "k \<le> 64" "k \<le> len" using False 1(2) by (auto simp: k_def)
    then obtain es where es: "tty_write_loop mem (a + word_of_int k) (len - k) = Inr es"
        "chr_bytes es = mem_range mem (a + word_of_int k) (nat (len - k))" "\<forall>l. line_after l es = l"
        "\<forall>e \<in> set es. \<exists>bs. e = Chr_write bs \<and> length bs \<le> 64"
      using 1(1) [OF False k_def] by auto
    have "tty_write_loop mem a len = Inr (Chr_write (mem_range mem a (nat k)) # es)"
      using False k es(1) k_def by (subst tty_write_loop.simps) (simp add: Let_def)
    moreover have "mem_range mem a (nat len) =
        mem_range mem a (nat k) @ mem_range mem (a + word_of_int k) (nat (len - k))"
      using mem_range_split [of mem a "nat k" "nat (len - k)"] k by (simp flip: nat_add_distrib)
    moreover have "length (mem_range mem a (nat k)) \<le> 64" using k by (simp add: mem_range_def)
    ultimately show ?thesis using es by simp
  qed
qed

lemma tty_write_loop_cases:
  assumes "tty_write_loop mem a len = Inr es"
  shows "line_after l es = l"
proof (cases "0 \<le> len")
  case True
  then show ?thesis using tty_write_loop_ok [of len mem a] assms by auto
next
  case False
  then show ?thesis using assms by (subst (asm) tty_write_loop.simps) simp
qed

lemma sint_small: "unat (w :: u32) < 2 ^ 31 \<Longrightarrow> sint w = uint w"
proof -
  assume "unat w < 2 ^ 31"
  then have "int (unat w) < 2 ^ 31" by (metis of_nat_less_numeral_power_cancel_iff)
  then have "uint w < 2 ^ 31" by simp
  moreover have "- (2 ^ 31) \<le> uint w" by (rule order_trans [OF _ uint_ge_0]) simp
  ultimately have "signed_take_bit 31 (uint w) = uint w" by (rule signed_take_bit_int_eq_self [rotated])
  then show ?thesis by (simp add: sint_uint)
qed

lemma sint_big: "\<not> unat (w :: u32) < 2 ^ 31 \<Longrightarrow> sint w < 0"
proof -
  assume "\<not> unat w < 2 ^ 31"
  then have "int (unat w) \<ge> 2 ^ 31" by (metis not_less of_nat_less_numeral_power_cancel_iff)
  then have "2 ^ 31 \<le> uint w" "uint w < 2 ^ 32" using uint_lt2p [of w] by simp_all
  then have "uint w div 2 ^ 31 = 1" by simp
  then have "bit (uint w) 31" by (simp add: bit_iff_odd)
  then show ?thesis by (simp add: sint_uint signed_take_bit_negative_iff)
qed

text \<open>The DMA read takes the first bytes of the buffer.\<close>

lemma tty_read_buffer:
  assumes "tty_wf s" "ptr_len s \<le> data_count s"
  shows "\<exists>s' es. goldfish_tty_write mem s TTY_CMD TTY_CMD_READ_BUFFER = Inr (s', Mem_write (tty_ptr s) (take (unat (ptr_len s)) (tty_buffered s)) # es) \<and>
    tty_wf s' \<and> tty_buffered s' = drop (unat (ptr_len s)) (tty_buffered s) \<and>
    line_after (tty_wants s) es = tty_wants s'"
proof -
  let ?n = "unat (ptr_len s)" and ?c = "unat (data_count s)"
  have le: "?n \<le> ?c" "?c \<le> 128" "length (tty_data s) = 128"
    using assms by (auto simp: tty_wf_def word_le_nat_alt)
  have sub: "unat (data_count s - ptr_len s) = ?c - ?n" using assms(2) by (simp add: unat_sub_if_size word_le_nat_alt)
  define s1 where "s1 = (if data_count s > ptr_len s
      then s\<lparr>tty_data := take (?c - ?n) (drop ?n (tty_data s)) @ drop (?c - ?n) (tty_data s)\<rparr> else s)"
  define s2 where "s2 = s1\<lparr>data_count := data_count s - ptr_len s\<rparr>"
  have f: "data_count s1 = data_count s" "ptr_len s1 = ptr_len s" "tty_ready s1 = tty_ready s"
    by (simp_all add: s1_def)
  have w: "goldfish_tty_write mem s TTY_CMD TTY_CMD_READ_BUFFER =
      Inr (s2, Mem_write (tty_ptr s) (take ?n (tty_data s)) #
        (if data_count s2 = 0 \<and> tty_ready s2 \<noteq> 0 then [Set_irq 0 0] else []))"
    using assms(2) le f
    by (simp add: goldfish_tty_write_def tty_regs Let_def s1_def [symmetric] s2_def not_less)
  have b: "tty_wf s2 \<and> tty_buffered s2 = drop ?n (tty_buffered s)"
  proof (cases "data_count s > ptr_len s")
    case True
    then show ?thesis using le sub by (simp add: s1_def s2_def tty_wf_def tty_buffered_def drop_take)
  next
    case False
    then have "?n = ?c" using le by (simp add: word_less_nat_alt)
    then show ?thesis using le sub by (simp add: s1_def s2_def tty_wf_def tty_buffered_def)
  qed
  have "data_count s2 > 0 \<Longrightarrow> data_count s > 0" using sub by (simp add: s2_def word_less_nat_alt)
  then have "line_after (tty_wants s) (if data_count s2 = 0 \<and> tty_ready s2 \<noteq> 0 then [Set_irq 0 0] else []) = tty_wants s2"
    using f by (auto simp: tty_wants_def s2_def word_gt_0)
  moreover have "take ?n (tty_data s) = take ?n (tty_buffered s)" using le by (simp add: tty_buffered_def)
  ultimately show ?thesis using w b by auto
qed

datatype tty_op = Tty_mmio mmio | Tty_receive "byte list"

text \<open>
  One step of the device. The host character device asks \<open>tty_can_receive\<close> first, as
  \<open>qemu_chr_can_read\<close> makes every backend do, and hands over at most that many bytes.
\<close>

fun tty_step :: "(u32 \<Rightarrow> byte) \<Rightarrow> tty_state \<Rightarrow> tty_op \<Rightarrow> (tty_state \<times> effect list) outcome" where
  "tty_step mem s (Tty_mmio (Mmio_read off)) = map_sum id (\<lambda>v. (s, [])) (goldfish_tty_read s off)"
| "tty_step mem s (Tty_mmio (Mmio_write off v)) = goldfish_tty_write mem s off v"
| "tty_step mem s (Tty_receive bs) = tty_receive s (take (unat (tty_can_receive s)) bs)"

lemma tty_write_line:
  assumes "tty_wf s" "goldfish_tty_write mem s off v = Inr (s', es)"
  shows "tty_wf s' \<and> line_after (tty_wants s) es = tty_wants s'"
proof (cases "off = TTY_CMD \<and> v = TTY_CMD_READ_BUFFER")
  case True
  then have "ptr_len s \<le> data_count s"
    using assms(2) by (auto simp: goldfish_tty_write_def tty_regs not_less split: if_splits)
  from tty_read_buffer [OF assms(1) this, of mem] show ?thesis using True assms(2) by auto
next
  case False
  then show ?thesis using assms
    by (auto simp: goldfish_tty_write_def tty_wf_def tty_wants_def map_sum_Inr_iff tty_write_loop_cases
        split: if_splits)
qed

lemma tty_step_line:
  assumes "tty_wf s" "tty_step mem s x = Inr (s', es)"
  shows "tty_wf s' \<and> line_after (tty_wants s) es = tty_wants s'"
proof (cases "(mem, s, x)" rule: tty_step.cases)
  case (1 mem s off)
  then show ?thesis using assms by (auto simp: map_sum_Inr_iff)
next
  case (2 mem s off v)
  then show ?thesis using assms tty_write_line by auto
next
  case (3 mem s bs)
  then show ?thesis
    using assms tty_receive_ok [OF assms(1), of "take (unat (tty_can_receive s)) bs"] by auto
qed

interpretation tty_line: level_device tty_wf tty_wants "tty_step mem"
  by unfold_locales (use tty_step_line in blast)+

lemma tty_write_loop_single: "tty_write_loop mem a n = Inr es \<Longrightarrow> single_line es"
proof (induction mem a n arbitrary: es rule: tty_write_loop.induct)
  case (1 mem a n)
  show ?case
  proof (cases "n \<le> 0")
    case True
    then show ?thesis using "1.prems" by (auto simp: tty_write_loop.simps [of mem a n] split: if_splits)
  next
    case False
    define w where "w = (if 64 > n then n else 64)"
    have w: "\<not> w < 0" "n \<noteq> 0" using False by (auto simp: w_def)
    from "1.prems" w obtain es' where "tty_write_loop mem (a + word_of_int w) (n - w) = Inr es'"
      "es = Chr_write (mem_range mem a (nat w)) # es'"
      by (simp add: tty_write_loop.simps [of mem a n] Let_def map_sum_Inr_iff flip: w_def) blast
    then show ?thesis using "1.IH" [OF w(2) refl] w unfolding w_def by simp
  qed
qed

lemma tty_step_single: "tty_step mem s x = Inr (s', es) \<Longrightarrow> single_line es"
  by (induction mem s x rule: tty_step.induct)
    (auto simp: goldfish_tty_read_def goldfish_tty_write_def tty_receive_def Let_def
      map_sum_Inr_iff tty_write_loop_single split: if_splits option.splits sum.splits)

interpretation tty_board: wired_device tty_wf tty_wants "tty_step mem"
  by unfold_locales (rule tty_step_single)

lemma tty_add_wf: "tty_wf (goldfish_tty_add cs)" "\<not> tty_wants (goldfish_tty_add cs)"
  "tty_buffered (goldfish_tty_add cs) = []"
  by (simp_all add: goldfish_tty_add_def tty_wf_def tty_wants_def tty_buffered_def)

section \<open>Properties\<close>

text \<open>
  Remark (invariant). The serial port's line is high exactly when bytes are waiting and the
  guest enabled the interrupt, after any sequence of register accesses and received data.
\<close>

theorem tty_irq_in_step:
  assumes "device_run (tty_step mem) (goldfish_tty_add cs) False xs = Inr (s', l)"
  shows "l \<longleftrightarrow> data_count s' > 0 \<and> tty_ready s' \<noteq> 0"
proof -
  have "device_run (tty_step mem) (goldfish_tty_add cs) (tty_wants (goldfish_tty_add cs)) xs = Inr (s', l)"
    using assms tty_add_wf(2) [of cs] by simp
  from tty_line.run_line [OF tty_add_wf(1) this] show ?thesis by (simp add: tty_wants_def)
qed

theorem tty_irq_in_step_witness:
  "\<exists>s' l. device_run (tty_step (\<lambda>a. 0)) (goldfish_tty_add True) False
      [Tty_mmio (Mmio_write TTY_CMD TTY_CMD_INT_ENABLE)] = Inr (s', l) \<and>
    (l \<longleftrightarrow> data_count s' > 0 \<and> tty_ready s' \<noteq> 0)"
proof -
  have r: "device_run (tty_step (\<lambda>a. 0)) (goldfish_tty_add True) False
      [Tty_mmio (Mmio_write TTY_CMD TTY_CMD_INT_ENABLE)] = Inr ((goldfish_tty_add True)\<lparr>tty_ready := 1\<rparr>, False)"
    by (simp add: goldfish_tty_write_def tty_regs goldfish_tty_add_def)
  from tty_irq_in_step [OF r] r show ?thesis by blast
qed

text \<open>
  A session of the receive side: data offered by the host, and guest reads of \<open>n\<close> bytes through
  the length register and the read command. It returns what the device accepted and what the guest
  was given.
\<close>

datatype tty_io = Rx "byte list" | Dma_read u32

fun dma_bytes :: "effect list \<Rightarrow> byte list" where
  "dma_bytes (Mem_write a bs # es) = bs"
| "dma_bytes _ = []"

fun tty_session :: "(u32 \<Rightarrow> byte) \<Rightarrow> tty_state \<Rightarrow> tty_io list \<Rightarrow> (tty_state \<times> byte list \<times> byte list) outcome" where
  "tty_session mem s [] = Inr (s, [], [])"
| "tty_session mem s (Rx bs # xs) =
     (case tty_step mem s (Tty_receive bs) of Inl e \<Rightarrow> Inl e
      | Inr (s', es) \<Rightarrow>
          map_sum id (\<lambda>(r, acc, out). (r, take (unat (tty_can_receive s)) bs @ acc, out)) (tty_session mem s' xs))"
| "tty_session mem s (Dma_read n # xs) =
     (case goldfish_tty_write mem s TTY_DATA_LEN n of Inl e \<Rightarrow> Inl e
      | Inr (s, es) \<Rightarrow>
        (case goldfish_tty_write mem s TTY_CMD TTY_CMD_READ_BUFFER of Inl e \<Rightarrow> Inl e
         | Inr (s', es) \<Rightarrow>
             map_sum id (\<lambda>(r, acc, out). (r, acc, dma_bytes es @ out)) (tty_session mem s' xs)))"

lemma tty_session_stream:
  "tty_wf s \<Longrightarrow> (case tty_session mem s xs of Inl e \<Rightarrow> e = Cpu_abort
     | Inr (s', acc, out) \<Rightarrow> out @ tty_buffered s' = tty_buffered s @ acc)"
proof (induction xs arbitrary: s)
  case Nil
  then show ?case by simp
next
  case (Cons x xs)
  show ?case
  proof (cases x)
    case (Rx bs)
    obtain s1 es where s1: "tty_receive s (take (unat (tty_can_receive s)) bs) = Inr (s1, es)" "tty_wf s1"
        "tty_buffered s1 = tty_buffered s @ take (unat (tty_can_receive s)) bs"
      using tty_receive_ok [OF Cons.prems, of "take (unat (tty_can_receive s)) bs"] by auto
    with Cons.IH [OF s1(2)] Rx show ?thesis by (auto split: sum.splits)
  next
    case (Dma_read n)
    let ?s = "s\<lparr>ptr_len := n\<rparr>"
    have wf: "tty_wf ?s" "tty_buffered ?s = tty_buffered s"
      using Cons.prems by (simp_all add: tty_wf_def tty_buffered_def)
    have set: "goldfish_tty_write mem s TTY_DATA_LEN n = Inr (?s, [])"
      by (simp add: goldfish_tty_write_def tty_regs)
    show ?thesis
    proof (cases "n \<le> data_count s")
      case True
      then obtain s1 es where s1: "goldfish_tty_write mem ?s TTY_CMD TTY_CMD_READ_BUFFER =
            Inr (s1, Mem_write (tty_ptr s) (take (unat n) (tty_buffered s)) # es)" "tty_wf s1"
          "tty_buffered s1 = drop (unat n) (tty_buffered s)"
        using tty_read_buffer [OF wf(1), of mem] wf(2) by auto
      with Cons.IH [OF s1(2)] set Dma_read show ?thesis
        by (auto split: sum.splits)
    next
      case False
      then have "data_count s < n" by simp
      then show ?thesis using set Dma_read by (simp add: goldfish_tty_write_def tty_regs)
    qed
  qed
qed

text \<open>
  Property C23 (safety). The receive side never writes or reads outside its 128-byte buffer and
  never loses, duplicates or reorders a byte: whatever the host offers and however the guest reads,
  the bytes given to the guest followed by those still buffered are the bytes accepted; a guest that
  asks for more than is there stops the emulator.
\<close>

theorem tty_receive_stream:
  "case tty_session mem (goldfish_tty_add cs) xs of Inl e \<Rightarrow> e = Cpu_abort
   | Inr (s', acc, out) \<Rightarrow> out @ tty_buffered s' = acc"
  using tty_session_stream [OF tty_add_wf(1), of cs mem xs] by (simp only: tty_add_wf(3) append_Nil)

text \<open>
  Remark (functional). The transmit command sends exactly the guest's buffer, in order and in
  pieces of at most 64 bytes, and terminates; a length of \<open>2 ^ 31\<close> or more is a negative \<open>int\<close> in the
  handler and reaches the host device as a negative length.
\<close>

theorem tty_transmit:
  assumes "tty_cs s"
  shows "if unat (ptr_len s) < 2 ^ 31
    then \<exists>es. goldfish_tty_write mem s TTY_CMD TTY_CMD_WRITE_BUFFER = Inr (s, es) \<and>
      chr_bytes es = mem_range mem (tty_ptr s) (unat (ptr_len s)) \<and>
      (\<forall>e \<in> set es. \<exists>bs. e = Chr_write bs \<and> length bs \<le> 64)
    else goldfish_tty_write mem s TTY_CMD TTY_CMD_WRITE_BUFFER = Inl Undefined"
proof (cases "unat (ptr_len s) < 2 ^ 31")
  case True
  obtain es where "tty_write_loop mem (tty_ptr s) (sint (ptr_len s)) = Inr es"
      "chr_bytes es = mem_range mem (tty_ptr s) (unat (ptr_len s))"
      "\<forall>e \<in> set es. \<exists>bs. e = Chr_write bs \<and> length bs \<le> 64"
    using tty_write_loop_ok [of "sint (ptr_len s)" mem "tty_ptr s"] sint_small [OF True]
    by (auto simp: nat_uint_eq)
  then show ?thesis using True assms by (simp add: goldfish_tty_write_def tty_regs)
next
  case False
  then have "sint (ptr_len s) < 0" by (simp add: sint_big)
  then show ?thesis using False assms
    by (subst (1) if_not_P) (auto simp: goldfish_tty_write_def tty_regs tty_write_loop.simps [of mem "tty_ptr s"])
qed

theorem tty_transmit_witness:
  "\<exists>es. goldfish_tty_write (\<lambda>a. ucast a) ((goldfish_tty_add True)\<lparr>ptr_len := 100\<rparr>) TTY_CMD TTY_CMD_WRITE_BUFFER =
     Inr ((goldfish_tty_add True)\<lparr>ptr_len := 100\<rparr>, es) \<and> chr_bytes es = mem_range (\<lambda>a. ucast a) 0 100"
  using tty_transmit [of "(goldfish_tty_add True)\<lparr>ptr_len := 100\<rparr>" "\<lambda>a. ucast a"]
  by (auto simp: goldfish_tty_add_def)

lemma tty_save_load:
  assumes "tty_wf s" and "tty_wf t" and "unat (tty_ready s) < 256"
  shows "\<exists>t'. goldfish_tty_load t (concat (map op_bytes (goldfish_tty_save s)) @ r) GOLDFISH_TTY_SAVE_VERSION =
      Inr (0, t', r) \<and> tty_wf t' \<and> tty_buffered t' = tty_buffered s \<and> tty_ptr t' = tty_ptr s \<and>
    ptr_len t' = ptr_len s \<and> tty_ready t' = tty_ready s \<and> data_count t' = data_count s"
proof -
  have b: "unat (data_count s) \<le> 128" "length (tty_data s) = 128" "length (tty_data t) = 128"
    using assms by (auto simp: tty_wf_def)
  have rt: "unat w < 256 \<Longrightarrow> ucast (ucast w :: byte) = w" for w :: u32
    by (rule word_unat_eq_iff [THEN iffD2]) (simp add: unsigned_ucast_eq unsigned_take_bit_eq take_bit_nat_eq_self)
  have c: "unat (ucast (data_count s) :: byte) = unat (data_count s)"
    using b by (simp add: unsigned_ucast_eq take_bit_eq_mod)
  show ?thesis
    using assms b rt [OF assms(3)] rt [of "data_count s"] c
    by (simp add: Let_def goldfish_tty_load_def goldfish_tty_save_def memcpy_def tty_wf_def tty_buffered_def min_def)
qed

text \<open>
  Remark (roundtrip). A snapshot restores the registers and the buffered bytes of the port and
  consumes exactly what was saved.
\<close>

theorem tty_snapshot_roundtrip:
  assumes "tty_wf s" and "tty_wf t" and "unat (tty_ready s) < 256"
  shows "\<exists>t'. goldfish_tty_load t (concat (map op_bytes (goldfish_tty_save s)) @ r) GOLDFISH_TTY_SAVE_VERSION =
      Inr (0, t', r) \<and> tty_wf t' \<and> tty_buffered t' = tty_buffered s \<and> tty_ptr t' = tty_ptr s \<and>
    ptr_len t' = ptr_len s \<and> tty_ready t' = tty_ready s \<and> data_count t' = data_count s"
  using assms by (rule tty_save_load)

theorem tty_snapshot_roundtrip_witness:
  "\<exists>t'. goldfish_tty_load (goldfish_tty_add True)
      (concat (map op_bytes (goldfish_tty_save (goldfish_tty_add True)))) GOLDFISH_TTY_SAVE_VERSION =
      Inr (0, t', []) \<and> tty_buffered t' = []"
proof -
  have "unat (tty_ready (goldfish_tty_add True)) < 256" by (simp add: goldfish_tty_add_def)
  from tty_snapshot_roundtrip [OF tty_add_wf(1) tty_add_wf(1) this, of True "[]"] show ?thesis
    by (auto simp: tty_add_wf(3))
qed

text \<open>
  Remark (error). The load handler trusts the count byte of the snapshot: a count above 128
  with that many bytes behind it writes past the end of the buffer.
\<close>

theorem tty_load_overflow:
  "goldfish_tty_load (goldfish_tty_add cs)
     (be32_bytes 0 @ be32_bytes 0 @ [1, 200] @ replicate 200 0) GOLDFISH_TTY_SAVE_VERSION = Inl Undefined"
  by (simp add: goldfish_tty_load_def goldfish_tty_add_def memcpy_def)

end
