(* ===== verification/Goldfish_Nand.thy ===== *)
theory Goldfish_Nand
  imports Goldfish_Tty
begin

unbundle bit_operations_syntax

text \<open>
  The flash devices of the board (\<open>hw/goldfish_nand.c\<close>): images in host files that the guest reads, writes and
  erases by commands on a register window, with the data in guest memory.

  A host file is its bytes, the position and the size up to which the host can store it; reads return what is there,
  writes what fits, and a write when nothing fits fails with \<open>-1\<close>. Guest memory is a function; \<open>None\<close> is a command
  that does not return.
\<close>

section \<open>Guest memory and host files\<close>

type_synonym guest_mem = "u32 \<Rightarrow> byte"

definition mem_put :: "guest_mem \<Rightarrow> u32 \<Rightarrow> byte list \<Rightarrow> guest_mem" where
  "mem_put mem a bs = (\<lambda>x. if unat (x - a) < length bs then bs ! unat (x - a) else mem x)"

text \<open>The length of \<open>cpu_memory_rw_debug\<close> is an \<open>int\<close>: a negative one copies nothing.\<close>

definition rw_len :: "nat \<Rightarrow> nat" where
  "rw_len n = (if n < 2 ^ 31 then n else 0)"

record host_file =
  fbytes :: "byte list"
  fpos :: nat
  fcap :: nat

definition file_lseek :: "nat \<Rightarrow> host_file \<Rightarrow> host_file" where
  "file_lseek pos f = f\<lparr>fpos := pos\<rparr>"

definition do_read :: "host_file \<Rightarrow> nat \<Rightarrow> byte list \<times> host_file" where
  "do_read f n = (let bs = take n (drop (fpos f) (fbytes f)) in (bs, f\<lparr>fpos := fpos f + length bs\<rparr>))"

text \<open>What a file holds after a store: a gap before the position is filled with zeros.\<close>

definition file_store :: "byte list \<Rightarrow> nat \<Rightarrow> byte list \<Rightarrow> byte list" where
  "file_store bytes pos bs = take pos (bytes @ replicate (pos - length bytes) 0) @ bs @ drop (pos + length bs) bytes"

definition do_write :: "host_file \<Rightarrow> byte list \<Rightarrow> int \<times> host_file" where
  "do_write f bs =
     (if bs = [] then (0, f)
      else if fpos f \<ge> fcap f then (-1, f)
      else
        (let bs = take (fcap f - fpos f) bs
         in (int (length bs), f\<lparr>fbytes := file_store (fbytes f) (fpos f) bs, fpos := fpos f + length bs\<rparr>)))"

section \<open>Devices\<close>

definition NAND_DEV_FLAG_READ_ONLY :: u32 where "NAND_DEV_FLAG_READ_ONLY = 1"
definition NAND_VERSION_CURRENT :: u32 where "NAND_VERSION_CURRENT = 1"

text \<open>\<open>nbuf\<close> is the buffer \<open>data\<close> of \<open>erase_size\<close> bytes; \<open>fd\<close> is \<open>None\<close> when the file could not be opened.\<close>

record nand_dev =
  devname :: "byte list"
  nbuf :: "byte list"
  fd :: "host_file option"
  nflags :: u32
  page_size :: u32
  extra_size :: u32
  erase_size :: u32
  nsize :: "64 word"

record nand_dev_state =
  ns_dev :: u32
  addr_low :: u32
  addr_high :: u32
  transfer_size :: u32
  ns_data :: u32
  ns_result :: u32

record nand =
  nregs :: nand_dev_state
  ndevs :: "nand_dev list"

text \<open>
  The loop of \<open>nand_dev_read_file\<close>, at a file position that \<open>lseek\<close> has set: \<open>read_len\<close> is the length of the last read,
  and a short one means the end of the file, after which the buffer is filled with \<open>0xff\<close>. With an erase size of
  zero the loop does not end.
\<close>

function read_loop ::
  "nat \<Rightarrow> host_file \<Rightarrow> byte list \<Rightarrow> guest_mem \<Rightarrow> u32 \<Rightarrow> nat \<Rightarrow> nat \<Rightarrow> bool \<Rightarrow> (host_file \<times> byte list \<times> guest_mem) option" where
  "read_loop es f b mem data len read_len eof =
     (if len = 0 then Some (f, b, mem)
      else if es = 0 then None
      else
        (let eof' = (eof \<or> read_len < es);
             b = (if read_len < es then replicate es 0xff else b);
             read_len = (if read_len < es then es else read_len);
             want = (if len < read_len then len else read_len);
             (bs, f) = (if eof' then (take want b, f) else do_read f want);
             b = (if eof' then b else bs @ drop (length bs) b);
             got = (if eof' then want else length bs)
         in read_loop es f b (mem_put mem data (take (rw_len got) b)) (data + of_nat got) (len - got) got eof'))"
  by pat_completeness auto
termination
  by (relation "measures [\<lambda>(es, f, b, mem, data, len, read_len, eof). len,
       \<lambda>(es, f, b, mem, data, len, read_len, eof). if read_len < es then 0 else 1]")
    (auto simp: do_read_def Let_def split: if_splits)


declare read_loop.simps [simp del]

text \<open>
  The loops that write: \<open>ret < write_len\<close> compares an \<open>int\<close> with a \<open>size_t\<close>, so a result of \<open>-1\<close> is larger than every length.
  \<open>next_bytes\<close> are the contents of the buffer for the next piece: guest memory, or the erased pattern. A
  write length of zero, from an erase size of zero, does not end.
\<close>

function write_loop ::
  "(u32 \<Rightarrow> nat \<Rightarrow> byte list \<Rightarrow> byte list) \<Rightarrow> host_file \<Rightarrow> byte list \<Rightarrow> u32 \<Rightarrow> nat \<Rightarrow> nat \<Rightarrow> (nat \<times> host_file \<times> byte list) option" where
  "write_loop next_bytes f b data len write_len =
     (if len = 0 then Some (0, f, b)
      else
        (let want = (if len < write_len then len else write_len);
             b = next_bytes data want b;
             (ret, f) = do_write f (take want b)
         in if 0 \<le> ret \<and> ret < int want then Some (len, f, b)
            else if want = 0 then None
            else write_loop next_bytes f b (data + of_nat want) (len - want) want))"
  by pat_completeness auto
termination by (relation "measure (\<lambda>(nb, f, b, data, len, wl). len)") auto

declare write_loop.simps [simp del]

text \<open>Guest memory copied over the start of the buffer, and the buffer that \<open>memset\<close> has filled.\<close>

definition from_guest :: "guest_mem \<Rightarrow> u32 \<Rightarrow> nat \<Rightarrow> byte list \<Rightarrow> byte list" where
  "from_guest mem data n b = mem_range mem data (rw_len n) @ drop (rw_len n) b"

definition erased :: "u32 \<Rightarrow> nat \<Rightarrow> byte list \<Rightarrow> byte list" where
  "erased data n b = b"

text \<open>The file commands: the result, the device and guest memory.\<close>

definition nand_dev_read_file :: "nand_dev \<Rightarrow> host_file \<Rightarrow> guest_mem \<Rightarrow> u32 \<Rightarrow> nat \<Rightarrow> u32 \<Rightarrow> (u32 \<times> nand_dev \<times> guest_mem) option" where
  "nand_dev_read_file dev f mem data addr total_len =
     (let es = unat (erase_size dev)
      in map_option (\<lambda>(f, b, mem). (total_len, dev\<lparr>fd := Some f, nbuf := b\<rparr>, mem))
           (read_loop es (file_lseek addr f) (nbuf dev) mem data (unat total_len) es False))"

definition nand_dev_write_file :: "nand_dev \<Rightarrow> host_file \<Rightarrow> guest_mem \<Rightarrow> u32 \<Rightarrow> nat \<Rightarrow> u32 \<Rightarrow> (u32 \<times> nand_dev) option" where
  "nand_dev_write_file dev f mem data addr total_len =
     (let es = unat (erase_size dev)
      in map_option (\<lambda>(len, f, b). (total_len - of_nat len, dev\<lparr>fd := Some f, nbuf := b\<rparr>))
           (write_loop (from_guest mem) (file_lseek addr f) (nbuf dev) data (unat total_len) es))"

definition nand_dev_erase_file :: "nand_dev \<Rightarrow> host_file \<Rightarrow> nat \<Rightarrow> u32 \<Rightarrow> (u32 \<times> nand_dev) option" where
  "nand_dev_erase_file dev f addr total_len =
     (let es = unat (erase_size dev)
      in map_option (\<lambda>(len, f, b). (total_len - of_nat len, dev\<lparr>fd := Some f, nbuf := b\<rparr>))
           (write_loop erased (file_lseek addr f) (replicate es 0xff) 0 (unat total_len) es))"

section \<open>Commands and registers\<close>

definition cmd_addr :: "nand_dev_state \<Rightarrow> 64 word" where
  "cmd_addr s = ucast (addr_low s) OR push_bit 32 (ucast (addr_high s))"

text \<open>The size of a transfer at \<open>addr\<close>, cut at the end of the device.\<close>

definition cmd_size :: "nand_dev \<Rightarrow> 64 word \<Rightarrow> u32 \<Rightarrow> u32" where
  "cmd_size dev addr sz = (if ucast sz + addr > nsize dev then ucast (nsize dev - addr) else sz)"

type_synonym nand_result = "(u32 \<times> nand_dev \<times> guest_mem) outcome option"

text \<open>The part of \<open>data\<close> that a command without a file works on; outside the buffer it is \<open>Undefined\<close>.\<close>

definition in_buffer :: "nand_dev \<Rightarrow> 64 word \<Rightarrow> u32 \<Rightarrow> bool" where
  "in_buffer dev addr sz \<longleftrightarrow> unat addr + unat sz \<le> length (nbuf dev)"

definition nand_cmd_read :: "nand_dev \<Rightarrow> guest_mem \<Rightarrow> nand_dev_state \<Rightarrow> nand_result" where
  "nand_cmd_read dev mem s =
     (let addr = cmd_addr s
      in if addr \<ge> nsize dev then Some (Inr (0, dev, mem))
         else
           (let sz = cmd_size dev addr (transfer_size s)
            in case fd dev of
                 Some f \<Rightarrow> map_option Inr (nand_dev_read_file dev f mem (ns_data s) (unat addr) sz)
               | None \<Rightarrow>
                   if in_buffer dev addr sz
                   then Some (Inr (sz, dev,
                     mem_put mem (ns_data s) (take (rw_len (unat sz)) (drop (unat addr) (nbuf dev)))))
                   else Some (Inl Undefined)))"

definition nand_cmd_write :: "nand_dev \<Rightarrow> guest_mem \<Rightarrow> nand_dev_state \<Rightarrow> nand_result" where
  "nand_cmd_write dev mem s =
     (let addr = cmd_addr s
      in if nflags dev AND NAND_DEV_FLAG_READ_ONLY \<noteq> 0 then Some (Inr (0, dev, mem))
         else if addr \<ge> nsize dev then Some (Inr (0, dev, mem))
         else
           (let sz = cmd_size dev addr (transfer_size s)
            in case fd dev of
                 Some f \<Rightarrow> map_option (\<lambda>(r, dev). Inr (r, dev, mem)) (nand_dev_write_file dev f mem (ns_data s) (unat addr) sz)
               | None \<Rightarrow>
                   if in_buffer dev addr sz
                   then Some (Inr (sz, dev\<lparr>nbuf := take (unat addr) (nbuf dev) @
                     from_guest mem (ns_data s) (unat sz) (drop (unat addr) (nbuf dev))\<rparr>, mem))
                   else Some (Inl Undefined)))"

definition nand_cmd_erase :: "nand_dev \<Rightarrow> guest_mem \<Rightarrow> nand_dev_state \<Rightarrow> nand_result" where
  "nand_cmd_erase dev mem s =
     (let addr = cmd_addr s
      in if nflags dev AND NAND_DEV_FLAG_READ_ONLY \<noteq> 0 then Some (Inr (0, dev, mem))
         else if addr \<ge> nsize dev then Some (Inr (0, dev, mem))
         else
           (let sz = cmd_size dev addr (transfer_size s)
            in case fd dev of
                 Some f \<Rightarrow> map_option (\<lambda>(r, dev). Inr (r, dev, mem)) (nand_dev_erase_file dev f (unat addr) sz)
               | None \<Rightarrow>
                   if in_buffer dev addr sz
                   then Some (Inr (sz, dev\<lparr>nbuf := take (unat addr) (nbuf dev) @ replicate (unat sz) 0xff @
                     drop (unat addr + unat sz) (nbuf dev)\<rparr>, mem))
                   else Some (Inl Undefined)))"

definition nand_dev_do_cmd :: "nand_dev \<Rightarrow> guest_mem \<Rightarrow> nand_dev_state \<Rightarrow> u32 \<Rightarrow> nand_result" where
  "nand_dev_do_cmd dev mem s cmd =
     (if cmd = 0 then
        (let sz = (if transfer_size s > of_nat (length (devname dev)) then of_nat (length (devname dev)) else transfer_size s)
         in Some (Inr (sz, dev, mem_put mem (ns_data s) (take (rw_len (unat sz)) (devname dev)))))
      else if cmd = 1 then nand_cmd_read dev mem s
      else if cmd = 2 then nand_cmd_write dev mem s
      else if cmd = 3 then nand_cmd_erase dev mem s
      else if cmd = 4 then Some (Inr (0, dev, mem))
      else if cmd = 5 then Some (Inr (0, dev, mem))
      else Some (Inl Cpu_abort))"

definition nand_command :: "nand \<Rightarrow> guest_mem \<Rightarrow> u32 \<Rightarrow> (nand \<times> guest_mem) outcome option" where
  "nand_command n mem cmd =
     (let s = nregs n; i = unat (ns_dev s)
      in if i \<ge> length (ndevs n) then Some (Inr (n\<lparr>nregs := s\<lparr>ns_result := 0\<rparr>\<rparr>, mem))
         else map_option (map_sum id (\<lambda>(r, dev, mem). (n\<lparr>nregs := s\<lparr>ns_result := r\<rparr>, ndevs := (ndevs n)[i := dev]\<rparr>, mem)))
                (nand_dev_do_cmd (ndevs n ! i) mem s cmd))"

definition nand_dev_write :: "nand \<Rightarrow> guest_mem \<Rightarrow> u32 \<Rightarrow> u32 \<Rightarrow> (nand \<times> guest_mem) outcome option" where
  "nand_dev_write n mem off value =
     (let s = nregs n
      in if off = 0x008 then
           (if unat value \<ge> length (ndevs n) then Some (Inl Cpu_abort) else Some (Inr (n\<lparr>nregs := s\<lparr>ns_dev := value\<rparr>\<rparr>, mem)))
         else if off = 0x054 then Some (Inr (n\<lparr>nregs := s\<lparr>addr_high := value\<rparr>\<rparr>, mem))
         else if off = 0x050 then Some (Inr (n\<lparr>nregs := s\<lparr>addr_low := value\<rparr>\<rparr>, mem))
         else if off = 0x04c then Some (Inr (n\<lparr>nregs := s\<lparr>transfer_size := value\<rparr>\<rparr>, mem))
         else if off = 0x048 then Some (Inr (n\<lparr>nregs := s\<lparr>ns_data := value\<rparr>\<rparr>, mem))
         else if off = 0x044 then nand_command n mem value
         else Some (Inl Cpu_abort))"

definition nand_dev_read :: "nand \<Rightarrow> u32 \<Rightarrow> u32 outcome" where
  "nand_dev_read n off =
     (let s = nregs n; i = unat (ns_dev s); dev = ndevs n ! i
      in if off = 0x000 then Inr NAND_VERSION_CURRENT
         else if off = 0x004 then Inr (of_nat (length (ndevs n)))
         else if off = 0x040 then Inr (ns_result s)
         else if i \<ge> length (ndevs n) then Inr 0
         else if off = 0x010 then Inr (nflags dev)
         else if off = 0x014 then Inr (of_nat (length (devname dev)))
         else if off = 0x018 then Inr (page_size dev)
         else if off = 0x01c then Inr (extra_size dev)
         else if off = 0x020 then Inr (erase_size dev)
         else if off = 0x028 then Inr (ucast (nsize dev))
         else if off = 0x02c then Inr (ucast (drop_bit 32 (nsize dev)))
         else Inl Cpu_abort)"

definition nand_dev_init :: nand where
  "nand_dev_init = \<lparr>nregs = \<lparr>ns_dev = 0, addr_low = 0, addr_high = 0, transfer_size = 0, ns_data = 0, ns_result = 0\<rparr>, ndevs = []\<rparr>"


section \<open>The flash seen by the guest\<close>

text \<open>Past the end of the file the flash reads as erased.\<close>

definition flash :: "byte list \<Rightarrow> nat \<Rightarrow> byte" where
  "flash bytes i = (if i < length bytes then bytes ! i else 0xff)"

definition flash_range :: "byte list \<Rightarrow> nat \<Rightarrow> nat \<Rightarrow> byte list" where
  "flash_range bytes a n = map (flash bytes) [a..<a + n]"

lemma length_flash_range [simp]: "length (flash_range bytes a n) = n"
  by (simp add: flash_range_def)

lemma flash_range_split: "k \<le> n \<Longrightarrow> flash_range bytes a n = flash_range bytes a k @ flash_range bytes (a + k) (n - k)"
  by (simp add: flash_range_def map_append [symmetric] upt_add_eq_append [symmetric] del: map_append upt_add_eq_append)
    (metis add.assoc le_add_diff_inverse le_add1 upt_add_eq_append map_append)

lemma flash_range_in: "a + n \<le> length bytes \<Longrightarrow> flash_range bytes a n = take n (drop a bytes)"
  by (rule nth_equalityI) (auto simp: flash_range_def flash_def)

lemma flash_range_beyond: "length bytes \<le> a \<Longrightarrow> flash_range bytes a n = replicate n 0xff"
  by (rule nth_equalityI) (auto simp: flash_range_def flash_def)

lemma mem_put_nil [simp]: "mem_put mem a [] = mem"
  by (simp add: mem_put_def)

lemma mem_put_append:
  assumes "length xs + length ys \<le> 2 ^ 32"
  shows "mem_put (mem_put mem a xs) (a + of_nat (length xs)) ys = mem_put mem a (xs @ ys)"
proof
  fix x
  let ?d = "x - a" and ?k = "length xs"
  have e: "x - (a + of_nat ?k) = ?d - of_nat ?k" by simp
  show "mem_put (mem_put mem a xs) (a + of_nat ?k) ys x = mem_put mem a (xs @ ys) x"
  proof (cases "ys = []")
    case False
    then have k: "?k < 2 ^ 32" using assms by (cases ys) auto
    then have uk: "unat (of_nat ?k :: u32) = ?k" by (simp add: unat_of_nat)
    show ?thesis
    proof (cases "unat ?d < ?k")
      case True
      then have "unat (?d - of_nat ?k) = unat ?d + 2 ^ 32 - ?k"
        using unat_sub_if' [of ?d "of_nat ?k"] uk by simp
      then have "\<not> unat (?d - of_nat ?k) < length ys" using assms by simp
      then show ?thesis using True by (simp add: mem_put_def e nth_append)
    next
      case False
      then have "unat (?d - of_nat ?k) = unat ?d - ?k" using unat_sub_if' [of ?d "of_nat ?k"] uk by simp
      then show ?thesis using False by (auto simp: mem_put_def e nth_append)
    qed
  qed simp
qed

lemma eof_loop:
  assumes "0 < es" "es < 2 ^ 31" "len \<le> 2 ^ 32"
  shows "read_loop es f (replicate es 0xff) mem data len es True = Some (f, replicate es 0xff, mem_put mem data (replicate len 0xff))"
  using assms(3)
proof (induction len arbitrary: mem data rule: less_induct)
  case (less len)
  show ?case
  proof (cases "len = 0")
    case True
    then show ?thesis by (subst read_loop.simps) simp
  next
    case False
    let ?k = "min len es"
    have k: "0 < ?k" "?k \<le> len" "rw_len ?k = ?k" "(if len < es then len else es) = ?k" using False assms by (auto simp: rw_len_def)
    have "read_loop es f (replicate es 0xff) mem data len es True =
        read_loop es f (replicate es 0xff) (mem_put mem data (replicate ?k 0xff)) (data + of_nat ?k) (len - ?k) ?k True"
      using False assms k by (subst read_loop.simps) (simp add: Let_def)
    also have "\<dots> = read_loop es f (replicate es 0xff) (mem_put mem data (replicate ?k 0xff)) (data + of_nat ?k) (len - ?k) es True"
      by (subst (1 2) read_loop.simps) (auto simp: min_def)
    also have "\<dots> = Some (f, replicate es 0xff, mem_put (mem_put mem data (replicate ?k 0xff)) (data + of_nat ?k) (replicate (len - ?k) 0xff))"
      using less.IH [of "len - ?k"] k less.prems by simp
    also have "mem_put (mem_put mem data (replicate ?k 0xff)) (data + of_nat ?k) (replicate (len - ?k) 0xff) = mem_put mem data (replicate len 0xff)"
      using mem_put_append [of "replicate ?k 0xff" "replicate (len - ?k) 0xff" mem data] less.prems k
      by (simp add: replicate_add [symmetric])
    finally show ?thesis .
  qed
qed

lemma short_read:
  assumes "r < es" "len \<noteq> 0"
  shows "read_loop es f b mem data len r e = read_loop es f (replicate es 0xff) mem data len es True"
  using assms by (subst (1 2) read_loop.simps) (simp add: Let_def)

lemma read_loop_flash:
  assumes "0 < es" "es < 2 ^ 31" "len \<le> 2 ^ 32"
  shows "\<exists>f' b'. read_loop es f b mem data len es False = Some (f', b', mem_put mem data (flash_range (fbytes f) (fpos f) len)) \<and>
    fbytes f' = fbytes f \<and> fcap f' = fcap f"
  using assms(3)
proof (induction len arbitrary: f b mem data rule: less_induct)
  case (less len)
  show ?case
  proof (cases "len = 0")
    case True
    then show ?thesis by (subst read_loop.simps) (simp add: flash_range_def)
  next
    case False
    define w where "w = (if len < es then len else es)"
    define bs where "bs = take w (drop (fpos f) (fbytes f))"
    define g where "g = length bs"
    let ?f = "f\<lparr>fpos := fpos f + g\<rparr>"
    have w: "0 < w" "w \<le> len" "w \<le> es" using False assms by (auto simp: w_def)
    have gl: "g = min w (length (fbytes f) - fpos f)" by (auto simp: g_def bs_def)
    have rw: "rw_len g = g" using w(3) assms(2) gl by (simp add: rw_len_def)
    have tk: "take g (bs @ drop g b) = bs" by (simp add: g_def)
    have step: "read_loop es f b mem data len es False = read_loop es ?f (bs @ drop g b) (mem_put mem data bs) (data + of_nat g) (len - g) g False"
    proof -
      have "do_read f w = (bs, ?f)" by (simp add: do_read_def bs_def g_def Let_def)
      moreover have "es \<noteq> 0" using assms(1) by simp
      ultimately show ?thesis using False rw tk
        by (subst read_loop.simps) (simp only: w_def [symmetric] g_def [symmetric] Let_def if_False if_True less_irrefl prod.case simp_thms)
    qed
    have bs: "bs = flash_range (fbytes f) (fpos f) g"
    proof (cases "fpos f < length (fbytes f)")
      case True
      then have "fpos f + g \<le> length (fbytes f)" using gl by simp
      then show ?thesis using flash_range_in [of "fpos f" g "fbytes f"] gl by (simp add: bs_def min_def)
    qed (use gl in \<open>simp add: flash_range_def bs_def\<close>)
    show ?thesis
    proof (cases "g = es")
      case True
      then have g: "fpos f + g \<le> length (fbytes f)" "g \<le> len" using assms(1) w gl by linarith+
      obtain f' b' where r: "read_loop es ?f (bs @ drop g b) (mem_put mem data bs) (data + of_nat g) (len - g) es False =
          Some (f', b', mem_put (mem_put mem data bs) (data + of_nat g) (flash_range (fbytes f) (fpos f + g) (len - g)))"
          "fbytes f' = fbytes f" "fcap f' = fcap f"
        using less.IH [of "len - g" ?f "bs @ drop g b" "mem_put mem data bs" "data + of_nat g"] True assms(1) False less.prems
        by (fastforce dest: order_trans [OF diff_le_self])
      have "mem_put (mem_put mem data bs) (data + of_nat g) (flash_range (fbytes f) (fpos f + g) (len - g)) =
          mem_put mem data (flash_range (fbytes f) (fpos f) len)"
        using mem_put_append [of bs "flash_range (fbytes f) (fpos f + g) (len - g)" mem data] g(2) less.prems
          flash_range_split [OF g(2), of "fbytes f" "fpos f"] bs by (metis length_flash_range le_add_diff_inverse)
      then show ?thesis using step r True by (intro exI [of _ f'] exI [of _ b']) metis
    next
      case short: False
      show ?thesis
      proof (cases "g = len")
        case True
        then show ?thesis using step bs by (subst (asm) (2) read_loop.simps) auto
      next
        case more: False
        then have g: "g < len" "g < es" "length (fbytes f) \<le> fpos f + g" using gl w short by (auto simp: w_def min_def split: if_splits)
        have eq: "mem_put (mem_put mem data bs) (data + of_nat g) (replicate (len - g) 0xff) = mem_put mem data (flash_range (fbytes f) (fpos f) len)"
        proof -
          have "flash_range (fbytes f) (fpos f) len = bs @ replicate (len - g) 0xff"
            using flash_range_split [of g len "fbytes f" "fpos f"] flash_range_beyond [OF g(3), of "len - g"] bs [symmetric] g(1) by simp
          moreover have "length bs + length (replicate (len - g) (0xff :: byte)) \<le> 2 ^ 32" using less.prems g(1) by (simp add: g_def)
          ultimately show ?thesis using mem_put_append [of bs "replicate (len - g) 0xff" mem data] by (simp add: g_def)
        qed
        have l: "len - g \<le> 2 ^ 32" "len - g \<noteq> 0" using less.prems g(1) by simp_all
        show ?thesis unfolding step short_read [OF g(2) l(2)] eof_loop [OF assms(1,2) l(1)] eq by simp
      qed
    qed
  qed
qed


section \<open>Writing\<close>

lemma file_store_length: "length (file_store bytes pos bs) = max (length bytes) (pos + length bs)"
  by (auto simp: file_store_def)

lemma file_store_nth:
  assumes "i < length (file_store bytes pos bs)"
  shows "file_store bytes pos bs ! i =
    (if i < pos then if i < length bytes then bytes ! i else 0 else if i < pos + length bs then bs ! (i - pos) else bytes ! i)"
  using assms by (auto simp: file_store_def nth_append min_def split: if_splits)

lemma file_store_append: "file_store (file_store bytes pos xs) (pos + length xs) ys = file_store bytes pos (xs @ ys)"
  by (rule nth_equalityI) (auto simp: file_store_length file_store_nth nth_append)

lemma flash_store:
  assumes "pos \<le> length bytes"
  shows "flash (file_store bytes pos bs) i = (if pos \<le> i \<and> i < pos + length bs then bs ! (i - pos) else flash bytes i)"
  using assms by (auto simp: flash_def file_store_nth file_store_length)

text \<open>A whole write: the pieces that \<open>nb\<close> puts in the buffer are the pieces of \<open>ws\<close>.\<close>

lemma write_loop_store:
  assumes "0 < es" "fpos f + r \<le> fcap f" "k + r \<le> length ws" "P b"
    and nb: "\<And>k n b. k + n \<le> length ws \<Longrightarrow> n \<le> es \<Longrightarrow> P b \<Longrightarrow>
      take n (nb (data + of_nat k) n b) = take n (drop k ws) \<and> P (nb (data + of_nat k) n b)"
  shows "\<exists>b'. write_loop nb f b (data + of_nat k) r es =
    Some (0, f\<lparr>fbytes := (if r = 0 then fbytes f else file_store (fbytes f) (fpos f) (take r (drop k ws))), fpos := fpos f + r\<rparr>, b')"
  using assms(2-4)
proof (induction r arbitrary: f b k rule: less_induct)
  case (less r)
  show ?case
  proof (cases "r = 0")
    case True
    then show ?thesis by (subst write_loop.simps) simp
  next
    case False
    define w where "w = (if r < es then r else es)"
    have w: "0 < w" "w \<le> r" "w \<le> es" using False assms(1) by (auto simp: w_def)
    define b1 where "b1 = nb (data + of_nat k) w b"
    define p where "p = take w (drop k ws)"
    have b1: "take w b1 = p" "P b1" using nb [of k w b] w less.prems by (simp_all add: b1_def p_def)
    have pl: "length p = w" using w less.prems by (simp add: p_def)
    let ?f = "f\<lparr>fbytes := file_store (fbytes f) (fpos f) p, fpos := fpos f + w\<rparr>"
    have dw: "do_write f (take w b1) = (int w, ?f)"
      using w less.prems(1) pl by (auto simp: b1 do_write_def Let_def)
    have step: "write_loop nb f b (data + of_nat k) r es = write_loop nb ?f b1 (data + of_nat (k + w)) (r - w) w"
    proof -
      have "data + of_nat k + of_nat w = data + of_nat (k + w)" by simp
      then show ?thesis using False w(1) dw
        by (subst write_loop.simps) (simp add: w_def [symmetric] b1_def [symmetric] Let_def add.assoc)
    qed
    have st: "file_store (file_store (fbytes f) (fpos f) p) (fpos f + w) (take (r - w) (drop (k + w) ws)) =
        file_store (fbytes f) (fpos f) (take r (drop k ws))"
      using file_store_append [of "fbytes f" "fpos f" p "take (r - w) (drop (k + w) ws)"] pl w(2)
        take_add [of w "r - w" "drop k ws"] by (simp add: p_def add.commute)
    show ?thesis
    proof (cases "r = w")
      case True
      then show ?thesis using step False by (subst (asm) (2) write_loop.simps) (simp add: p_def)
    next
      case more: False
      then have "w = es" using w by (auto simp: w_def split: if_splits)
      then show ?thesis using step less.IH [of "r - w" ?f "k + w" b1] w less.prems b1(2) st False more by auto
    qed
  qed
qed


text \<open>The two buffers.\<close>

lemma mem_range_take: "k + n \<le> l \<Longrightarrow> take n (drop k (mem_range mem a l)) = mem_range mem (a + of_nat k) n"
  by (rule nth_equalityI) (auto simp: mem_range_def add.assoc)

lemma guest_bytes:
  assumes "es < 2 ^ 31" "length (mem_range mem data len) = len"
  shows "k + n \<le> length (mem_range mem data len) \<Longrightarrow> n \<le> es \<Longrightarrow> True \<Longrightarrow>
    take n (from_guest mem (data + of_nat k) n b) = take n (drop k (mem_range mem data len)) \<and> True"
  using assms mem_range_take [of k n len mem data] by (simp add: from_guest_def rw_len_def) (simp add: mem_range_def)

lemma erased_bytes:
  "k + n \<le> length (replicate len (0xff :: byte)) \<Longrightarrow> n \<le> es \<Longrightarrow> b = replicate es 0xff \<Longrightarrow>
    take n (erased (data + of_nat k) n b) = take n (drop k (replicate len 0xff)) \<and> erased (data + of_nat k) n b = replicate es 0xff"
  by (simp add: erased_def)

lemma length_mem_range [simp]: "length (mem_range mem a n) = n"
  by (simp add: mem_range_def)

lemma write_file_stores:
  assumes "0 < erase_size dev" "erase_size dev < 2 ^ 31" "addr + unat len \<le> fcap f" "0 < len"
  shows "\<exists>b. nand_dev_write_file dev f mem data addr len =
      Some (len, dev\<lparr>fd := Some (f\<lparr>fbytes := file_store (fbytes f) addr (mem_range mem data (unat len)), fpos := addr + unat len\<rparr>), nbuf := b\<rparr>)"
proof -
  let ?es = "unat (erase_size dev)" and ?ws = "mem_range mem data (unat len)"
  have es: "0 < ?es" "?es < 2 ^ 31" using assms(1,2) by (simp_all add: word_less_nat_alt unat_gt_0)
  have len: "unat len \<noteq> 0" using assms(4) by (simp add: unat_eq_0 word_gt_0)
  have "\<exists>b'. write_loop (from_guest mem) (file_lseek addr f) (nbuf dev) (data + of_nat 0) (unat len) ?es =
      Some (0, (file_lseek addr f)\<lparr>fbytes := (if unat len = 0 then fbytes (file_lseek addr f)
          else file_store (fbytes (file_lseek addr f)) (fpos (file_lseek addr f)) (take (unat len) (drop 0 ?ws))),
        fpos := fpos (file_lseek addr f) + unat len\<rparr>, b')"
    by (rule write_loop_store [where P = "\<lambda>_. True", OF es(1) _ _ TrueI guest_bytes [OF es(2)]])
      (use assms(3) in \<open>simp_all add: file_lseek_def\<close>)
  then show ?thesis using len by (auto simp: nand_dev_write_file_def file_lseek_def)
qed

lemma erase_file_stores:
  assumes "0 < erase_size dev" "addr + unat len \<le> fcap f" "0 < len"
  shows "\<exists>b. nand_dev_erase_file dev f addr len =
      Some (len, dev\<lparr>fd := Some (f\<lparr>fbytes := file_store (fbytes f) addr (replicate (unat len) 0xff), fpos := addr + unat len\<rparr>), nbuf := b\<rparr>)"
proof -
  let ?es = "unat (erase_size dev)" and ?ws = "replicate (unat len) (0xff :: byte)"
  have es: "0 < ?es" using assms(1) by (simp add: unat_gt_0)
  have len: "unat len \<noteq> 0" using assms(3) by (simp add: unat_eq_0 word_gt_0)
  have "\<exists>b'. write_loop erased (file_lseek addr f) (replicate ?es 0xff) (0 + of_nat 0) (unat len) ?es =
      Some (0, (file_lseek addr f)\<lparr>fbytes := (if unat len = 0 then fbytes (file_lseek addr f)
          else file_store (fbytes (file_lseek addr f)) (fpos (file_lseek addr f)) (take (unat len) (drop 0 ?ws))),
        fpos := fpos (file_lseek addr f) + unat len\<rparr>, b')"
    by (rule write_loop_store [where P = "\<lambda>b. b = replicate ?es 0xff", OF es _ _ refl erased_bytes])
      (use assms(2) in \<open>simp_all add: file_lseek_def\<close>)
  then show ?thesis using len by (auto simp: nand_dev_erase_file_def file_lseek_def)
qed

lemma read_file_flash:
  assumes "0 < erase_size dev" "erase_size dev < 2 ^ 31"
  shows "\<exists>f' b'. nand_dev_read_file dev f mem data addr len =
      Some (len, dev\<lparr>fd := Some f', nbuf := b'\<rparr>, mem_put mem data (flash_range (fbytes f) addr (unat len))) \<and>
    fbytes f' = fbytes f \<and> fcap f' = fcap f"
proof -
  let ?es = "unat (erase_size dev)"
  have es: "0 < ?es" "?es < 2 ^ 31" using assms by (simp_all add: word_less_nat_alt unat_gt_0)
  have "unat len \<le> 2 ^ 32" using unsigned_less [of len, where ?'a = nat] by simp
  from read_loop_flash [OF es this, of "file_lseek addr f" "nbuf dev" mem data] obtain f' b' where
    "read_loop ?es (file_lseek addr f) (nbuf dev) mem data (unat len) ?es False =
       Some (f', b', mem_put mem data (flash_range (fbytes f) addr (unat len)))" "fbytes f' = fbytes f" "fcap f' = fcap f"
    by (auto simp: file_lseek_def)
  then show ?thesis by (intro exI [of _ f'] exI [of _ b']) (simp add: nand_dev_read_file_def)
qed


section \<open>Properties\<close>

lemma ucast_up: "unat (ucast (w :: u32) :: 64 word) = unat w"
  using unsigned_less [of w, where ?'a = nat] by (simp add: unsigned_ucast_eq take_bit_nat_eq_self)

lemma cmd_size_unat:
  assumes "addr < nsize dev" "unat (nsize dev) + 2 ^ 32 \<le> 2 ^ 64"
  shows "unat (cmd_size dev addr sz) = min (unat sz) (unat (nsize dev) - unat addr)"
proof -
  have a: "unat addr < unat (nsize dev)" using assms(1) by (simp add: word_less_nat_alt)
  have s: "unat sz < 2 ^ 32" using unsigned_less [of sz, where ?'a = nat] by simp
  have sum: "unat (ucast sz + addr :: 64 word) = unat sz + unat addr"
    using a s assms(2) ucast_up [of sz] by (subst unat_add_lem [THEN iffD1]) simp_all
  show ?thesis
  proof (cases "ucast sz + addr > nsize dev")
    case True
    then have g: "unat (nsize dev) < unat sz + unat addr" using sum by (simp add: word_less_nat_alt)
    have d: "unat (nsize dev - addr) = unat (nsize dev) - unat addr" using a by (simp add: unat_sub word_le_nat_alt)
    then have "unat (nsize dev - addr) < 2 ^ 32" using g s by simp
    then have "unat (ucast (nsize dev - addr) :: u32) = unat (nsize dev) - unat addr" using d by (simp add: unsigned_ucast_eq take_bit_nat_eq_self)
    then show ?thesis using True g by (simp add: cmd_size_def)
  next
    case False
    then have "unat sz + unat addr \<le> unat (nsize dev)" using sum by (simp add: word_le_nat_alt not_less)
    then show ?thesis using False by (simp add: cmd_size_def min_def)
  qed
qed

text \<open>A device whose file is open, with a geometry that \<open>nand_add_dev\<close> accepts.\<close>

definition nand_ok :: "nand_dev \<Rightarrow> host_file \<Rightarrow> bool" where
  "nand_ok dev f \<longleftrightarrow> fd dev = Some f \<and> 0 < erase_size dev \<and> erase_size dev < 2 ^ 31 \<and> unat (nsize dev) + 2 ^ 32 \<le> 2 ^ 64"



definition sample_dev :: "byte list \<Rightarrow> nat \<Rightarrow> nand_dev" where
  "sample_dev bytes cap = \<lparr>devname = [], nbuf = replicate 4 0, fd = Some \<lparr>fbytes = bytes, fpos = 0, fcap = cap\<rparr>, nflags = 0,
     page_size = 2, extra_size = 0, erase_size = 4, nsize = 8\<rparr>"

definition sample_regs :: "u32 \<Rightarrow> u32 \<Rightarrow> nand_dev_state" where
  "sample_regs a n = \<lparr>ns_dev = 0, addr_low = a, addr_high = 0, transfer_size = n, ns_data = 100, ns_result = 0\<rparr>"

lemmas sample_simps = nand_ok_def sample_dev_def sample_regs_def NAND_DEV_FLAG_READ_ONLY_def cmd_addr_def


text \<open>
  Remark (error). A write that starts behind the end of the host file leaves a gap, which the host fills with zeros:
  flash that the guest has never touched, and that read as erased before, reads as zero after it.
\<close>

theorem nand_write_gap:
  assumes "nand_ok dev f" "nflags dev AND NAND_DEV_FLAG_READ_ONLY = 0" "cmd_addr s < nsize dev" "0 < transfer_size s"
    and "unat (nsize dev) \<le> fcap f" "length (fbytes f) \<le> i" "i < unat (cmd_addr s)"
  shows "\<exists>r dev' f'. nand_dev_do_cmd dev mem s 2 = Some (Inr (r, dev', mem)) \<and> fd dev' = Some f' \<and>
    flash (fbytes f) i = 0xff \<and> flash (fbytes f') i = 0"
proof -
  have ok: "fd dev = Some f" "0 < erase_size dev" "erase_size dev < 2 ^ 31" "unat (nsize dev) + 2 ^ 32 \<le> 2 ^ 64"
    using assms(1) by (simp_all add: nand_ok_def)
  let ?sz = "cmd_size dev (cmd_addr s) (transfer_size s)" and ?a = "unat (cmd_addr s)"
  have a: "?a < unat (nsize dev)" using assms(3) by (simp add: word_less_nat_alt)
  have sz: "unat ?sz = min (unat (transfer_size s)) (unat (nsize dev) - ?a)" by (rule cmd_size_unat [OF assms(3) ok(4)])
  then have n: "0 < ?sz" "?a + unat ?sz \<le> fcap f" using a assms(4,5) by (auto simp: word_less_nat_alt)
  obtain b where w: "nand_dev_write_file dev f mem (ns_data s) ?a ?sz = Some (?sz, dev\<lparr>fd := Some (f\<lparr>fbytes :=
      file_store (fbytes f) ?a (mem_range mem (ns_data s) (unat ?sz)), fpos := ?a + unat ?sz\<rparr>), nbuf := b\<rparr>)"
    using write_file_stores [OF ok(2,3) n(2,1)] by blast
  have "nand_dev_do_cmd dev mem s 2 = Some (Inr (?sz, dev\<lparr>fd := Some (f\<lparr>fbytes :=
      file_store (fbytes f) ?a (mem_range mem (ns_data s) (unat ?sz)), fpos := ?a + unat ?sz\<rparr>), nbuf := b\<rparr>, mem))"
    using w assms(2) ok(1) assms(3) not_le [of "nsize dev" "cmd_addr s"] by (auto simp: nand_dev_do_cmd_def nand_cmd_write_def Let_def)
  then show ?thesis using assms(6,7) by (auto simp: flash_def file_store_nth file_store_length)
qed

theorem nand_write_gap_witness:
  "\<exists>r dev' f'. nand_dev_do_cmd (sample_dev [] 8) (\<lambda>_. 7) (sample_regs 4 2) 2 = Some (Inr (r, dev', \<lambda>_. 7)) \<and> fd dev' = Some f' \<and>
     flash [] 0 = 0xff \<and> flash (fbytes f') 0 = 0"
proof -
  let ?f = "\<lparr>fbytes = [], fpos = 0, fcap = 8\<rparr>"
  have "nand_ok (sample_dev [] 8) ?f \<and> nflags (sample_dev [] 8) AND NAND_DEV_FLAG_READ_ONLY = 0 \<and>
      cmd_addr (sample_regs 4 2) < nsize (sample_dev [] 8) \<and> 0 < transfer_size (sample_regs 4 2) \<and>
      unat (nsize (sample_dev [] 8)) \<le> fcap ?f \<and> length (fbytes ?f) \<le> 0 \<and> 0 < unat (cmd_addr (sample_regs 4 2))"
    by (simp add: sample_simps)
  then show ?thesis using nand_write_gap [of "sample_dev [] 8" ?f "sample_regs 4 2" 0 "\<lambda>_. 7"] by auto
qed

lemma write_loop_full:
  assumes "0 < w" "fcap f \<le> fpos f" "\<And>d n b. P b \<Longrightarrow> 0 < n \<Longrightarrow> n \<le> w \<Longrightarrow> take n (nb d n b) \<noteq> [] \<and> P (nb d n b)" "P b"
  shows "\<exists>b'. write_loop nb f b data len w = Some (0, f, b')"
  using assms(4)
proof (induction len arbitrary: b data rule: less_induct)
  case (less len)
  show ?case
  proof (cases "len = 0")
    case True
    then show ?thesis by (subst write_loop.simps) simp
  next
    case False
    let ?n = "if len < w then len else w"
    let ?b = "nb data ?n b"
    have n: "0 < ?n" "?n \<le> w" "?n \<le> len" using False assms(1) by auto
    have b: "take ?n ?b \<noteq> []" "P ?b" using assms(3) [OF less.prems n(1,2)] by blast+
    have dw: "do_write f (take ?n ?b) = (-1, f)" using b(1) assms(2) by (simp add: do_write_def)
    have step: "write_loop nb f b data len w = write_loop nb f ?b (data + of_nat ?n) (len - ?n) ?n"
      using False n(1) dw by (subst write_loop.simps) (simp add: Let_def split del: if_split)
    show ?thesis
    proof (cases "len - ?n = 0")
      case True
      then show ?thesis unfolding step by (subst write_loop.simps) simp
    next
      case more: False
      then have "?n = w" by auto
      then show ?thesis using step less.IH [of "len - w" ?b] n b(2) by auto
    qed
  qed
qed

text \<open>
  Property C40 (error). A write that fails is reported as done: the result \<open>-1\<close> of the host is compared as an unsigned number, so when
  the host can store nothing the command still returns the full length, and the file is as before.
\<close>

theorem nand_write_failure_hidden:
  assumes "nand_ok dev f" "nflags dev AND NAND_DEV_FLAG_READ_ONLY = 0" "cmd_addr s < nsize dev" "fcap f \<le> unat (cmd_addr s)"
  shows "\<exists>dev' f'. nand_dev_do_cmd dev mem s 2 =
      Some (Inr (of_nat (min (unat (transfer_size s)) (unat (nsize dev) - unat (cmd_addr s))), dev', mem)) \<and>
    fd dev' = Some f' \<and> fbytes f' = fbytes f"
proof -
  have ok: "fd dev = Some f" "0 < erase_size dev" "erase_size dev < 2 ^ 31" "unat (nsize dev) + 2 ^ 32 \<le> 2 ^ 64"
    using assms(1) by (simp_all add: nand_ok_def)
  let ?es = "unat (erase_size dev)" and ?a = "unat (cmd_addr s)" and ?sz = "cmd_size dev (cmd_addr s) (transfer_size s)"
  have es: "0 < ?es" "?es < 2 ^ 31" using ok(2,3) by (simp_all add: word_less_nat_alt unat_gt_0)
  have sz: "?sz = of_nat (min (unat (transfer_size s)) (unat (nsize dev) - ?a))"
    by (simp add: cmd_size_unat [OF assms(3) ok(4), symmetric])
  have "\<exists>b'. write_loop (from_guest mem) (file_lseek ?a f) (nbuf dev) (ns_data s) (unat ?sz) ?es = Some (0, file_lseek ?a f, b')"
    by (rule write_loop_full [where P = "\<lambda>_. True"])
      (use es assms(4) in \<open>auto simp: file_lseek_def from_guest_def rw_len_def mem_range_def\<close>)
  then obtain b' where "nand_dev_write_file dev f mem (ns_data s) ?a ?sz = Some (?sz, dev\<lparr>fd := Some (file_lseek ?a f), nbuf := b'\<rparr>)"
    by (auto simp: nand_dev_write_file_def)
  then have "nand_dev_do_cmd dev mem s 2 = Some (Inr (?sz, dev\<lparr>fd := Some (file_lseek ?a f), nbuf := b'\<rparr>, mem))"
    using assms(2) ok(1) assms(3) not_le [of "nsize dev" "cmd_addr s"] by (auto simp: nand_dev_do_cmd_def nand_cmd_write_def Let_def)
  then show ?thesis unfolding sz by (simp add: file_lseek_def)
qed


theorem nand_write_failure_hidden_witness:
  "\<exists>dev' f'. nand_dev_do_cmd (sample_dev [1, 2] 2) (\<lambda>_. 7) (sample_regs 4 2) 2 = Some (Inr (2, dev', \<lambda>_. 7)) \<and> fd dev' = Some f' \<and>
     fbytes f' = [1, 2]"
proof -
  let ?d = "sample_dev [1, 2] 2" and ?s = "sample_regs 4 2" and ?f = "\<lparr>fbytes = [1, 2], fpos = 0, fcap = 2\<rparr>"
  have h: "nand_ok ?d ?f" "nflags ?d AND NAND_DEV_FLAG_READ_ONLY = 0" "cmd_addr ?s < nsize ?d" "fcap ?f \<le> unat (cmd_addr ?s)"
    by (simp_all add: sample_simps)
  have "of_nat (min (unat (transfer_size ?s)) (unat (nsize ?d) - unat (cmd_addr ?s))) = (2 :: u32)" by (simp add: sample_simps)
  then show ?thesis using nand_write_failure_hidden [OF h, of "\<lambda>_. 7"] by simp
qed

text \<open>
  Remark (error). When the image of a writable device cannot be opened, the device is added all the same, with a
  buffer of one erase unit for its data: a command anywhere behind that unit leaves the buffer.
\<close>

theorem nand_without_file:
  assumes "fd dev = None" "cmd_addr s < nsize dev" "unat (nsize dev) + 2 ^ 32 \<le> 2 ^ 64" "nflags dev AND NAND_DEV_FLAG_READ_ONLY = 0"
    and "length (nbuf dev) = unat (erase_size dev)" "unat (erase_size dev) \<le> unat (cmd_addr s)" "0 < transfer_size s" "cmd \<in> {1, 2, 3}"
  shows "nand_dev_do_cmd dev mem s cmd = Some (Inl Undefined)"
proof -
  have "unat (cmd_addr s) < unat (nsize dev)" using assms(2) by (simp add: word_less_nat_alt)
  moreover have "0 < unat (transfer_size s)" using assms(7) by (simp add: word_less_nat_alt)
  ultimately have "\<not> in_buffer dev (cmd_addr s) (cmd_size dev (cmd_addr s) (transfer_size s))"
    using cmd_size_unat [OF assms(2,3)] assms(5,6) by (simp add: in_buffer_def)
  then show ?thesis using assms(1,4,8) assms(2) not_le [of "nsize dev" "cmd_addr s"]
    by (auto simp: nand_dev_do_cmd_def nand_cmd_read_def nand_cmd_write_def nand_cmd_erase_def Let_def)
qed

theorem nand_without_file_witness:
  "nand_dev_do_cmd ((sample_dev [] 8)\<lparr>fd := None\<rparr>) (\<lambda>_. 0) (sample_regs 4 2) 2 = Some (Inl Undefined)"
  by (rule nand_without_file) (simp_all add: sample_simps)

text \<open>
  The guest's stores to the register window, one after the other; a store that does not return, or stops
  the emulator, ends the run.
\<close>

fun nand_run :: "nand \<Rightarrow> guest_mem \<Rightarrow> (u32 \<times> u32) list \<Rightarrow> (nand \<times> guest_mem) option" where
  "nand_run n mem [] = Some (n, mem)"
| "nand_run n mem ((off, v) # ws) =
     (case nand_dev_write n mem off v of Some (Inr (n, mem)) \<Rightarrow> nand_run n mem ws | _ \<Rightarrow> None)"

definition dev_image :: "nand_dev \<Rightarrow> byte list option" where
  "dev_image dev = map_option fbytes (fd dev)"

definition read_only :: "nand_dev \<Rightarrow> bool" where
  "read_only dev \<longleftrightarrow> nflags dev AND NAND_DEV_FLAG_READ_ONLY \<noteq> 0"

lemma read_loop_bytes:
  "read_loop es f b mem data len rl eof = Some (f', b', mem') \<Longrightarrow> fbytes f' = fbytes f"
proof (induction es f b mem data len rl eof rule: read_loop.induct)
  case (1 es f b mem data len rl eof)
  then show ?case by (subst (asm) (2) read_loop.simps) (auto simp: Let_def do_read_def split: if_splits)
qed

lemma cmd_read_only:
  assumes "nand_dev_do_cmd dev mem s cmd = Some (Inr (r, dev', mem'))"
  shows "nflags dev' = nflags dev \<and> (read_only dev \<longrightarrow> dev_image dev' = dev_image dev)"
proof -
  have rd: "nand_dev_read_file dev f mem d a l = Some (r, dev', mem') \<Longrightarrow> fd dev = Some f \<Longrightarrow>
      nflags dev' = nflags dev \<and> dev_image dev' = dev_image dev" for f d a l
    by (auto simp: nand_dev_read_file_def dev_image_def file_lseek_def Let_def dest!: read_loop_bytes)
  show ?thesis using assms
    by (auto simp: nand_dev_do_cmd_def nand_cmd_read_def nand_cmd_write_def nand_cmd_erase_def read_only_def Let_def
        nand_dev_write_file_def nand_dev_erase_file_def dev_image_def [of "_\<lparr>nbuf := _\<rparr>"]
        split: if_splits option.splits dest: rd)
qed


definition keeps_images :: "nand \<Rightarrow> nand \<Rightarrow> bool" where
  "keeps_images n n' \<longleftrightarrow> length (ndevs n') = length (ndevs n) \<and>
     (\<forall>i < length (ndevs n). nflags (ndevs n' ! i) = nflags (ndevs n ! i) \<and>
        (read_only (ndevs n ! i) \<longrightarrow> dev_image (ndevs n' ! i) = dev_image (ndevs n ! i)))"

lemma keeps_refl: "keeps_images n n"
  by (simp add: keeps_images_def)

lemma keeps_trans: "keeps_images n n1 \<Longrightarrow> keeps_images n1 n2 \<Longrightarrow> keeps_images n n2"
  by (auto simp: keeps_images_def read_only_def)

lemma command_keeps: "nand_command n mem cmd = Some (Inr (n', mem')) \<Longrightarrow> keeps_images n n'"
  using cmd_read_only
  by (fastforce simp: nand_command_def keeps_images_def Let_def map_sum_Inr_iff nth_list_update split: if_splits)

lemma write_keeps: "nand_dev_write n mem off v = Some (Inr (n', mem')) \<Longrightarrow> keeps_images n n'"
  by (auto simp: nand_dev_write_def Let_def keeps_images_def split: if_splits)
    (auto dest!: command_keeps simp: keeps_images_def)

text \<open>
  Property C16 (safety). A read-only device keeps its image: whatever the guest stores in the registers, for however long, the
  bytes of the file of a read-only device do not change, and its flags do not either.
\<close>

theorem nand_read_only_image:
  assumes "nand_run n mem ws = Some (n', mem')" "i < length (ndevs n)" "read_only (ndevs n ! i)"
  shows "i < length (ndevs n') \<and> read_only (ndevs n' ! i) \<and> dev_image (ndevs n' ! i) = dev_image (ndevs n ! i)"
proof -
  have "keeps_images n n'" using assms(1)
  proof (induction n mem ws rule: nand_run.induct)
    case (2 n mem off v ws)
    then obtain n1 mem1 where w: "nand_dev_write n mem off v = Some (Inr (n1, mem1))" "nand_run n1 mem1 ws = Some (n', mem')"
      by (auto split: option.splits sum.splits)
    then have "keeps_images n1 n'" using 2(1) [of "Inr (n1, mem1)" "(n1, mem1)" n1 mem1] by simp
    then show ?case by (rule keeps_trans [OF write_keeps [OF w(1)]])
  qed (simp add: keeps_refl)
  then show ?thesis using assms(2,3) by (simp add: keeps_images_def read_only_def)
qed

theorem nand_read_only_image_witness:
  "\<exists>n n' mem'. ndevs n = [(sample_dev [1, 2, 3] 8)\<lparr>nflags := 1\<rparr>] \<and>
     nand_run n (\<lambda>_. 0) [(0x4c, 2), (0x44, 3)] = Some (n', mem') \<and> dev_image (ndevs n' ! 0) = Some [1, 2, 3]"
proof -
  let ?n = "nand_dev_init\<lparr>ndevs := [(sample_dev [1, 2, 3] 8)\<lparr>nflags := 1\<rparr>]\<rparr>"
  have d: "0 < length (ndevs ?n)" "read_only (ndevs ?n ! 0)" "dev_image (ndevs ?n ! 0) = Some [1, 2, 3]"
    by (simp_all add: read_only_def dev_image_def sample_simps)
  have "\<exists>n' mem'. nand_run ?n (\<lambda>_. 0) [(0x4c, 2), (0x44, 3)] = Some (n', mem')"
    by (simp add: nand_dev_write_def nand_command_def nand_dev_do_cmd_def nand_cmd_erase_def nand_dev_init_def sample_simps Let_def)
  then obtain n' mem' where r: "nand_run ?n (\<lambda>_. 0) [(0x4c, 2), (0x44, 3)] = Some (n', mem')" by blast
  show ?thesis using nand_read_only_image [OF r d(1,2)] r d(3) by (intro exI [of _ ?n] exI [of _ n'] exI [of _ mem']) simp
qed

end
