(* ===== verification/Goldfish_Nand_Add.thy ===== *)
theory Goldfish_Nand_Add
  imports Goldfish_Nand
begin

text \<open>
  Adding a flash device from the command line (\<open>nand_add_dev\<close> in \<open>hw/goldfish_nand.c\<close>): the argument
  \<open>name,size=...,initfile=...\<close> is taken apart, the files are opened and the image is copied.

  What the host answers is an argument: the path of the temporary file, the file opened for the device and the contents of
  the initial image, none when there is none or it cannot be opened. \<open>None\<close> is the end of the emulator: \<open>exit(1)\<close>, or the
  division by an erase size of zero. The buffer \<open>data\<close>, which \<open>malloc\<close> leaves unset, starts as zeros in the model.
\<close>

section \<open>Arguments\<close>

text \<open>\<open>b\<close> is the text at the argument and \<open>n\<close> is \<open>b_len\<close>, which wraps below zero when the option name is longer.\<close>

fun arg_match :: "string \<Rightarrow> string \<Rightarrow> 64 word \<Rightarrow> bool" where
  "arg_match [] b n \<longleftrightarrow> n = 0"
| "arg_match (c # a) b n \<longleftrightarrow>
     (if n = 0 then n - 1 = 0 else case b of [] \<Rightarrow> False | d # b \<Rightarrow> c = d \<and> arg_match a b (n - 1))"

text \<open>\<open>strtoull(s, &end, 0)\<close> on a host with 64-bit \<open>long\<close>: the value and the rest of the string.\<close>

definition digit_value :: "char \<Rightarrow> nat option" where
  "digit_value c =
     (let n = of_char c :: nat
      in if 48 \<le> n \<and> n \<le> 57 then Some (n - 48)
         else if 97 \<le> n \<and> n \<le> 122 then Some (n - 87)
         else if 65 \<le> n \<and> n \<le> 90 then Some (n - 55)
         else None)"

definition is_digit_of :: "nat \<Rightarrow> char \<Rightarrow> bool" where
  "is_digit_of base c = (case digit_value c of None \<Rightarrow> False | Some d \<Rightarrow> d < base)"

fun number_of :: "nat \<Rightarrow> nat \<Rightarrow> string \<Rightarrow> nat" where
  "number_of base n [] = n"
| "number_of base n (c # cs) = number_of base (base * n + (case digit_value c of None \<Rightarrow> 0 | Some d \<Rightarrow> d)) cs"

definition blank :: "char \<Rightarrow> bool" where
  "blank c \<longleftrightarrow> (of_char c :: nat) = 32 \<or> 9 \<le> (of_char c :: nat) \<and> (of_char c :: nat) \<le> 13"

definition number_base :: "string \<Rightarrow> nat \<times> string" where
  "number_base p =
     (case p of
        c # x # d # rest \<Rightarrow> if c = CHR ''0'' \<and> (x = CHR ''x'' \<or> x = CHR ''X'') \<and> is_digit_of 16 d then (16, d # rest)
                            else if c = CHR ''0'' then (8, p) else (10, p)
      | c # rest \<Rightarrow> if c = CHR ''0'' then (8, p) else (10, p)
      | [] \<Rightarrow> (10, p))"

definition strtoull :: "string \<Rightarrow> 64 word \<times> string" where
  "strtoull s =
     (let p = dropWhile blank s;
          neg = (p \<noteq> [] \<and> hd p = CHR ''-'');
          p = (if p \<noteq> [] \<and> (hd p = CHR ''-'' \<or> hd p = CHR ''+'') then tl p else p);
          (base, p) = number_base p;
          ds = takeWhile (is_digit_of base) p;
          n = number_of base 0 ds
      in if ds = [] then (0, s)
         else (if n \<ge> 2 ^ 64 then - 1 else if neg then - of_nat n else of_nat n, drop (length ds) p))"

record nand_args =
  ga_name :: "string option"
  ga_size :: "64 word"
  ga_page :: u32
  ga_extra :: u32
  ga_pages :: u32
  ga_init :: "string option"
  ga_file :: "string option"
  ga_ro :: bool

definition default_args :: nand_args where
  "default_args = \<lparr>ga_name = None, ga_size = 0, ga_page = 2048, ga_extra = 64, ga_pages = 64, ga_init = None, ga_file = None, ga_ro = False\<rparr>"

text \<open>A number is the whole value.\<close>

definition number_arg :: "string \<Rightarrow> 64 word option" where
  "number_arg v = (case strtoull v of (n, rest) \<Rightarrow> if rest = [] then Some n else None)"

text \<open>One argument: the name of the device first, then \<open>readonly\<close> or an option with its value.\<close>

definition parse_arg :: "nand_args \<Rightarrow> string \<Rightarrow> nand_args option" where
  "parse_arg a arg =
     (let name = takeWhile (\<lambda>c. c \<noteq> CHR ''='') arg;
          has = (CHR ''='' \<in> set arg);
          is_arg = (\<lambda>opt. arg_match opt name (of_nat (length name)));
          v = tl (dropWhile (\<lambda>c. c \<noteq> CHR ''='') arg)
      in if ga_name a = None then (if has then None else Some (a\<lparr>ga_name := Some arg\<rparr>))
         else if \<not> has then (if is_arg ''readonly'' then Some (a\<lparr>ga_ro := True\<rparr>) else None)
         else if is_arg ''size'' then map_option (\<lambda>n. a\<lparr>ga_size := n\<rparr>) (number_arg v)
         else if is_arg ''pagesize'' then map_option (\<lambda>n. a\<lparr>ga_page := ucast n\<rparr>) (number_arg v)
         else if is_arg ''extrasize'' then map_option (\<lambda>n. a\<lparr>ga_extra := ucast n\<rparr>) (number_arg v)
         else if is_arg ''erasepages'' then map_option (\<lambda>n. a\<lparr>ga_pages := ucast n\<rparr>) (number_arg v)
         else if is_arg ''initfile'' then Some (a\<lparr>ga_init := Some v\<rparr>)
         else if is_arg ''file'' then Some (a\<lparr>ga_file := Some v\<rparr>)
         else None)"

function parse_args :: "nand_args \<Rightarrow> string \<Rightarrow> nand_args option" where
  "parse_args a arg =
     (case parse_arg a (takeWhile (\<lambda>c. c \<noteq> CHR '','') arg) of
        None \<Rightarrow> None
      | Some a \<Rightarrow> if CHR '','' \<in> set arg then parse_args a (tl (dropWhile (\<lambda>c. c \<noteq> CHR '','') arg)) else Some a)"
  by auto
termination
proof (relation "measure (length \<circ> snd)", goal_cases)
  case (2 a arg a')
  then have "dropWhile (\<lambda>c. c \<noteq> CHR '','') arg \<noteq> []" by (auto simp: dropWhile_eq_Nil_conv)
  then show ?case using length_dropWhile_le [of "\<lambda>c. c \<noteq> CHR '','' " arg]
    by (cases "dropWhile (\<lambda>c. c \<noteq> CHR '','') arg") auto
qed simp

declare parse_args.simps [simp del]

section \<open>The device\<close>

text \<open>The initial image is copied in pieces of one erase unit; a file that cannot be written ends the emulator.\<close>

function copy_loop :: "nat \<Rightarrow> byte list \<Rightarrow> host_file \<Rightarrow> host_file option" where
  "copy_loop es src f =
     (let bs = take es src;
          (r, f) = do_write f bs
      in if r \<noteq> int (length bs) then None
         else if es = 0 then None
         else if length bs = es then copy_loop es (drop es src) f else Some f)"
  by auto
termination by (relation "measure (\<lambda>(es, src, f). length src)") auto

declare copy_loop.simps [simp del]

definition new_dev :: "nand_args \<Rightarrow> 64 word \<Rightarrow> host_file option \<Rightarrow> nand_dev option" where
  "new_dev a sz f =
     (let es = ga_pages a * (ga_page a + ga_extra a);
          pad = ucast (sz mod ucast es) :: u32
      in if es = 0 then None
         else Some \<lparr>devname = map of_char (the (ga_name a)), nbuf = replicate (unat es) 0, fd = f,
                nflags = (if ga_ro a then NAND_DEV_FLAG_READ_ONLY else 0), page_size = ga_page a, extra_size = ga_extra a,
                erase_size = es, nsize = (if pad \<noteq> 0 then sz + ucast (es - pad) else sz)\<rparr>)"

text \<open>The copy of the initial image: nothing can be written to a file that is not open, or open for reading only.\<close>

definition init_file :: "nand_args \<Rightarrow> nat \<Rightarrow> byte list \<Rightarrow> host_file option \<Rightarrow> host_file option" where
  "init_file a es img rw = (if ga_ro a then None else Option.bind rw (copy_loop es img))"

record nand_host =
  nh_temp :: "string option"
  nh_rw :: "string \<Rightarrow> bool \<Rightarrow> host_file option"
  nh_init :: "string \<Rightarrow> byte list option"

definition nand_add_dev :: "nand_host \<Rightarrow> nand \<Rightarrow> string \<Rightarrow> nand option" where
  "nand_add_dev h n arg =
     Option.bind (parse_args default_args arg) (\<lambda>a.
     Option.bind (case ga_file a of None \<Rightarrow> nh_temp h | Some p \<Rightarrow> Some p) (\<lambda>path.
       let rw = nh_rw h path (ga_ro a);
           add = (\<lambda>d. n\<lparr>ndevs := ndevs n @ [d]\<rparr>)
       in if rw = None \<and> ga_ro a then None
          else
            (case ga_init a of
               None \<Rightarrow> map_option add (new_dev a (ga_size a) rw)
             | Some name \<Rightarrow>
                 Option.bind (nh_init h name) (\<lambda>img.
                 Option.bind (new_dev a (if ga_size a = 0 then of_nat (length img) else ga_size a) rw) (\<lambda>d.
                   map_option (\<lambda>f. add (d\<lparr>fd := Some f\<rparr>)) (init_file a (unat (erase_size d)) img rw))))))"

section \<open>Properties\<close>

lemma arg_match_eq: "length b < 2 ^ 64 \<Longrightarrow> arg_match a b (of_nat (length b)) \<longleftrightarrow> a = b"
proof (induction a arbitrary: b)
  case Nil
  then show ?case by (auto simp: word_of_nat_eq_0_iff dest: nat_dvd_not_less)
next
  case (Cons c a)
  show ?case
  proof (cases b)
    case (Cons d b')
    then have "(of_nat (length b) :: 64 word) \<noteq> 0"
      using Cons.prems nat_dvd_not_less [of "length b" "2 ^ 64"] by (auto simp: word_of_nat_eq_0_iff simp del: of_nat_Suc)
    then show ?thesis using Cons Cons.IH [of b'] Cons.prems by auto
  qed simp
qed

lemma copy_loop_file:
  assumes "0 < es" "fpos f + length src \<le> fcap f"
  shows "copy_loop es src f =
    Some (if src = [] then f else f\<lparr>fbytes := file_store (fbytes f) (fpos f) src, fpos := fpos f + length src\<rparr>)"
  using assms
proof (induction es src f rule: copy_loop.induct)
  case (1 es src f)
  let ?p = "take es src"
  let ?f = "if src = [] then f else f\<lparr>fbytes := file_store (fbytes f) (fpos f) ?p, fpos := fpos f + length ?p\<rparr>"
  have "length ?p \<le> fcap f - fpos f" using "1.prems"(2) by simp
  then have fit: "take (fcap f - fpos f) ?p = ?p" by (rule take_all)
  have room: "src \<noteq> [] \<Longrightarrow> fpos f < fcap f" using "1.prems"(2) length_greater_0_conv [of src] by linarith
  have w: "do_write f ?p = (int (length ?p), ?f)"
    using "1.prems"(1) room by (cases "src = []") (simp_all add: do_write_def Let_def fit del: take_take)
  show ?case
  proof (cases "es \<le> length src")
    case True
    then have "copy_loop es src f = copy_loop es (drop es src) ?f"
      using "1.prems" w by (subst copy_loop.simps) (auto simp: Let_def)
    also have "\<dots> = Some (if drop es src = [] then ?f else
        ?f\<lparr>fbytes := file_store (fbytes ?f) (fpos ?f) (drop es src), fpos := fpos ?f + length (drop es src)\<rparr>)"
      by (rule "1.IH" [OF refl w [symmetric]]) (use True "1.prems" in \<open>auto simp: w\<close>)
    finally show ?thesis using True "1.prems" file_store_append [of "fbytes f" "fpos f" ?p "drop es src"] by auto
  next
    case False
    then show ?thesis using w "1.prems" by (subst copy_loop.simps) (auto simp: Let_def)
  qed
qed

lemma new_dev_size:
  assumes "new_dev a sz f = Some d" "unat sz + 2 ^ 32 \<le> 2 ^ 64"
  shows "unat (erase_size d) dvd unat (nsize d) \<and> unat sz \<le> unat (nsize d) \<and> unat (nsize d) < unat sz + unat (erase_size d)"
proof -
  define es where "es = ga_pages a * (ga_page a + ga_extra a)"
  have es: "es \<noteq> 0" "erase_size d = es" using assms(1) by (auto simp: new_dev_def Let_def es_def split: if_splits)
  have lt: "unat es < 2 ^ 32" using unsigned_less [of es, where ?'a = nat] by simp
  have e0: "0 < unat es" using es by (simp add: unat_gt_0)
  define m where "m = unat sz mod unat es"
  have m: "m < unat es" using e0 by (simp add: m_def)
  have pad: "unat (ucast (sz mod ucast es) :: u32) = m"
    using m lt by (simp add: unsigned_ucast_eq unat_mod ucast_up m_def take_bit_nat_eq_self)
  have n: "unat (nsize d) = (if m = 0 then unat sz else unat sz + (unat es - m))"
  proof (cases "m = 0")
    case True
    then have "ucast (sz mod ucast es) = (0 :: u32)" using pad by (simp add: unat_eq_0)
    then show ?thesis using True assms(1) by (auto simp: new_dev_def Let_def es_def split: if_splits)
  next
    case False
    then have p: "ucast (sz mod ucast es) \<noteq> (0 :: u32)" using pad by auto
    have d: "unat (es - ucast (sz mod ucast es)) = unat es - m"
      using pad m by (subst unat_sub) (simp_all add: word_le_nat_alt)
    have "nsize d = sz + ucast (es - ucast (sz mod ucast es))"
      using p assms(1) by (auto simp: new_dev_def Let_def es_def split: if_splits)
    moreover have "unat (sz + ucast (es - ucast (sz mod ucast es))) = unat sz + (unat es - m)"
      using d lt assms(2) ucast_up [of "es - ucast (sz mod ucast es)"] by (subst unat_add_lem [THEN iffD1]) simp_all
    ultimately show ?thesis using False by simp
  qed
  have "unat es dvd unat (nsize d)"
  proof (cases "m = 0")
    case False
    have "unat sz = unat es * (unat sz div unat es) + m" by (simp add: m_def)
    then have "unat (nsize d) = unat es * (unat sz div unat es + 1)" using n False m by (simp add: algebra_simps)
    then show ?thesis by simp
  qed (use n m_def in auto)
  then show ?thesis using n es m by auto
qed

text \<open>What an argument with an initial image promises the guest: the files are there, the erase unit is not empty, the size is given.\<close>

definition imaged :: "nand_host \<Rightarrow> nand_args \<Rightarrow> host_file \<Rightarrow> byte list \<Rightarrow> bool" where
  "imaged h a f img \<longleftrightarrow> \<not> ga_ro a \<and> Option.bind (ga_init a) (nh_init h) = Some img \<and>
     Option.bind (if ga_file a = None then nh_temp h else ga_file a) (\<lambda>p. nh_rw h p False) = Some f \<and>
     fbytes f = [] \<and> fpos f = 0 \<and> length img \<le> fcap f \<and>
     ga_pages a * (ga_page a + ga_extra a) \<noteq> 0 \<and> ga_size a \<noteq> 0 \<and> unat (ga_size a) + 2 ^ 32 \<le> 2 ^ 64"


definition system_arg :: string where
  "system_arg = ''system,size=0x21000,initfile=/sdk/system.img''"

definition sample_nand_host :: nand_host where
  "sample_nand_host = \<lparr>nh_temp = Some ''/tmp/a'', nh_rw = (\<lambda>p ro. Some \<lparr>fbytes = [], fpos = 0, fcap = 1000000\<rparr>),
     nh_init = (\<lambda>p. if p = ''/sdk/system.img'' then Some [1, 2, 3] else None)\<rparr>"

definition system_args :: nand_args where
  "system_args = default_args\<lparr>ga_name := Some ''system'', ga_size := 0x21000, ga_init := Some ''/sdk/system.img''\<rparr>"

lemmas number_simps = number_arg_def strtoull_def number_base_def blank_def is_digit_of_def digit_value_def

lemma system_parsed: "parse_args default_args system_arg = Some system_args"
  by (simp add: parse_args.simps parse_arg_def Let_def system_arg_def system_args_def default_args_def number_simps)


text \<open>
  Remark (error). The path of an image is cut at its first comma: an argument that \<open>android/main.c\<close> builds from a
  directory with a comma in its name ends the emulator with a bad argument, unless what follows the comma is an option.
\<close>

theorem nand_comma_in_path: "nand_add_dev h n ''userdata,size=0x21000,file=/home/a,b/userdata.img'' = None"
proof -
  have "parse_args default_args ''userdata,size=0x21000,file=/home/a,b/userdata.img'' = None"
    by (simp add: parse_args.simps parse_arg_def Let_def default_args_def number_simps)
  then show ?thesis by (simp add: nand_add_dev_def)
qed

end
