(* ===== verification/Goldfish_Mmc.thy ===== *)
theory Goldfish_Mmc
  imports Goldfish_Nand Goldfish_Board
begin

unbundle bit_operations_syntax

text \<open>
  The memory card reader (\<open>hw/goldfish_mmc.c\<close>): the guest gives an MMC or SD command and its argument through registers; data
  goes between the sectors of a block device and a buffer in guest memory.

  The block device (\<open>block.c\<close>) is the list of its sectors, of 512 bytes each, and whether it may be written; the driver behind it is
  taken to read and write the sectors that exist. A disk has fewer than \<open>2 ^ 63\<close> bytes.
\<close>

section \<open>The block device\<close>

record block_device =
  sectors :: "byte list list"
  bs_read_only :: bool

definition EIO :: int where "EIO = 5"
definition EACCES :: int where "EACCES = 13"

definition bdrv_get_geometry :: "block_device \<Rightarrow> nat" where
  "bdrv_get_geometry bs = length (sectors bs)"

text \<open>One sector: the sector read, or the error.\<close>

definition bdrv_read :: "block_device \<Rightarrow> nat \<Rightarrow> int + byte list" where
  "bdrv_read bs n = (if n < length (sectors bs) then Inr (sectors bs ! n) else Inl (- EIO))"

definition bdrv_write :: "block_device \<Rightarrow> nat \<Rightarrow> byte list \<Rightarrow> int + block_device" where
  "bdrv_write bs n data =
     (if bs_read_only bs then Inl (- EACCES)
      else if n < length (sectors bs) then Inr (bs\<lparr>sectors := (sectors bs)[n := data]\<rparr>)
      else Inl (- EIO))"

section \<open>State and registers\<close>

text \<open>\<open>buf\<close> is filled before each use and \<open>read_offset\<close> and \<open>write_offset\<close> are never used; they have no fields.\<close>

record mmc_state =
  mmc_bs :: block_device
  buffer_address :: u32
  mmc_int_status :: u32
  mmc_int_enable :: u32
  mmc_arg :: u32
  resp0 :: u32
  resp1 :: u32
  resp2 :: u32
  resp3 :: u32
  block_length :: u32
  block_count :: u32
  is_SDHC :: bool

definition MMC_INT_STATUS :: u32 where "MMC_INT_STATUS = 0x00"
definition MMC_INT_ENABLE :: u32 where "MMC_INT_ENABLE = 0x04"
definition MMC_SET_BUFFER :: u32 where "MMC_SET_BUFFER = 0x08"
definition MMC_CMD :: u32 where "MMC_CMD = 0x0C"
definition MMC_ARG :: u32 where "MMC_ARG = 0x10"
definition MMC_RESP_0 :: u32 where "MMC_RESP_0 = 0x14"
definition MMC_RESP_1 :: u32 where "MMC_RESP_1 = 0x18"
definition MMC_RESP_2 :: u32 where "MMC_RESP_2 = 0x1C"
definition MMC_RESP_3 :: u32 where "MMC_RESP_3 = 0x20"
definition MMC_BLOCK_LENGTH :: u32 where "MMC_BLOCK_LENGTH = 0x24"
definition MMC_BLOCK_COUNT :: u32 where "MMC_BLOCK_COUNT = 0x28"
definition MMC_STATE :: u32 where "MMC_STATE = 0x2C"
definition MMC_STAT_END_OF_CMD :: u32 where "MMC_STAT_END_OF_CMD = 1"
definition MMC_STAT_END_OF_DATA :: u32 where "MMC_STAT_END_OF_DATA = 2"
definition MMC_STATE_INSERTED :: u32 where "MMC_STATE_INSERTED = 1"
definition MMC_STATE_READ_ONLY :: u32 where "MMC_STATE_READ_ONLY = 2"
definition R1_READY_FOR_DATA :: u32 where "R1_READY_FOR_DATA = 0x100"
definition R1_APP_CMD :: u32 where "R1_APP_CMD = 0x20"

definition SET_R1_CURRENT_STATE :: "u32 \<Rightarrow> u32" where
  "SET_R1_CURRENT_STATE s = push_bit 9 s AND 0x00001E00"

lemmas mmc_regs = MMC_INT_STATUS_def MMC_INT_ENABLE_def MMC_SET_BUFFER_def MMC_CMD_def MMC_ARG_def MMC_RESP_0_def MMC_RESP_1_def
  MMC_RESP_2_def MMC_RESP_3_def MMC_BLOCK_LENGTH_def MMC_BLOCK_COUNT_def MMC_STATE_def

lemmas mmc_bits = MMC_STAT_END_OF_CMD_def MMC_STAT_END_OF_DATA_def MMC_STATE_INSERTED_def MMC_STATE_READ_ONLY_def
  R1_READY_FOR_DATA_def R1_APP_CMD_def SET_R1_CURRENT_STATE_def

definition set_resp :: "u32 \<times> u32 \<times> u32 \<times> u32 \<Rightarrow> mmc_state \<Rightarrow> mmc_state" where
  "set_resp r s = (case r of (r3, r2, r1, r0) \<Rightarrow> s\<lparr>resp3 := r3, resp2 := r2, resp1 := r1, resp0 := r0\<rparr>)"

section \<open>Transfers\<close>

fun goldfish_mmc_bdrv_read :: "block_device \<Rightarrow> nat \<Rightarrow> u32 \<Rightarrow> nat \<Rightarrow> guest_mem \<Rightarrow> int \<times> guest_mem" where
  "goldfish_mmc_bdrv_read d sector dst 0 mem = (0, mem)"
| "goldfish_mmc_bdrv_read d sector dst (Suc n) mem =
     (case bdrv_read d sector of
        Inl e \<Rightarrow> (e, mem)
      | Inr data \<Rightarrow> goldfish_mmc_bdrv_read d (sector + 1) (dst + 512) n (mem_put mem dst data))"

fun goldfish_mmc_bdrv_write :: "block_device \<Rightarrow> nat \<Rightarrow> u32 \<Rightarrow> nat \<Rightarrow> guest_mem \<Rightarrow> int \<times> block_device" where
  "goldfish_mmc_bdrv_write d sector dst 0 mem = (0, d)"
| "goldfish_mmc_bdrv_write d sector dst (Suc n) mem =
     (case bdrv_write d sector (mem_range mem dst 512) of
        Inl e \<Rightarrow> (e, d)
      | Inr d \<Rightarrow> goldfish_mmc_bdrv_write d (sector + 1) (dst + 512) n mem)"

text \<open>The count is passed as an \<open>int\<close>: from \<open>2 ^ 31\<close> on it is negative and nothing is transferred.\<close>

definition sector_count :: "mmc_state \<Rightarrow> nat" where
  "sector_count s = nat (sint (block_count s))"

text \<open>The first sector: an SDHC card is addressed by sectors, others by bytes, divided by the block length.\<close>

definition first_sector :: "mmc_state \<Rightarrow> u32 \<Rightarrow> nat outcome" where
  "first_sector s arg =
     (if is_SDHC s then Inr (unat arg)
      else if block_length s = 0 then Inl Undefined
      else Inr (unat (arg div block_length s)))"

section \<open>The capacity register\<close>

text \<open>The loop that halves the capacity until it fits 12 bits.\<close>

function csd_loop :: "nat \<Rightarrow> nat \<Rightarrow> nat \<times> nat" where
  "csd_loop exponent capacity = (if capacity > 4096 then csd_loop (exponent + 1) (capacity div 2) else (exponent, capacity))"
  by auto
termination by (relation "measure snd") auto

declare csd_loop.simps [simp del]

definition send_csd :: "nat \<Rightarrow> (bool \<times> u32 \<times> u32 \<times> u32 \<times> u32) outcome" where
  "send_csd count =
     (let capacity = count * 512
      in if capacity > 2147483648 then
           (let m = of_nat (capacity div (512 * 1024)) - 1 :: u32
            in if m AND 0xFFC00000 \<noteq> 0 then Inl Cpu_abort
               else Inr (True, 0x400E0032, 0x5B590000 OR drop_bit 16 m, 0x00007F80 OR push_bit 16 (m AND 0x0000FFFF), 0x0A4040DF))
         else
           (let (exponent, capacity) = csd_loop 0 (capacity div 1024);
                capacity = capacity - 1
            in if exponent < 2 then Inl Cpu_abort
               else if exponent - 2 > 7 then Inl Cpu_abort
               else Inr (False, 0x00260032, 0x5F5A8000 OR (drop_bit 2 (of_nat capacity) AND 0x3FF),
                      0x3EF84FFF OR push_bit 30 (of_nat capacity AND 3) OR push_bit 15 (of_nat (exponent - 2)), 0x928040CB)))"

section \<open>Commands\<close>

definition r1_resp :: "u32 \<Rightarrow> mmc_state \<Rightarrow> mmc_state" where
  "r1_resp v s = s\<lparr>resp0 := v\<rparr>"

definition r1_tran :: u32 where
  "r1_tran = SET_R1_CURRENT_STATE 4 OR R1_READY_FOR_DATA"

definition SCR :: "byte list" where
  "SCR = [0x02, 0x25, 0, 0, 0, 0, 0, 0]"

definition switch_status :: "byte list" where
  "switch_status = (replicate 64 0)[13 := 2]"

definition mmc_read_blocks :: "mmc_state \<Rightarrow> guest_mem \<Rightarrow> u32 \<Rightarrow> (mmc_state \<times> guest_mem \<times> u32) outcome" where
  "mmc_read_blocks s mem arg =
     map_sum id (\<lambda>sector. (r1_resp r1_tran s, snd (goldfish_mmc_bdrv_read (mmc_bs s) sector (buffer_address s) (sector_count s) mem),
         MMC_STAT_END_OF_CMD OR MMC_STAT_END_OF_DATA)) (first_sector s arg)"

definition mmc_write_blocks :: "mmc_state \<Rightarrow> guest_mem \<Rightarrow> u32 \<Rightarrow> (mmc_state \<times> guest_mem \<times> u32) outcome" where
  "mmc_write_blocks s mem arg =
     map_sum id (\<lambda>sector. (r1_resp r1_tran (s\<lparr>mmc_bs := snd (goldfish_mmc_bdrv_write (mmc_bs s) sector (buffer_address s) (sector_count s) mem)\<rparr>), mem,
         MMC_STAT_END_OF_CMD OR MMC_STAT_END_OF_DATA)) (first_sector s arg)"

text \<open>The \<open>switch\<close> over the command: the state, guest memory and the new status.\<close>

definition mmc_opcode :: "mmc_state \<Rightarrow> guest_mem \<Rightarrow> u32 \<Rightarrow> u32 \<Rightarrow> (mmc_state \<times> guest_mem \<times> u32) outcome" where
  "mmc_opcode s mem opcode arg =
     (let cmd = MMC_STAT_END_OF_CMD; cmd_data = MMC_STAT_END_OF_CMD OR MMC_STAT_END_OF_DATA
      in if opcode = 9 then
           map_sum id (\<lambda>(sdhc, r). (set_resp r (s\<lparr>is_SDHC := sdhc\<rparr>), mem, cmd)) (send_csd (bdrv_get_geometry (mmc_bs s)))
         else if opcode = 8 then Inr (r1_resp arg s, mem, cmd)
         else if opcode = 55 then Inr (r1_resp (r1_tran OR R1_APP_CMD) s, mem, cmd)
         else if opcode = 41 then Inr (r1_resp 0x80FF8000 s, mem, cmd)
         else if opcode = 51 then Inr (r1_resp (r1_tran OR R1_APP_CMD) s, mem_put mem (buffer_address s) SCR, cmd_data)
         else if opcode = 3 then Inr (r1_resp (- 518519520) s, mem, cmd)
         else if opcode = 2 then Inr (set_resp (55788627, 1429221959, - 2147479692, - 436179883) s, mem, cmd)
         else if opcode = 7 then Inr (r1_resp (SET_R1_CURRENT_STATE 3 OR R1_READY_FOR_DATA) s, mem, cmd)
         else if opcode = 6 then
           (if arg = 0x00FFFFF1 \<or> arg = 0x80FFFFF1
            then Inr (r1_resp (r1_tran OR R1_APP_CMD) s, mem_put mem (buffer_address s) switch_status, cmd_data)
            else Inr (r1_resp (r1_tran OR R1_APP_CMD) s, mem, cmd))
         else if opcode = 16 then Inr (r1_resp r1_tran (s\<lparr>block_length := arg\<rparr>), mem, cmd)
         else if opcode = 17 then mmc_read_blocks (s\<lparr>block_count := 1\<rparr>) mem arg
         else if opcode = 18 then mmc_read_blocks s mem arg
         else if opcode = 24 then mmc_write_blocks (s\<lparr>block_count := 1\<rparr>) mem arg
         else if opcode = 25 then mmc_write_blocks s mem arg
         else if opcode = 12 then Inr (r1_resp (SET_R1_CURRENT_STATE 5 OR R1_READY_FOR_DATA) s, mem, cmd)
         else if opcode = 13 then Inr (r1_resp r1_tran s, mem, cmd)
         else Inr (s, mem, cmd))"

definition goldfish_mmc_do_command :: "mmc_state \<Rightarrow> guest_mem \<Rightarrow> u32 \<Rightarrow> u32 \<Rightarrow> (mmc_state \<times> guest_mem \<times> effect list) outcome" where
  "goldfish_mmc_do_command s mem cmd arg =
     map_sum id (\<lambda>(s, mem, new_status).
         let s = s\<lparr>mmc_int_status := mmc_int_status s OR new_status\<rparr>;
             level = mmc_int_status s AND mmc_int_enable s
         in (s, mem, if level \<noteq> 0 then [Set_irq 0 (sint level)] else []))
       (mmc_opcode (set_resp (0, 0, 0, 0) s) mem (cmd AND 63) arg)"

definition goldfish_mmc_read :: "mmc_state \<Rightarrow> u32 \<Rightarrow> u32 outcome" where
  "goldfish_mmc_read s off =
     (if off = MMC_INT_STATUS then Inr (mmc_int_status s AND mmc_int_enable s)
      else if off = MMC_RESP_0 then Inr (resp0 s)
      else if off = MMC_RESP_1 then Inr (resp1 s)
      else if off = MMC_RESP_2 then Inr (resp2 s)
      else if off = MMC_RESP_3 then Inr (resp3 s)
      else if off = MMC_STATE then Inr (if bs_read_only (mmc_bs s) then MMC_STATE_INSERTED OR MMC_STATE_READ_ONLY else MMC_STATE_INSERTED)
      else Inl Cpu_abort)"

definition goldfish_mmc_write :: "mmc_state \<Rightarrow> guest_mem \<Rightarrow> u32 \<Rightarrow> u32 \<Rightarrow> (mmc_state \<times> guest_mem \<times> effect list) outcome" where
  "goldfish_mmc_write s mem off val =
     (if off = MMC_INT_STATUS then
        (let status = mmc_int_status s AND NOT val
         in Inr (s\<lparr>mmc_int_status := status\<rparr>, mem, if status \<noteq> mmc_int_status s then [Set_irq 0 (sint status)] else []))
      else if off = MMC_INT_ENABLE then Inr (s\<lparr>mmc_int_enable := val, mmc_int_status := 0\<rparr>, mem, [Set_irq 0 0])
      else if off = MMC_SET_BUFFER then Inr (s\<lparr>buffer_address := val\<rparr>, mem, [])
      else if off = MMC_CMD then goldfish_mmc_do_command s mem val (mmc_arg s)
      else if off = MMC_ARG then Inr (s\<lparr>mmc_arg := val\<rparr>, mem, [])
      else if off = MMC_BLOCK_LENGTH then Inr (s\<lparr>block_length := val + 1\<rparr>, mem, [])
      else if off = MMC_BLOCK_COUNT then Inr (s\<lparr>block_count := val + 1\<rparr>, mem, [])
      else Inl Cpu_abort)"

definition goldfish_mmc_init :: "block_device \<Rightarrow> mmc_state" where
  "goldfish_mmc_init d = \<lparr>mmc_bs = d, buffer_address = 0, mmc_int_status = 0, mmc_int_enable = 0, mmc_arg = 0,
     resp0 = 0, resp1 = 0, resp2 = 0, resp3 = 0, block_length = 0, block_count = 0, is_SDHC = False\<rparr>"

section \<open>Sectors and bytes\<close>

definition disk_wf :: "block_device \<Rightarrow> bool" where
  "disk_wf d \<longleftrightarrow> list_all (\<lambda>x. length x = 512) (sectors d)"

definition disk_bytes :: "block_device \<Rightarrow> byte list" where
  "disk_bytes d = concat (sectors d)"

lemma length_concat_sectors: "list_all (\<lambda>x. length x = 512) ss \<Longrightarrow> length (concat ss) = 512 * length ss"
  by (induction ss) auto

lemma take_sectors: "list_all (\<lambda>x. length x = 512) ss \<Longrightarrow> take (512 * k) (concat ss) = concat (take k ss)"
proof (induction ss arbitrary: k)
  case (Cons x ss)
  then show ?case by (cases k) auto
qed simp

lemma drop_sectors: "list_all (\<lambda>x. length x = 512) ss \<Longrightarrow> drop (512 * k) (concat ss) = concat (drop k ss)"
proof (induction ss arbitrary: k)
  case (Cons x ss)
  then show ?case by (cases k) auto
qed simp

lemma read_sectors:
  assumes "disk_wf d" "sector + n \<le> length (sectors d)" "512 * n \<le> 2 ^ 32"
  shows "goldfish_mmc_bdrv_read d sector dst n mem = (0, mem_put mem dst (take (512 * n) (drop (512 * sector) (disk_bytes d))))"
  using assms(2,3)
proof (induction n arbitrary: sector dst mem)
  case (Suc n)
  let ?x = "sectors d ! sector" and ?r = "take (512 * n) (drop (512 * (sector + 1)) (disk_bytes d))"
  have x: "length ?x = 512" using Suc.prems assms(1) by (simp add: disk_wf_def list_all_length)
  have d: "drop (512 * sector) (disk_bytes d) = ?x @ drop (512 * (sector + 1)) (disk_bytes d)"
    using Suc.prems(1) assms(1) drop_sectors [of "sectors d" sector] drop_sectors [of "sectors d" "sector + 1"]
      Cons_nth_drop_Suc [of sector "sectors d", symmetric] by (simp add: disk_bytes_def disk_wf_def)
  have "length ?r \<le> 512 * n" by simp
  then have "mem_put (mem_put mem dst ?x) (dst + of_nat (length ?x)) ?r = mem_put mem dst (?x @ ?r)"
    using Suc.prems(2) x by (intro mem_put_append) simp
  then show ?case using Suc.prems Suc.IH [of "sector + 1" "dst + 512" "mem_put mem dst ?x"] x d by (simp add: bdrv_read_def)
qed simp

lemma mem_range_append: "mem_range mem a (k + n) = mem_range mem a k @ mem_range mem (a + of_nat k) n"
  by (rule nth_equalityI) (auto simp: mem_range_def nth_append algebra_simps simp flip: of_nat_add)

lemma write_sectors:
  assumes "disk_wf d" "sector + n \<le> length (sectors d)" "\<not> bs_read_only d"
  shows "\<exists>d'. goldfish_mmc_bdrv_write d sector dst n mem = (0, d') \<and> disk_wf d' \<and> bs_read_only d' = bs_read_only d \<and>
    disk_bytes d' = take (512 * sector) (disk_bytes d) @ mem_range mem dst (512 * n) @ drop (512 * (sector + n)) (disk_bytes d)"
  using assms
proof (induction n arbitrary: d sector dst)
  case 0
  then show ?case by (simp add: mem_range_def)
next
  case (Suc n)
  let ?x = "mem_range mem dst 512"
  let ?d = "d\<lparr>sectors := (sectors d)[sector := ?x]\<rparr>"
  have wf: "disk_wf ?d" using Suc.prems(1) by (auto simp: disk_wf_def list_all_iff dest!: subsetD [OF set_update_subset_insert])
  obtain d' where d': "goldfish_mmc_bdrv_write ?d (sector + 1) (dst + 512) n mem = (0, d')" "disk_wf d'" "bs_read_only d' = bs_read_only d"
      "disk_bytes d' = take (512 * (sector + 1)) (disk_bytes ?d) @ mem_range mem (dst + 512) (512 * n) @ drop (512 * (sector + 1 + n)) (disk_bytes ?d)"
    using Suc.IH [OF wf, of "sector + 1" "dst + 512"] Suc.prems by auto
  have t: "take (512 * (sector + 1)) (disk_bytes ?d) = take (512 * sector) (disk_bytes d) @ ?x"
    using Suc.prems(1,2) wf take_sectors [of "sectors ?d" "sector + 1"] take_sectors [of "sectors d" sector]
    by (simp add: disk_bytes_def disk_wf_def take_Suc_conv_app_nth)
  have e: "drop (512 * (sector + 1 + n)) (disk_bytes ?d) = drop (512 * (sector + Suc n)) (disk_bytes d)"
    using Suc.prems(1,2) wf drop_sectors [of "sectors ?d" "sector + 1 + n"] drop_sectors [of "sectors d" "sector + Suc n"]
    by (simp add: disk_bytes_def disk_wf_def)
  have m: "mem_range mem dst (512 * Suc n) = ?x @ mem_range mem (dst + 512) (512 * n)"
    using mem_range_append [of mem dst 512 "512 * n"] by simp
  show ?case using Suc.prems d' unfolding t e m by (auto simp: bdrv_write_def)
qed

lemma do_command_read:
  "first_sector s arg = Inr sec \<Longrightarrow>
   \<exists>s' es. goldfish_mmc_do_command s mem 18 arg =
      Inr (s', snd (goldfish_mmc_bdrv_read (mmc_bs s) sec (buffer_address s) (sector_count s) mem), es) \<and>
     mmc_bs s' = mmc_bs s \<and> resp0 s' = r1_tran \<and> mmc_int_status s' = mmc_int_status s OR 3"
  by (simp add: goldfish_mmc_do_command_def mmc_opcode_def mmc_read_blocks_def first_sector_def set_resp_def r1_resp_def sector_count_def
      mmc_bits Let_def split: if_splits)

lemma do_command_write:
  "first_sector s arg = Inr sec \<Longrightarrow>
   \<exists>s' es. goldfish_mmc_do_command s mem 25 arg = Inr (s', mem, es) \<and> resp0 s' = r1_tran \<and>
     mmc_bs s' = snd (goldfish_mmc_bdrv_write (mmc_bs s) sec (buffer_address s) (sector_count s) mem)"
  by (simp add: goldfish_mmc_do_command_def mmc_opcode_def mmc_write_blocks_def first_sector_def set_resp_def r1_resp_def sector_count_def
      mmc_bits Let_def split: if_splits)

section \<open>Properties\<close>

text \<open>
  Property C11 (refinement). A card is an array of bytes. A transfer of \<open>n\<close> sectors that all exist moves \<open>512 * n\<close> bytes at once: a read
  command puts them in the buffer in guest memory and leaves the card alone, a write command replaces exactly these
  bytes of the card by those of the buffer.
\<close>

theorem mmc_transfers_bytes:
  assumes "disk_wf (mmc_bs s)" "first_sector s arg = Inr sec" "n = sector_count s" "sec + n \<le> length (sectors (mmc_bs s))" "n \<le> 2 ^ 23"
  shows "(\<exists>s' es. goldfish_mmc_do_command s mem 18 arg =
        Inr (s', mem_put mem (buffer_address s) (take (512 * n) (drop (512 * sec) (disk_bytes (mmc_bs s)))), es) \<and> mmc_bs s' = mmc_bs s) \<and>
    (\<not> bs_read_only (mmc_bs s) \<longrightarrow> (\<exists>s' es. goldfish_mmc_do_command s mem 25 arg = Inr (s', mem, es) \<and> disk_wf (mmc_bs s') \<and>
        disk_bytes (mmc_bs s') = take (512 * sec) (disk_bytes (mmc_bs s)) @ mem_range mem (buffer_address s) (512 * n) @
          drop (512 * (sec + n)) (disk_bytes (mmc_bs s))))"
proof (intro conjI impI)
  have "512 * n \<le> 2 ^ 32" using assms(5) by simp
  note R = read_sectors [OF assms(1,4) this]
  show "\<exists>s' es. goldfish_mmc_do_command s mem 18 arg =
        Inr (s', mem_put mem (buffer_address s) (take (512 * n) (drop (512 * sec) (disk_bytes (mmc_bs s)))), es) \<and> mmc_bs s' = mmc_bs s"
    using do_command_read [OF assms(2), of mem] R assms(3) by auto
next
  assume "\<not> bs_read_only (mmc_bs s)"
  from write_sectors [OF assms(1,4) this, of "buffer_address s" mem] do_command_write [OF assms(2), of mem] assms(3)
  show "\<exists>s' es. goldfish_mmc_do_command s mem 25 arg = Inr (s', mem, es) \<and> disk_wf (mmc_bs s') \<and>
        disk_bytes (mmc_bs s') = take (512 * sec) (disk_bytes (mmc_bs s)) @ mem_range mem (buffer_address s) (512 * n) @
          drop (512 * (sec + n)) (disk_bytes (mmc_bs s))" by force
qed

definition sample_card :: mmc_state where
  "sample_card = (goldfish_mmc_init \<lparr>sectors = [replicate 512 1, replicate 512 2], bs_read_only = False\<rparr>)
     \<lparr>block_length := 512, block_count := 1, mmc_int_enable := 3\<rparr>"

theorem mmc_transfers_bytes_witness:
  "\<exists>s' es. goldfish_mmc_do_command sample_card (\<lambda>_. 0) 18 512 = Inr (s', mem_put (\<lambda>_. 0) 0 (replicate 512 2), es)"
proof -
  have "disk_wf (mmc_bs sample_card)" "first_sector sample_card 512 = Inr 1" "(1 :: nat) = sector_count sample_card"
      "1 + 1 \<le> length (sectors (mmc_bs sample_card))" "(1 :: nat) \<le> 2 ^ 23"
    by (simp_all add: sample_card_def goldfish_mmc_init_def disk_wf_def first_sector_def sector_count_def)
  from mmc_transfers_bytes [OF this, of "\<lambda>_. 0"] show ?thesis
    by (auto simp: sample_card_def goldfish_mmc_init_def disk_bytes_def)
qed

text \<open>
  Remark (error). The guest is not told that a read failed: behind the end of the card nothing is transferred, but the
  response has no error bit (\<open>R1_STATUS\<close>, the bits from 13 on, is zero) and the end of the data is signalled.
\<close>

theorem mmc_read_past_end:
  assumes "first_sector s arg = Inr sec" "length (sectors (mmc_bs s)) \<le> sec" "0 < sector_count s"
  shows "fst (goldfish_mmc_bdrv_read (mmc_bs s) sec (buffer_address s) (sector_count s) mem) < 0 \<and>
    (\<exists>s' es. goldfish_mmc_do_command s mem 18 arg = Inr (s', mem, es) \<and> resp0 s' AND 0xFFFFE000 = 0 \<and>
       mmc_int_status s' AND MMC_STAT_END_OF_DATA \<noteq> 0)"
proof -
  obtain n where "sector_count s = Suc n" using assms(3) by (cases "sector_count s") auto
  then have r: "goldfish_mmc_bdrv_read (mmc_bs s) sec (buffer_address s) (sector_count s) mem = (- EIO, mem)"
    using assms(2) by (simp add: bdrv_read_def)
  have "(x OR 3) AND 2 \<noteq> (0 :: u32)" for x
  proof
    assume "(x OR 3) AND 2 = 0"
    moreover have "bit ((x OR 3) AND 2) 1" by (simp add: bit_or_iff bit_and_iff)
    ultimately show False by simp
  qed
  then show ?thesis using do_command_read [OF assms(1), of mem] r
    by (auto simp: EIO_def r1_tran_def mmc_bits)
qed


theorem mmc_read_past_end_witness:
  "\<exists>s' es. goldfish_mmc_do_command sample_card (\<lambda>_. 0) 18 1024 = Inr (s', \<lambda>_. 0, es) \<and> resp0 s' AND 0xFFFFE000 = 0"
proof -
  have "first_sector sample_card 1024 = Inr 2" "length (sectors (mmc_bs sample_card)) \<le> 2" "0 < sector_count sample_card"
    by (simp_all add: sample_card_def goldfish_mmc_init_def first_sector_def sector_count_def)
  from mmc_read_past_end [OF this, of "\<lambda>_. 0"] show ?thesis by blast
qed

text \<open>
  Remark (error). The block length that divides the address is the guest's: on a card that is not SDHC, with a block
  length of zero, as after the start, each of the four transfer commands divides by zero.
\<close>

theorem mmc_zero_block_length:
  assumes "\<not> is_SDHC s" "block_length s = 0" "cmd \<in> {17, 18, 24, 25}"
  shows "goldfish_mmc_do_command s mem cmd arg = Inl Undefined"
  using assms by (auto simp: goldfish_mmc_do_command_def mmc_opcode_def mmc_read_blocks_def mmc_write_blocks_def first_sector_def set_resp_def)

theorem mmc_zero_block_length_witness:
  "goldfish_mmc_do_command (goldfish_mmc_init \<lparr>sectors = [], bs_read_only = False\<rparr>) (\<lambda>_. 0) 17 0 = Inl Undefined"
  by (rule mmc_zero_block_length) (simp_all add: goldfish_mmc_init_def)

section \<open>The capacity of a card\<close>

text \<open>What the guest computes from the register, in kilobytes: for a standard card and for an SDHC card.\<close>

definition csd_kbytes :: "bool \<Rightarrow> u32 \<Rightarrow> u32 \<Rightarrow> nat" where
  "csd_kbytes sdhc hi lo =
     (if sdhc then (unat (drop_bit 16 lo) + 65536 * unat (hi AND 0x3F) + 1) * 512
      else (unat (drop_bit 30 lo) + 4 * unat (hi AND 0x3FF) + 1) * 2 ^ (unat (drop_bit 15 lo AND 7) + 2))"

lemma csd_loop_ok:
  "csd_loop e c = (e', c') \<Longrightarrow> e \<le> e' \<and> c' = c div 2 ^ (e' - e) \<and> c' \<le> 4096 \<and> (e < e' \<longrightarrow> 4096 < c div 2 ^ (e' - e - 1))"
proof (induction e c arbitrary: e' c' rule: csd_loop.induct)
  case (1 e c)
  have half: "c div 2 div 2 ^ k = c div 2 ^ Suc k" for k by (simp add: div_mult2_eq)
  show ?case
  proof (cases "c > 4096")
    case True
    then have r: "csd_loop (e + 1) (c div 2) = (e', c')" using "1.prems" by (subst (asm) csd_loop.simps) simp
    from "1.IH" [OF True r] have h: "e + 1 \<le> e'" "c' = c div 2 div 2 ^ (e' - (e + 1))" "c' \<le> 4096"
        "e + 1 < e' \<longrightarrow> 4096 < c div 2 div 2 ^ (e' - (e + 1) - 1)" by auto
    have "Suc (e' - (e + 1)) = e' - e" "e + 1 < e' \<Longrightarrow> Suc (e' - (e + 1) - 1) = e' - e - 1" using h(1) by auto
    then show ?thesis using h True unfolding half by (cases "e' = e + 1") auto
  next
    case False
    then show ?thesis using "1.prems" by (subst (asm) csd_loop.simps) simp
  qed
qed

lemma low2_cases: "(c :: u32) AND 3 = 0 \<or> c AND 3 = 1 \<or> c AND 3 = 2 \<or> c AND 3 = 3"
proof -
  have "c AND 3 = take_bit 2 c" by (simp add: take_bit_eq_mask mask_eq_exp_minus_1)
  then have "unat (c AND 3) < 4" using take_bit_nat_less_exp [of 2 "unat c"] by (simp add: unsigned_take_bit_eq)
  then have "unat (c AND 3) \<in> {0, 1, 2, 3}" by auto
  then show ?thesis by (auto simp: word_unat_eq_iff)
qed

lemma and_3_unat: "unat (of_nat c AND 3 :: u32) = c mod 4"
proof -
  have "of_nat c AND 3 = (take_bit 2 (of_nat c) :: u32)" by (simp add: take_bit_eq_mask mask_eq_exp_minus_1)
  also have "unat \<dots> = take_bit 2 (take_bit 32 c)" by (simp add: unsigned_take_bit_eq unsigned_of_nat)
  finally show ?thesis using mod_mod_cancel [of 4 "2 ^ 32" c] by (simp add: take_bit_eq_mod)
qed

lemma sd_low_fields:
  assumes "e < 8"
  shows "drop_bit 30 (0x3EF84FFF OR push_bit 30 (c AND 3) OR push_bit 15 (of_nat e)) = (c AND 3 :: u32)"
    and "drop_bit 15 (0x3EF84FFF OR push_bit 30 (c AND 3) OR push_bit 15 (of_nat e)) AND 7 = (of_nat e :: u32)"
proof -
  have "e = 0 \<or> e = 1 \<or> e = 2 \<or> e = 3 \<or> e = 4 \<or> e = 5 \<or> e = 6 \<or> e = 7" using assms by linarith
  then show "drop_bit 30 (0x3EF84FFF OR push_bit 30 (c AND 3) OR push_bit 15 (of_nat e)) = (c AND 3 :: u32)"
    and "drop_bit 15 (0x3EF84FFF OR push_bit 30 (c AND 3) OR push_bit 15 (of_nat e)) AND 7 = (of_nat e :: u32)"
    using low2_cases [of c] by (elim disjE; simp)+
qed

lemma sd_high_field:
  assumes "c < 4096"
  shows "unat ((0x5F5A8000 OR (drop_bit 2 (of_nat c) AND 0x3FF)) AND 0x3FF :: u32) = c div 4"
proof -
  have "(0x5F5A8000 OR (drop_bit 2 (of_nat c) AND 0x3FF)) AND 0x3FF = (take_bit 10 (drop_bit 2 (of_nat c)) :: u32)"
    by (simp add: bit.conj_disj_distrib2 and.assoc take_bit_eq_mask mask_eq_exp_minus_1)
  also have "unat \<dots> = take_bit 10 (drop_bit 2 (take_bit 32 c))"
    by (simp add: unsigned_take_bit_eq unsigned_drop_bit_eq unsigned_of_nat)
  finally show ?thesis using assms by (simp add: take_bit_eq_mod drop_bit_eq_div)
qed

lemma sdhc_fields:
  assumes "m < 2 ^ 22"
  shows "unat (drop_bit 16 (0x00007F80 OR push_bit 16 (of_nat m AND 0x0000FFFF)) :: u32) = m mod 65536"
    and "unat ((0x5B590000 OR drop_bit 16 (of_nat m)) AND 0x3F :: u32) = m div 65536"
proof -
  have "drop_bit 16 (push_bit 16 (take_bit 16 (of_nat m))) = (take_bit 16 (of_nat m) :: u32)"
    by (rule bit_word_eqI) (auto simp: bit_simps)
  then have "drop_bit 16 (0x00007F80 OR push_bit 16 (of_nat m AND 0x0000FFFF)) = (take_bit 16 (of_nat m) :: u32)"
    by (simp add: drop_bit_or take_bit_eq_mask mask_eq_exp_minus_1)
  moreover have "unat (take_bit 16 (of_nat m) :: u32) = take_bit 16 (take_bit 32 m)"
    by (simp add: unsigned_take_bit_eq unsigned_of_nat)
  ultimately show "unat (drop_bit 16 (0x00007F80 OR push_bit 16 (of_nat m AND 0x0000FFFF)) :: u32) = m mod 65536"
    using assms by (simp only:) (simp add: take_bit_eq_mod)
  have "(0x5B590000 OR drop_bit 16 (of_nat m)) AND 0x3F = (take_bit 6 (drop_bit 16 (of_nat m)) :: u32)"
    by (simp add: bit.conj_disj_distrib2 take_bit_eq_mask mask_eq_exp_minus_1)
  moreover have "unat (take_bit 6 (drop_bit 16 (of_nat m)) :: u32) = take_bit 6 (drop_bit 16 (take_bit 32 m))"
    by (simp add: unsigned_take_bit_eq unsigned_drop_bit_eq unsigned_of_nat)
  ultimately show "unat ((0x5B590000 OR drop_bit 16 (of_nat m)) AND 0x3F :: u32) = m div 65536"
    using assms by (simp only:) (simp add: take_bit_eq_mod drop_bit_eq_div)
qed

text \<open>The register of a card of \<open>n\<close> sectors, for the two kinds.\<close>

lemma send_csd_sd:
  assumes "n * 512 \<le> 2147483648" "8194 \<le> n div 2"
  shows "\<exists>hi lo e. send_csd n = Inr (False, 0x00260032, hi, lo, 0x928040CB) \<and>
    csd_kbytes False hi lo = n div 2 div 2 ^ e * 2 ^ e \<and> 2048 \<le> n div 2 div 2 ^ e"
proof -
  obtain e c where l: "csd_loop 0 (n div 2) = (e, c)" by fastforce
  from csd_loop_ok [OF l] have c: "c = n div 2 div 2 ^ e" "c \<le> 4096" "0 < e \<longrightarrow> 4096 < n div 2 div 2 ^ (e - 1)" by auto
  have e2: "2 \<le> e"
  proof (rule ccontr)
    assume "\<not> 2 \<le> e"
    then have "e = 0 \<or> e = 1" by linarith
    then show False using c(1,2) assms(2) by auto
  qed
  have e9: "e \<le> 9"
  proof (rule ccontr)
    assume "\<not> e \<le> 9"
    then have "(2 :: nat) ^ 9 \<le> 2 ^ (e - 1)" by (intro power_increasing) auto
    then have "n div 2 div 2 ^ (e - 1) \<le> n div 2 div 2 ^ 9" by (intro div_le_mono2) auto
    moreover have "n div 2 div 2 ^ 9 \<le> 4096" using assms(1) by simp
    ultimately show False using c(3) e2 by simp
  qed
  have c2: "2048 \<le> c"
  proof -
    obtain k where "e = Suc k" using e2 by (cases e) auto
    then have "c = n div 2 div 2 ^ (e - 1) div 2" using c(1) by (simp add: div_mult2_eq [symmetric] mult.commute)
    then show ?thesis using c(3) e2 by simp
  qed
  define hi lo where "hi = (0x5F5A8000 OR (drop_bit 2 (of_nat (c - 1)) AND 0x3FF) :: u32)"
    and "lo = (0x3EF84FFF OR push_bit 30 (of_nat (c - 1) AND 3) OR push_bit 15 (of_nat (e - 2)) :: u32)"
  have "send_csd n = Inr (False, 0x00260032, hi, lo, 0x928040CB)"
  proof -
    have "\<not> 7 < e - 2" "\<not> e < 2" using e2 e9 by auto
    then show ?thesis using assms(1) l by (simp add: send_csd_def hi_def lo_def Let_def)
  qed
  moreover have "csd_kbytes False hi lo = c * 2 ^ e"
  proof -
    have "unat (drop_bit 30 lo) = (c - 1) mod 4" "unat (drop_bit 15 lo AND 7) = e - 2" "unat (hi AND 0x3FF) = (c - 1) div 4"
      using sd_low_fields [of "e - 2" "of_nat (c - 1)"] and_3_unat [of "c - 1"] sd_high_field [of "c - 1"] e9 c(2) c2
      by (simp_all add: lo_def hi_def unsigned_of_nat take_bit_nat_eq_self)
    moreover have "(c - 1) mod 4 + 4 * ((c - 1) div 4) + 1 = c" using c2 by simp
    moreover have "(2 :: nat) ^ (e - 2 + 2) = 2 ^ e" by (simp only: le_add_diff_inverse2 [OF e2])
    ultimately show ?thesis by (simp only: csd_kbytes_def if_False)
  qed
  ultimately show ?thesis using c(1) c2 by blast
qed

lemma send_csd_sdhc:
  assumes "2147483648 < n * 512" "n < 2 ^ 32 + 1024"
  shows "\<exists>hi lo. send_csd n = Inr (True, 0x400E0032, hi, lo, 0x0A4040DF) \<and> csd_kbytes True hi lo = n div 1024 * 512"
proof -
  define m where "m = n div 1024 - 1"
  have m: "n div 1024 = Suc m" "m < 2 ^ 22" using assms by (auto simp: m_def)
  have w: "of_nat (n * 512 div (512 * 1024)) - 1 = (of_nat m :: u32)" using m(1) by simp
  have "of_nat m AND 0xFFC00000 = (0 :: u32)"
  proof -
    have "(of_nat m :: u32) = take_bit 22 (of_nat m)" using m(2) by (simp add: take_bit_of_nat take_bit_nat_eq_self)
    also have "\<dots> = of_nat m AND 0x3FFFFF" by (simp add: take_bit_eq_mask mask_eq_exp_minus_1)
    finally have "of_nat m AND 0xFFC00000 = (of_nat m AND 0x3FFFFF :: u32) AND 0xFFC00000" by (rule arg_cong)
    also have "\<dots> = 0" by (simp add: and.assoc)
    finally show ?thesis .
  qed
  then have "send_csd n = Inr (True, 0x400E0032, 0x5B590000 OR drop_bit 16 (of_nat m), 0x00007F80 OR push_bit 16 (of_nat m AND 0x0000FFFF), 0x0A4040DF)"
    using assms(1) w by (simp add: send_csd_def Let_def)
  moreover have "csd_kbytes True (0x5B590000 OR drop_bit 16 (of_nat m)) (0x00007F80 OR push_bit 16 (of_nat m AND 0x0000FFFF)) = Suc m * 512"
    using sdhc_fields [OF m(2)] by (simp add: csd_kbytes_def)
  ultimately show ?thesis using m(1) by metis
qed




section \<open>The interrupt line\<close>

definition mmc_wants :: "mmc_state \<times> guest_mem \<Rightarrow> bool" where
  "mmc_wants s \<longleftrightarrow> mmc_int_status (fst s) AND mmc_int_enable (fst s) \<noteq> 0"

text \<open>Register accesses, and stores of the guest to its memory.\<close>

datatype mmc_op = Mmc_mmio mmio | Mmc_mem u32 "byte list"

fun mmc_step :: "mmc_state \<times> guest_mem \<Rightarrow> mmc_op \<Rightarrow> ((mmc_state \<times> guest_mem) \<times> effect list) outcome" where
  "mmc_step (s, mem) (Mmc_mmio (Mmio_read off)) = map_sum id (\<lambda>_. ((s, mem), [])) (goldfish_mmc_read s off)"
| "mmc_step (s, mem) (Mmc_mmio (Mmio_write off v)) = map_sum id (\<lambda>(s, mem, es). ((s, mem), es)) (goldfish_mmc_write s mem off v)"
| "mmc_step (s, mem) (Mmc_mem a data) = Inr ((s, mem_put mem a data), [])"

text \<open>A guest that never masks one of the two events of a command, as the kernel's driver does.\<close>

definition masks_events :: "mmc_op \<Rightarrow> bool" where
  "masks_events x \<longleftrightarrow> (case x of Mmc_mmio (Mmio_write off v) \<Rightarrow> off = MMC_INT_ENABLE \<and> v AND 3 \<noteq> 3 | _ \<Rightarrow> False)"

definition mmc_driver_step :: "mmc_state \<times> guest_mem \<Rightarrow> mmc_op \<Rightarrow> ((mmc_state \<times> guest_mem) \<times> effect list) outcome" where
  "mmc_driver_step s x = (if masks_events x then Inl Undefined else mmc_step s x)"

definition mmc_events :: "mmc_state \<times> guest_mem \<Rightarrow> bool" where
  "mmc_events s \<longleftrightarrow> mmc_int_enable (fst s) AND 3 = 3 \<and> mmc_int_status (fst s) AND 3 = mmc_int_status (fst s)"

definition mmc_quiet :: "mmc_state \<Rightarrow> mmc_state \<Rightarrow> bool" where
  "mmc_quiet s s' \<longleftrightarrow> mmc_int_status s' = mmc_int_status s \<and> mmc_int_enable s' = mmc_int_enable s"

lemma quiet_simps [simp]:
  "mmc_quiet s (r1_resp v s')  = mmc_quiet s s'" "mmc_quiet s (set_resp r s') = mmc_quiet s s'" "mmc_quiet s s"
  "mmc_quiet s (s'\<lparr>is_SDHC := b\<rparr>) = mmc_quiet s s'" "mmc_quiet s (s'\<lparr>block_length := n\<rparr>) = mmc_quiet s s'"
  "mmc_quiet (s\<lparr>block_count := n\<rparr>) s' = mmc_quiet s s'" "mmc_quiet s (s'\<lparr>mmc_bs := d\<rparr>) = mmc_quiet s s'"
  "mmc_quiet (set_resp r s) s' = mmc_quiet s s'"
  by (simp_all add: mmc_quiet_def r1_resp_def set_resp_def split: prod.splits)

lemma blocks_keep:
  "mmc_read_blocks s mem arg = Inr (s', mem', st) \<Longrightarrow> mmc_quiet s s' \<and> st = 3"
  "mmc_write_blocks s mem arg = Inr (s', mem', st) \<Longrightarrow> mmc_quiet s s' \<and> st = 3"
  by (auto simp: mmc_read_blocks_def mmc_write_blocks_def map_sum_Inr_iff mmc_bits)

lemma opcode_keeps:
  assumes "mmc_opcode s mem opcode arg = Inr (s', mem', st)"
  shows "mmc_quiet s s' \<and> (st = 1 \<or> st = 3)"
proof -
  have bits: "MMC_STAT_END_OF_CMD = 1" "MMC_STAT_END_OF_DATA = 2" by (simp_all add: mmc_bits)
  show ?thesis using assms unfolding mmc_opcode_def Let_def bits
    by (simp only: split: if_split_asm) (auto simp: map_sum_Inr_iff dest: blocks_keep)
qed

lemma and_events:
  assumes "e AND 3 = (3 :: u32)" "x AND 3 = x"
  shows "x AND e = x"
proof -
  have "x AND e = (x AND 3) AND e" by (simp only: assms(2))
  also have "\<dots> = x AND (e AND 3)" by (simp only: and.assoc and.commute [of 3 e])
  also have "\<dots> = x" by (simp only: assms)
  finally show ?thesis .
qed

lemma or_events:
  assumes "x AND 3 = x" "st = 1 \<or> st = (3 :: u32)"
  shows "(x OR st) AND 3 = x OR st" "x OR st \<noteq> 0"
  using assms by (auto simp: bit.conj_disj_distrib2 or_eq_0_iff)

lemma and_not_events:
  assumes "x AND 3 = (x :: u32)"
  shows "(x AND NOT v) AND 3 = x AND NOT v"
proof -
  have "(x AND NOT v) AND 3 = (x AND 3) AND NOT v" by (simp only: and.assoc and.commute [of "NOT v" 3])
  then show ?thesis by (simp only: assms)
qed

lemma command_line:
  assumes "mmc_int_enable t AND 3 = 3" "mmc_int_status t AND 3 = mmc_int_status t" "goldfish_mmc_do_command t mem cmd arg = Inr (t', mem', es)"
  shows "mmc_events (t', mem') \<and> line_after (mmc_wants (t, mem)) es = mmc_wants (t', mem')"
proof -
  obtain t1 st where o: "mmc_opcode (set_resp (0, 0, 0, 0) t) mem (cmd AND 63) arg = Inr (t1, mem', st)"
      "t' = t1\<lparr>mmc_int_status := mmc_int_status t1 OR st\<rparr>"
      "es = (if mmc_int_status t' AND mmc_int_enable t' \<noteq> 0 then [Set_irq 0 (sint (mmc_int_status t' AND mmc_int_enable t'))] else [])"
    using assms(3) by (auto simp: goldfish_mmc_do_command_def map_sum_Inr_iff Let_def)
  from opcode_keeps [OF o(1)] have q: "mmc_int_status t1 = mmc_int_status t" "mmc_int_enable t1 = mmc_int_enable t" "st = 1 \<or> st = 3"
    by (simp_all add: mmc_quiet_def set_resp_def)
  note e = or_events [OF assms(2) q(3)]
  have "(mmc_int_status t OR st) AND mmc_int_enable t = mmc_int_status t OR st" by (rule and_events [OF assms(1) e(1)])
  then show ?thesis using e assms(1) q o(2,3) by (simp add: mmc_events_def mmc_wants_def signed_eq_0_iff)
qed

lemma write_line:
  assumes "mmc_int_enable t AND 3 = 3" "mmc_int_status t AND 3 = mmc_int_status t" "off = MMC_INT_ENABLE \<Longrightarrow> v AND 3 = 3"
    and "goldfish_mmc_write t mem off v = Inr (t', mem', es)"
  shows "mmc_events (t', mem') \<and> line_after (mmc_wants (t, mem)) es = mmc_wants (t', mem')"
proof -
  note n = and_not_events [OF assms(2), of v]
  consider (status) "off = MMC_INT_STATUS" | (enable) "off = MMC_INT_ENABLE" | (cmd) "off = MMC_CMD"
    | (other) "off \<noteq> MMC_INT_STATUS" "off \<noteq> MMC_INT_ENABLE" "off \<noteq> MMC_CMD" by blast
  then show ?thesis
  proof cases
    case status
    have m: "(mmc_int_status t AND NOT v) AND mmc_int_enable t = mmc_int_status t AND NOT v" by (rule and_events [OF assms(1) n])
    have m': "mmc_int_status t AND mmc_int_enable t = mmc_int_status t" by (rule and_events [OF assms(1,2)])
    show ?thesis using assms(4) n m m' assms(1) status
      by (auto simp: goldfish_mmc_write_def mmc_events_def mmc_wants_def signed_eq_0_iff Let_def split: if_splits)
  next
    case enable
    then show ?thesis using assms(3,4) by (auto simp: goldfish_mmc_write_def mmc_regs mmc_events_def mmc_wants_def)
  next
    case cmd
    then show ?thesis using assms(4) command_line [OF assms(1,2), of mem v "mmc_arg t" t' mem' es] by (simp add: goldfish_mmc_write_def mmc_regs)
  next
    case other
    then show ?thesis using assms(1,2,4) by (auto simp: goldfish_mmc_write_def mmc_events_def mmc_wants_def split: if_splits)
  qed
qed

lemma mmc_step_line:
  assumes "mmc_events s" "mmc_driver_step s x = Inr (s', es)"
  shows "mmc_events s' \<and> line_after (mmc_wants s) es = mmc_wants s'"
proof -
  obtain t mem where s: "s = (t, mem)" by fastforce
  have ev: "mmc_int_enable t AND 3 = 3" "mmc_int_status t AND 3 = mmc_int_status t" using assms(1) s by (simp_all add: mmc_events_def)
  show ?thesis
  proof (cases x)
    case (Mmc_mem a d)
    then show ?thesis using assms s by (auto simp: mmc_driver_step_def masks_events_def mmc_events_def mmc_wants_def)
  next
    case (Mmc_mmio m)
    show ?thesis
    proof (cases m)
      case (Mmio_read off)
      then show ?thesis using assms s Mmc_mmio by (auto simp: mmc_driver_step_def masks_events_def map_sum_Inr_iff)
    next
      case (Mmio_write off v)
      have w: "goldfish_mmc_write t mem off v = Inr (fst s', snd s', es)"
        using assms(2) s Mmc_mmio Mmio_write by (auto simp: mmc_driver_step_def map_sum_Inr_iff split: if_splits)
      have en: "off = MMC_INT_ENABLE \<Longrightarrow> v AND 3 = 3"
        using assms(2) Mmc_mmio Mmio_write by (auto simp: mmc_driver_step_def masks_events_def split: if_splits)
      have "mmc_events s'' \<and> line_after (mmc_wants (t, mem)) es = mmc_wants s''"
        if "goldfish_mmc_write t mem off v = Inr (t', mem', es)" "s'' = (t', mem')" for t' mem' s''
        using write_line [OF ev en that(1)] that(2) by simp
      from this [OF w] show ?thesis using s by simp
    qed
  qed
qed

interpretation mmc_line: level_device mmc_events mmc_wants mmc_driver_step
  by unfold_locales (use mmc_step_line in blast)+

lemma mmc_step_single: "mmc_step s x = Inr (s', es) \<Longrightarrow> single_line es"
  by (induction s x rule: mmc_step.induct)
    (auto simp: goldfish_mmc_write_def goldfish_mmc_do_command_def Let_def map_sum_Inr_iff split: if_splits)

lemma mmc_driver_single: "mmc_driver_step s x = Inr (s', es) \<Longrightarrow> single_line es"
  by (auto simp: mmc_driver_step_def intro: mmc_step_single split: if_splits)

interpretation mmc_board: wired_device mmc_events mmc_wants mmc_driver_step
  by unfold_locales (rule mmc_driver_single)

text \<open>
  Remark (invariant). Once the guest has enabled both events of a command, and as long as it does not mask one of
  them, the card reader's line is high exactly while an event is not acknowledged, whatever commands and
  register accesses follow.
\<close>

theorem mmc_irq_in_step:
  assumes "v AND 3 = 3" "device_run mmc_driver_step (goldfish_mmc_init d, mem) False (Mmc_mmio (Mmio_write MMC_INT_ENABLE v) # xs) = Inr ((s, mem'), l)"
  shows "l \<longleftrightarrow> mmc_int_status s \<noteq> 0"
proof -
  let ?t = "((goldfish_mmc_init d)\<lparr>mmc_int_enable := v, mmc_int_status := 0\<rparr>, mem)"
  have i: "mmc_events ?t" "\<not> mmc_wants ?t" using assms(1) by (simp_all add: mmc_events_def mmc_wants_def)
  have "mmc_driver_step (goldfish_mmc_init d, mem) (Mmc_mmio (Mmio_write MMC_INT_ENABLE v)) = Inr (?t, [Set_irq 0 0])"
    using assms(1) by (simp add: mmc_driver_step_def masks_events_def goldfish_mmc_write_def mmc_regs)
  then have "device_run mmc_driver_step ?t (mmc_wants ?t) xs = Inr ((s, mem'), l)" using assms(2) i(2) by simp
  from mmc_line.run_line [OF i(1) this] have "mmc_events (s, mem')" "l = mmc_wants (s, mem')" by auto
  then show ?thesis using and_events [of "mmc_int_enable s" "mmc_int_status s"] by (simp add: mmc_events_def mmc_wants_def)
qed

theorem mmc_irq_in_step_witness:
  "\<exists>s mem' l. device_run mmc_driver_step (goldfish_mmc_init \<lparr>sectors = [], bs_read_only = False\<rparr>, \<lambda>_. 0) False
      [Mmc_mmio (Mmio_write MMC_INT_ENABLE 3), Mmc_mmio (Mmio_write MMC_CMD 13)] = Inr ((s, mem'), l) \<and> (l \<longleftrightarrow> mmc_int_status s \<noteq> 0)"
proof -
  have "\<exists>s mem' l. device_run mmc_driver_step (goldfish_mmc_init \<lparr>sectors = [], bs_read_only = False\<rparr>, \<lambda>_. 0) False
      [Mmc_mmio (Mmio_write MMC_INT_ENABLE 3), Mmc_mmio (Mmio_write MMC_CMD 13)] = Inr ((s, mem'), l)"
    by (simp add: mmc_driver_step_def masks_events_def goldfish_mmc_write_def mmc_regs goldfish_mmc_do_command_def mmc_opcode_def
        set_resp_def r1_resp_def Let_def)
  then show ?thesis using mmc_irq_in_step [of 3 "\<lparr>sectors = [], bs_read_only = False\<rparr>" "\<lambda>_. 0" "[Mmc_mmio (Mmio_write MMC_CMD 13)]"] by auto
qed

text \<open>
  Remark (error). Acknowledging an event sets the line from all events, masked ones too: when an event stays that the guest
  has masked, the line goes high although the status register reads as zero, so the guest sees an interrupt
  without a cause.
\<close>

theorem mmc_masked_irq:
  assumes "mmc_int_status s AND NOT v \<noteq> 0" "mmc_int_status s AND NOT v \<noteq> mmc_int_status s"
    and "(mmc_int_status s AND NOT v) AND mmc_int_enable s = 0"
  shows "\<exists>s' es. goldfish_mmc_write s mem MMC_INT_STATUS v = Inr (s', mem, es) \<and> line_after False es \<and>
    goldfish_mmc_read s' MMC_INT_STATUS = Inr 0"
  using assms by (simp add: goldfish_mmc_write_def goldfish_mmc_read_def Let_def signed_eq_0_iff)

theorem mmc_masked_irq_witness:
  "\<exists>s' es. goldfish_mmc_write (sample_card\<lparr>mmc_int_status := 3, mmc_int_enable := 1\<rparr>) (\<lambda>_. 0) MMC_INT_STATUS 1 = Inr (s', \<lambda>_. 0, es) \<and>
     line_after False es \<and> goldfish_mmc_read s' MMC_INT_STATUS = Inr 0"
  by (rule mmc_masked_irq) simp_all

end
