(* ===== verification/Boot_Properties.thy ===== *)
theory Boot_Properties
  imports Qemud_Mux
begin

unbundle bit_operations_syntax

text \<open>
  The service that gives the guest the system properties to set at boot (\<open>android/boot-properties.c\<close>): properties are added from the
  command line and by the emulator, and a client that sends \<open>list\<close> gets all of them, then a zero byte, and is closed.
\<close>

section \<open>The list of properties\<close>

definition PROPERTY_MAX_NAME :: nat where "PROPERTY_MAX_NAME = 32"
definition PROPERTY_MAX_VALUE :: nat where "PROPERTY_MAX_VALUE = 92"
definition SERVICE_NAME :: "byte list" where "SERVICE_NAME = ascii ''boot-properties''"

text \<open>\<open>_boot_properties\<close> in list order, each as its text, and \<open>_inited\<close>.\<close>

record boot_state =
  boot_properties :: "byte list list"
  inited :: bool

definition boot_property_alloc :: "byte list \<Rightarrow> byte list \<Rightarrow> byte list" where
  "boot_property_alloc name value = name @ [61] @ value"

definition boot_property_init_service :: "boot_state \<Rightarrow> qemud_multiplexer \<Rightarrow> qemud_multiplexer" where
  "boot_property_init_service b m = (if \<not> inited b then qemud_service_register SERVICE_NAME 1 m else m)"

text \<open>\<open>strchr\<close> finds the terminating zero too, so a zero byte in a name is refused.\<close>

definition reject :: "byte list" where
  "reject = ascii '' =$*?'' @ [39, 34, 0]"

definition boot_property_add2 ::
  "boot_state \<times> qemud_multiplexer \<Rightarrow> byte list \<Rightarrow> byte list \<Rightarrow> int \<times> boot_state \<times> qemud_multiplexer" where
  "boot_property_add2 st name value =
     (case st of (b, m) \<Rightarrow>
        if length name > PROPERTY_MAX_NAME then (-1, b, m)
        else if length value > PROPERTY_MAX_VALUE then (-2, b, m)
        else if list_ex (\<lambda>c. c \<in> set reject) name then (-3, b, m)
        else
          (let m = (if \<not> inited b then boot_property_init_service b m else m)
           in (0, b\<lparr>boot_properties := boot_properties b @ [boot_property_alloc name value], inited := True\<rparr>, m)))"

text \<open>Strings are without their terminating zero.\<close>

definition boot_property_add ::
  "boot_state \<times> qemud_multiplexer \<Rightarrow> byte list \<Rightarrow> byte list \<Rightarrow> int \<times> boot_state \<times> qemud_multiplexer" where
  "boot_property_add st name value = boot_property_add2 st name value"

definition boot_property_parse_option :: "byte list \<Rightarrow> boot_state \<times> qemud_multiplexer \<Rightarrow> boot_state \<times> qemud_multiplexer" where
  "boot_property_parse_option param st =
     (case strchr_idx param 61 of
        None \<Rightarrow> st
      | Some q \<Rightarrow> snd (boot_property_add2 st (take q param) (drop (q + 1) param)))"

section \<open>The service\<close>

definition boot_property_client_recv :: "byte list list \<Rightarrow> nat \<Rightarrow> byte list \<Rightarrow> api_call list" where
  "boot_property_client_recv props i msg =
     (if length msg = 4 \<and> msg = ascii ''list''
      then map (Client_Send i) props @ [Client_Send i [0], Client_Close i]
      else [])"

text \<open>The client is made with the number \<open>next_id\<close>.\<close>

definition boot_property_service_connect :: "qemud_multiplexer \<Rightarrow> bool \<times> api_call list" where
  "boot_property_service_connect m = (True, [Client_Set_Framing (next_id m) True])"

definition boot_callbacks :: "boot_state \<Rightarrow> callbacks" where
  "boot_callbacks b = \<lparr>on_connect = \<lambda>m sv ch. boot_property_service_connect m,
     on_message = \<lambda>m i msg. boot_property_client_recv (boot_properties b) i msg\<rparr>"

section \<open>What is stored\<close>

text \<open>An option that is accepted: it has a separator, and its two sides fit.\<close>

definition valid_option :: "byte list \<Rightarrow> bool" where
  "valid_option p \<longleftrightarrow> 61 \<in> set p \<and> 0 \<notin> set p \<and> set (takeWhile (\<lambda>c. c \<noteq> 61) p) \<inter> set reject = {} \<and>
     length (takeWhile (\<lambda>c. c \<noteq> 61) p) \<le> PROPERTY_MAX_NAME \<and>
     length p \<le> length (takeWhile (\<lambda>c. c \<noteq> 61) p) + 1 + PROPERTY_MAX_VALUE"

lemma strchr_split:
  "0 \<notin> set p \<Longrightarrow> strchr_idx p c = (if c \<in> set p then Some (length (takeWhile (\<lambda>x. x \<noteq> c) p)) else None)"
  by (induction p) auto

lemma parse_option_list:
  assumes "0 \<notin> set p"
  shows "boot_properties (fst (boot_property_parse_option p st)) = boot_properties (fst st) @ (if valid_option p then [p] else [])"
proof (cases "61 \<in> set p")
  case True
  then obtain n v where p: "p = n @ 61 # v" "61 \<notin> set n" by (auto dest: split_list_first)
  have n: "takeWhile (\<lambda>c. c \<noteq> 61) p = n" unfolding p(1) using p(2) by (subst takeWhile_append2) auto
  have q: "strchr_idx p 61 = Some (length n)" using strchr_split [OF assms, of 61] True n by simp
  obtain b m where st: "st = (b, m)" by fastforce
  have r: "list_ex (\<lambda>c. c \<in> set reject) n \<longleftrightarrow> set n \<inter> set reject \<noteq> {}" by (auto simp: list_ex_iff)
  show ?thesis using r q n p(1) assms True
    by (auto simp: boot_property_parse_option_def boot_property_add2_def boot_property_alloc_def st valid_option_def Let_def)
next
  case False
  then show ?thesis using strchr_split [OF assms, of 61] by (simp add: boot_property_parse_option_def valid_option_def)
qed

lemma options_list:
  "list_all (\<lambda>p. 0 \<notin> set p) opts \<Longrightarrow>
    boot_properties (fst (fold boot_property_parse_option opts st)) = boot_properties (fst st) @ filter valid_option opts"
  by (induction opts arbitrary: st) (auto simp: parse_option_list)

lemma valid_option_length: "valid_option p \<Longrightarrow> p \<noteq> [] \<and> length p \<le> 125"
  by (auto simp: valid_option_def PROPERTY_MAX_NAME_def PROPERTY_MAX_VALUE_def)


section \<open>What is sent\<close>

definition packet :: "qemud_version \<Rightarrow> int \<Rightarrow> byte list \<Rightarrow> byte list" where
  "packet v ch p = packet_header v ch (int (length p)) @ p"

lemma send_one_packet:
  assumes "0 \<le> ch" "msg \<noteq> []" "length msg \<le> 3996"
  shows "\<exists>ws. mux_send m ch fr msg = Inr (m\<lparr>written := written m @ ws\<rparr>) \<and> concat ws = packet (ver m) ch (if fr then frame msg else msg)"
proof -
  have c: "chunks bs = [bs]" if "bs \<noteq> []" "length bs \<le> 4000" for bs
    using that by (simp add: chunks.simps [of bs] chunks.simps [of "[]"])
  have f: "framed fr msg = (if fr then frame msg else msg)" using assms(2) by (simp add: framed_def frame_def qemud_sizes)
  have "chunks (framed fr msg) = [framed fr msg]" using assms(2,3) f frame_length [of msg] by (intro c) (auto simp: frame_def)
  then show ?thesis using serial_send_packets [OF assms(1), of "ver m" fr msg] f by (auto simp: mux_send_def packet_def)
qed

lemma send_properties:
  assumes "lookup_client m i = Some o'" "framing (client o')" "0 \<le> channel (client o')" "list_all (\<lambda>p. p \<noteq> [] \<and> length p \<le> 125) ps"
  shows "\<exists>ws. api_calls (map (Client_Send i) ps @ as) m = api_calls as (m\<lparr>written := written m @ ws\<rparr>) \<and>
    concat ws = concat (map (\<lambda>p. packet (ver m) (channel (client o')) (frame p)) ps)"
  using assms(1,4)
proof (induction ps arbitrary: m)
  case Nil
  show ?case by (rule exI [of _ "[]"]) simp
next
  case (Cons p ps)
  obtain ws where 1: "mux_send m (channel (client o')) True p = Inr (m\<lparr>written := written m @ ws\<rparr>)"
      "concat ws = packet (ver m) (channel (client o')) (frame p)"
    using send_one_packet [OF assms(3), of p m True] Cons.prems(2) by auto
  let ?m = "m\<lparr>written := written m @ ws\<rparr>"
  have "lookup_client ?m i = Some o'" using Cons.prems(1) by (simp add: lookup_client_def)
  from Cons.IH [OF this] Cons.prems(2) obtain ws' where
    2: "api_calls (map (Client_Send i) ps @ as) ?m = api_calls as (?m\<lparr>written := written ?m @ ws'\<rparr>)"
      "concat ws' = concat (map (\<lambda>p. packet (ver m) (channel (client o')) (frame p)) ps)" by auto
  show ?case using 1 2 Cons.prems(1) assms(2) by (intro exI [of _ "ws @ ws'"]) simp
qed

text \<open>The answer to \<open>list\<close>: the properties, a zero byte, and the end of the connection.\<close>

lemma list_calls:
  assumes "lookup_client m i = Some o'" "framing (client o')" "0 < channel (client o')" "list_all (\<lambda>p. p \<noteq> [] \<and> length p \<le> 125) ps"
    and "obj_id o' = i" "channel (client o') < 256" "service o' = Some sv"
  shows "\<exists>m'. api_calls (boot_property_client_recv ps i (ascii ''list'')) m = Inr m' \<and> lookup_client m' i = None \<and> closed m' = closed m @ [i] \<and>
    concat (written m') = concat (written m) @ concat (map (\<lambda>p. packet (ver m) (channel (client o')) (frame p)) ps) @
      packet (ver m) (channel (client o')) (frame [0]) @ packet (ver m) 0 (ascii ''disconnect:'' @ hex02 (channel (client o')))"
proof -
  let ?ch = "channel (client o')"
  obtain ws where 1: "api_calls (map (Client_Send i) (ps @ [[0]]) @ [Client_Close i]) m = api_calls [Client_Close i] (m\<lparr>written := written m @ ws\<rparr>)"
      "concat ws = concat (map (\<lambda>p. packet (ver m) ?ch (frame p)) (ps @ [[0]]))"
    using send_properties [OF assms(1,2), of "ps @ [[0]]" "[Client_Close i]"] assms(3,4) by auto
  let ?m = "m\<lparr>written := written m @ ws\<rparr>"
  let ?r = "qemud_client_remove ?m i"
  have h: "length (hex02 ?ch) = 2" using hex02_byte [of ?ch] assms(3,6) by (simp add: length_int2hex)
  obtain ws' where 2: "mux_send ?r 0 False (ascii ''disconnect:'' @ hex02 ?ch) = Inr (?r\<lparr>written := written ?r @ ws'\<rparr>)"
      "concat ws' = packet (ver m) 0 (ascii ''disconnect:'' @ hex02 ?ch)"
    using send_one_packet [of 0 "ascii ''disconnect:'' @ hex02 ?ch" ?r False] h by (auto simp: ascii_def qemud_client_remove_def)
  have l: "lookup_client ?m i = Some o'" using assms(1) by (simp add: lookup_client_def)
  have "api_calls [Client_Close i] ?m =
      Inr (update_service (?r\<lparr>written := written ?r @ ws', closed := closed m @ [i]\<rparr>) sv (qemud_service_remove_client i))"
    using l 2(1) assms(3,5,7) by (simp add: qemud_client_disconnect_def) (simp add: qemud_client_remove_def)
  moreover have "lookup_client (update_service (?r\<lparr>written := w, closed := c\<rparr>) sv f) i = None" for w c f
    by (auto simp: lookup_client_def update_service_def qemud_client_remove_def find_None_iff)
  ultimately show ?thesis using 1 2(2)
    by (simp add: boot_property_client_recv_def ascii_def) (simp add: update_service_def qemud_client_remove_def)
qed


lemma find_stored:
  "distinct (map obj_id xs) \<Longrightarrow> o' \<in> set xs \<Longrightarrow>
    find (\<lambda>x. obj_id x = obj_id o') (map (\<lambda>x. if obj_id x = obj_id o' then x\<lparr>client := c\<rparr> else x) xs) = Some (o'\<lparr>client := c\<rparr>)"
  by (induction xs) (auto simp: image_iff)

section \<open>Properties\<close>

text \<open>
  Property C10 (functional). The boot properties from the command line to the wire: a client of the service that sends \<open>list\<close> is sent
  the options that are well formed, unchanged and in the order they were given, each as one frame in one packet, then a frame with
  a zero byte; then it is disconnected and gone.
\<close>

theorem boot_options_served:
  assumes "list_all (\<lambda>p. 0 \<notin> set p) opts" "b = fst (fold boot_property_parse_option opts (\<lparr>boot_properties = [], inited = i\<rparr>, m0))"
    and "mux_wf m" "find (\<lambda>o'. channel (client o') = ch) (clients m) = Some o'" "service o' = Some sv" "client_ready (client o')" "0 < ch" "ch < 256"
  shows "\<exists>m'. qemud_multiplexer_serial_recv (boot_callbacks b) m ch (frame (ascii ''list'')) = Some (Inr m') \<and>
    concat (written m') = concat (written m) @ concat (map (\<lambda>p. packet (ver m) ch (frame p)) (filter valid_option opts)) @
      packet (ver m) ch (frame [0]) @ packet (ver m) 0 (ascii ''disconnect:'' @ hex02 ch) \<and>
    lookup_client m' (obj_id o') = None"
proof -
  let ?i = "obj_id o'" and ?ps = "filter valid_option opts" and ?msg = "ascii ''list''"
  let ?c = "after_frame (client o') ?msg"
  have o': "o' \<in> set (clients m)" "channel (client o') = ch" using find_mem [OF assms(4)] by simp_all
  have ps: "boot_properties b = ?ps" using options_list [OF assms(1)] assms(2) by simp
  have ok: "list_all (\<lambda>p. p \<noteq> [] \<and> length p \<le> 125) ?ps" using valid_option_length by (auto simp: list_all_iff)
  let ?m = "(store_client m ?i ?c)\<lparr>received := received m @ [(?i, ?msg)]\<rparr>"
  have c: "channel ?c = ch" "framing ?c" using o'(2) assms(6) by (simp_all add: after_frame_def client_ready_def client_wf_def)
  have l: "lookup_client ?m ?i = Some (o'\<lparr>client := ?c\<rparr>)"
  proof -
    have "distinct (map obj_id (clients m))" using assms(3) by (simp add: mux_wf_def owners_def comp_def)
    then show ?thesis using find_stored [OF _ o'(1)] by (simp add: lookup_client_def store_client_def)
  qed
  from list_calls [OF l, of ?ps sv] c ok assms(5,7,8) obtain m' where
    m': "api_calls (boot_property_client_recv ?ps ?i ?msg) ?m = Inr m'" "lookup_client m' ?i = None"
      "concat (written m') = concat (written m) @ concat (map (\<lambda>p. packet (ver m) ch (frame p)) ?ps) @
        packet (ver m) ch (frame [0]) @ packet (ver m) 0 (ascii ''disconnect:'' @ hex02 ch)"
    by (auto simp: store_client_def)
  have recv: "message_recv (boot_callbacks b) ?i (Some sv) m ?msg ?c = Some (Inr (m', None))"
    using m'(1,2) ps by (simp add: message_recv_def boot_callbacks_def store_client_def)
  have "qemud_client_recv (Some (message_recv (boot_callbacks b) ?i (Some sv))) (client o') m (frame ?msg) = Some (Inr (None, m'))"
    using loop_frame [OF assms(6), of ?msg "Some (message_recv (boot_callbacks b) ?i (Some sv))" m "[]"] recv assms(6)
    by (simp add: client_recv_loop client_ready_def clie_recv_def client_loop_Nil ascii_def)
  then show ?thesis using assms(4,5) m'(2,3) by (simp add: qemud_multiplexer_serial_recv_def)
qed

definition sample_option :: "byte list" where
  "sample_option = ascii ''qemu.hw=1''"

definition boot_mux :: qemud_multiplexer where
  "boot_mux =
     (let m = qemud_service_register SERVICE_NAME 1 (snd qemud_multiplexer_init);
          i = next_id m;
          m = qemud_client_new 1 1 m
      in store_client m i (qemud_client_set_framing (qemud_client_alloc 1) True))"

lemma boot_mux_ok:
  "mux_wf boot_mux"
  "\<exists>o'. find (\<lambda>o'. channel (client o') = 1) (clients boot_mux) = Some o' \<and> service o' = Some 1 \<and> obj_id o' = 2 \<and> client_ready (client o')"
proof -
  let ?m = "qemud_service_register SERVICE_NAME 1 (snd qemud_multiplexer_init)"
  have "mux_wf ?m" using mux_init_wf(2) by (rule register_wf)
  then have "mux_wf (qemud_client_new 1 1 ?m)"
    by (rule client_new_wf [where s = "\<lparr>sv_name = SERVICE_NAME, max_clients = 1, num_clients = 0, sv_clients = []\<rparr>"])
      (simp_all add: qemud_service_register_def qemud_service_new_def qemud_multiplexer_init_def qemud_client_prepend_def split: prod.splits)
  then show "mux_wf boot_mux" by (simp add: boot_mux_def Let_def shape_wf(1))
  show "\<exists>o'. find (\<lambda>o'. channel (client o') = 1) (clients boot_mux) = Some o' \<and> service o' = Some 1 \<and> obj_id o' = 2 \<and> client_ready (client o')"
    using framing_client_ready [of 1]
    by (simp add: boot_mux_def Let_def store_client_def qemud_client_new_def qemud_client_prepend_def update_service_def
        qemud_service_register_def qemud_service_new_def qemud_multiplexer_init_def split: prod.splits)
qed

theorem boot_options_served_witness:
  "\<exists>m'. qemud_multiplexer_serial_recv
       (boot_callbacks (fst (fold boot_property_parse_option [sample_option, ascii ''novalue''] (\<lparr>boot_properties = [], inited = False\<rparr>, boot_mux))))
       boot_mux 1 (frame (ascii ''list'')) = Some (Inr m') \<and>
     concat (written m') = concat (written boot_mux) @ packet (ver boot_mux) 1 (frame sample_option) @
       packet (ver boot_mux) 1 (frame [0]) @ packet (ver boot_mux) 0 (ascii ''disconnect:'' @ hex02 1)"
proof -
  obtain o' where o': "find (\<lambda>o'. channel (client o') = 1) (clients boot_mux) = Some o'" "service o' = Some 1" "client_ready (client o')"
    using boot_mux_ok(2) by blast
  have f: "filter valid_option [sample_option, ascii ''novalue''] = [sample_option]" by code_simp
  have z: "list_all (\<lambda>p. 0 \<notin> set p) [sample_option, ascii ''novalue'']" by code_simp
  show ?thesis using boot_options_served [OF z refl boot_mux_ok(1) o', where i = False and ?m0.0 = boot_mux] unfolding f by auto
qed

text \<open>
  Remark (error). The emulator registers the service before it adds its own properties, and adding the first one registers
  it again: afterwards two services have the name.
\<close>

theorem boot_service_registered_twice:
  assumes "\<not> inited b" "length name \<le> PROPERTY_MAX_NAME" "length value \<le> PROPERTY_MAX_VALUE" "set name \<inter> set reject = {}"
    and "boot_property_add (b, boot_property_init_service b m) name value = (r, b', m')"
  shows "r = 0 \<and> length (filter (\<lambda>(j, s). sv_name s = SERVICE_NAME) (services m')) =
    length (filter (\<lambda>(j, s). sv_name s = SERVICE_NAME) (services m)) + 2"
  using assms by (auto simp: boot_property_add_def boot_property_add2_def boot_property_init_service_def qemud_service_register_def
      qemud_service_new_def list_ex_iff Let_def split: if_splits)

theorem boot_service_registered_twice_witness:
  "\<exists>b' m'. boot_property_add (\<lparr>boot_properties = [], inited = False\<rparr>,
       boot_property_init_service \<lparr>boot_properties = [], inited = False\<rparr> boot_mux) [97] [49] = (0, b', m')"
proof -
  let ?b = "\<lparr>boot_properties = [], inited = False\<rparr>"
  obtain r b' m' where e: "boot_property_add (?b, boot_property_init_service ?b boot_mux) [97] [49] = (r, b', m')"
    by (cases "boot_property_add (?b, boot_property_init_service ?b boot_mux) [97] [49]") auto
  from boot_service_registered_twice [OF _ _ _ _ e] have "r = 0"
    by (simp add: PROPERTY_MAX_NAME_def PROPERTY_MAX_VALUE_def reject_def ascii_def)
  then show ?thesis using e by blast
qed

end
