(* ===== verification/Fifo_Spec.thy ===== *)
theory Fifo_Spec
  imports Emu_Prelude
begin

text \<open>
  The interface the emulator's byte queues promise, as two locales. A \<open>bounded_fifo\<close> accepts data
  while there is room and hands it back in order; a \<open>truncating_fifo\<close> also takes what fits of a
  write that does not fit. The client result is that any sequence of writes and reads that the
  queue accepts preserves the byte stream.
\<close>

datatype 'a fifo_op = Put "'a list" | Get nat

text \<open>A run returns the final queue, the data the puts accepted and the data the gets returned.\<close>

fun fifo_run ::
  "('q \<Rightarrow> 'a list \<Rightarrow> ('q \<times> nat) option) \<Rightarrow> ('q \<Rightarrow> nat \<Rightarrow> ('q \<times> 'a list) option) \<Rightarrow>
   'q \<Rightarrow> 'a fifo_op list \<Rightarrow> ('q \<times> 'a list \<times> 'a list) option" where
  "fifo_run put get q [] = Some (q, [], [])"
| "fifo_run put get q (Put xs # ops) =
     (case put q xs of None \<Rightarrow> None
      | Some (q', n) \<Rightarrow>
          map_option (\<lambda>(r, acc, out). (r, take n xs @ acc, out)) (fifo_run put get q' ops))"
| "fifo_run put get q (Get n # ops) =
     (case get q n of None \<Rightarrow> None
      | Some (q', ys) \<Rightarrow>
          map_option (\<lambda>(r, acc, out). (r, acc, ys @ out)) (fifo_run put get q' ops))"

locale bounded_fifo =
  fixes wf :: "'q \<Rightarrow> bool"
    and contents :: "'q \<Rightarrow> 'a list"
    and capacity :: "'q \<Rightarrow> nat"
    and put :: "'q \<Rightarrow> 'a list \<Rightarrow> ('q \<times> nat) option"
    and get :: "'q \<Rightarrow> nat \<Rightarrow> ('q \<times> 'a list) option"
  assumes bounded: "wf q \<Longrightarrow> length (contents q) \<le> capacity q"
    and put_room: "wf q \<Longrightarrow> length xs \<le> capacity q - length (contents q) \<Longrightarrow>
      \<exists>q'. put q xs = Some (q', length xs) \<and> wf q' \<and> capacity q' = capacity q \<and>
           contents q' = contents q @ xs"
    and get_law: "wf q \<Longrightarrow>
      \<exists>q'. get q n = Some (q', take n (contents q)) \<and> wf q' \<and> capacity q' = capacity q \<and>
           contents q' = drop n (contents q)"
begin

text \<open>What was put comes back unchanged from a queue that was empty and had room for it.\<close>

lemma put_then_get:
  assumes "wf q" and "contents q = []" and "length xs \<le> capacity q"
  shows "\<exists>q' q''. put q xs = Some (q', length xs) \<and> get q' (length xs) = Some (q'', xs) \<and>
    wf q'' \<and> contents q'' = []"
proof -
  obtain q' where q': "put q xs = Some (q', length xs)" "wf q'" "contents q' = xs"
    using put_room [OF assms(1), of xs] assms(2,3) by auto
  obtain q'' where "get q' (length xs) = Some (q'', xs)" "wf q''" "contents q'' = []"
    using get_law [OF q'(2), of "length xs"] q'(3) by auto
  with q' show ?thesis by blast
qed

text \<open>Two puts that fit are one put of the concatenation.\<close>

lemma put_append:
  assumes "wf q" and "length xs + length ys \<le> capacity q - length (contents q)"
  shows "\<exists>q' q'' r. put q xs = Some (q', length xs) \<and> put q' ys = Some (q'', length ys) \<and>
    put q (xs @ ys) = Some (r, length (xs @ ys)) \<and> contents r = contents q''"
proof -
  obtain q' where q': "put q xs = Some (q', length xs)" "wf q'" "capacity q' = capacity q"
    "contents q' = contents q @ xs"
    using put_room [OF assms(1), of xs] assms(2) by auto
  have "length ys \<le> capacity q' - length (contents q')" using q' assms(2) by simp
  then obtain q'' where q'': "put q' ys = Some (q'', length ys)" "contents q'' = contents q @ xs @ ys"
    using put_room [OF q'(2), of ys] q'(4) by auto
  obtain r where "put q (xs @ ys) = Some (r, length (xs @ ys))" "contents r = contents q @ xs @ ys"
    using put_room [OF assms(1), of "xs @ ys"] assms(2) by auto
  with q' q'' show ?thesis by auto
qed

end

locale truncating_fifo = bounded_fifo +
  assumes put_trunc: "wf q \<Longrightarrow>
      \<exists>q'. put q xs = Some (q', min (length xs) (capacity q - length (contents q))) \<and>
           wf q' \<and> capacity q' = capacity q \<and>
           contents q' = contents q @ take (capacity q - length (contents q)) xs"
begin

lemma run_stream:
  "wf q \<Longrightarrow> \<exists>q' acc out. fifo_run put get q ops = Some (q', acc, out) \<and> wf q' \<and>
     capacity q' = capacity q \<and> out @ contents q' = contents q @ acc"
proof (induction ops arbitrary: q)
  case Nil
  then show ?case by simp
next
  case (Cons op ops)
  show ?case
  proof (cases op)
    case (Put xs)
    obtain q1 where q1: "put q xs = Some (q1, min (length xs) (capacity q - length (contents q)))"
      "wf q1" "capacity q1 = capacity q"
      "contents q1 = contents q @ take (capacity q - length (contents q)) xs"
      using put_trunc [OF Cons.prems] by blast
    with Cons.IH [OF q1(2)] Put show ?thesis by (auto simp: min_def)
  next
    case (Get n)
    obtain q1 where q1: "get q n = Some (q1, take n (contents q))" "wf q1"
      "capacity q1 = capacity q" "contents q1 = drop n (contents q)"
      using get_law [OF Cons.prems] by blast
    obtain r acc out where r: "fifo_run put get q1 ops = Some (r, acc, out)" "wf r"
      "capacity r = capacity q1" "out @ contents r = contents q1 @ acc"
      using Cons.IH [OF q1(2)] by blast
    from r(4) q1(4) have "(take n (contents q) @ out) @ contents r = contents q @ acc"
      by (metis append.assoc append_take_drop_id)
    with q1 r Get show ?thesis by simp
  qed
qed

end

end
