(* ===== verification/Cbuffer.thy ===== *)
theory Cbuffer
  imports Emu_Prelude Fifo_Spec
begin

text \<open>
  The circular byte buffer of \<open>cbuffer.h\<close> and \<open>cbuffer.c\<close>: its record, its operations, the
  invariant \<open>cbuffer_assert\<close> checks in debug builds, and the abstraction to the list of
  buffered bytes.
\<close>

section \<open>State and operations\<close>

record cbuffer =
  buff :: "byte list"
  csize :: int
  rpos :: int
  ccount :: int

definition cbuffer_reset :: "byte list \<Rightarrow> int \<Rightarrow> cbuffer" where
  "cbuffer_reset b n = \<lparr>buff = b, csize = n, rpos = 0, ccount = 0\<rparr>"

definition cbuffer_write_avail :: "cbuffer \<Rightarrow> int" where
  "cbuffer_write_avail cb = csize cb - ccount cb"

definition cbuffer_read_avail :: "cbuffer \<Rightarrow> int" where
  "cbuffer_read_avail cb = ccount cb"

text \<open>\<open>cbuffer_assert\<close>: the consistency check of debug builds, true when it reports nothing.\<close>

definition cbuffer_assert :: "cbuffer \<Rightarrow> bool" where
  "cbuffer_assert cb =
     (if rpos cb < 0 \<or> rpos cb \<ge> csize cb then False
      else if ccount cb < 0 \<or> ccount cb > csize cb then False
      else True)"

text \<open>A peek returns the number of contiguous bytes and the offset of \<open>*pbase\<close> in \<open>buff\<close>.\<close>

definition cbuffer_write_peek :: "cbuffer \<Rightarrow> int \<times> int" where
  "cbuffer_write_peek cb =
     (let wpos = rpos cb + ccount cb;
          avail = csize cb - ccount cb;
          wpos = (if wpos \<ge> csize cb then wpos - csize cb else wpos);
          avail = (if wpos + avail > csize cb then csize cb - wpos else avail)
      in (avail, wpos))"

definition cbuffer_write_step :: "cbuffer \<Rightarrow> int \<Rightarrow> cbuffer" where
  "cbuffer_write_step cb len =
     (let cb = cb\<lparr>ccount := ccount cb + len\<rparr>
      in if ccount cb > csize cb then cb\<lparr>ccount := csize cb\<rparr> else cb)"

text \<open>
  The write loop: \<open>from\<close> is the data not yet copied, \<open>len2\<close> how much of it is wanted. The
  position and the size of one pass's chunk are the locals \<open>wpos\<close> and \<open>avail\<close> of the source.
\<close>

definition write_chunk :: "cbuffer \<Rightarrow> int \<Rightarrow> int \<times> int" where
  "write_chunk cb len2 =
     (let avail = csize cb - ccount cb;
          wpos = rpos cb + ccount cb;
          wpos = (if wpos \<ge> csize cb then wpos - csize cb else wpos);
          avail = (if wpos + avail > csize cb then csize cb - wpos else avail);
          avail = (if avail > len2 then len2 else avail)
      in (wpos, avail))"

partial_function (option) cbuffer_write_loop ::
  "cbuffer \<Rightarrow> byte list \<Rightarrow> int \<Rightarrow> (cbuffer \<times> int) option" where
  "cbuffer_write_loop cb from len2 =
     (if len2 > 0 \<and> csize cb - ccount cb \<noteq> 0 then
        (let (wpos, avail) = write_chunk cb len2
         in Option.bind (memcpy (buff cb) wpos from avail)
              (\<lambda>b. cbuffer_write_loop
                     (cb\<lparr>buff := b, ccount := ccount cb + avail\<rparr>)
                     (drop (nat avail) from) (len2 - avail)))
      else Some (cb, len2))"

definition cbuffer_write :: "cbuffer \<Rightarrow> byte list \<Rightarrow> int \<Rightarrow> (cbuffer \<times> int) option" where
  "cbuffer_write cb from len =
     map_option (\<lambda>(cb', len2). (cb', len - len2)) (cbuffer_write_loop cb from len)"

text \<open>
  The read loop: \<open>to\<close> is the destination array and \<open>off\<close> how far the pointer \<open>to\<close> of the source
  has advanced in it.
\<close>

definition read_chunk :: "cbuffer \<Rightarrow> int \<Rightarrow> int" where
  "read_chunk cb len2 =
     (let avail = ccount cb;
          avail = (if rpos cb + avail > csize cb then csize cb - rpos cb else avail)
      in if avail > len2 then len2 else avail)"

partial_function (option) cbuffer_read_loop ::
  "cbuffer \<Rightarrow> byte list \<Rightarrow> int \<Rightarrow> int \<Rightarrow> (cbuffer \<times> byte list \<times> int) option" where
  "cbuffer_read_loop cb to off len2 =
     (if len2 > 0 \<and> ccount cb \<noteq> 0 then
        (let avail = read_chunk cb len2;
             rp = rpos cb + avail;
             rp = (if rp \<ge> csize cb then rp - csize cb else rp)
         in if rpos cb < 0 \<or> rpos cb > int (length (buff cb)) then None
            else Option.bind (memcpy to off (drop (nat (rpos cb)) (buff cb)) avail)
              (\<lambda>to'. cbuffer_read_loop
                       (cb\<lparr>ccount := ccount cb - avail, rpos := rp\<rparr>)
                       to' (off + avail) (len2 - avail)))
      else Some (cb, to, len2))"

definition cbuffer_read ::
  "cbuffer \<Rightarrow> byte list \<Rightarrow> int \<Rightarrow> (cbuffer \<times> byte list \<times> int) option" where
  "cbuffer_read cb to len =
     map_option (\<lambda>(cb', to', len2). (cb', to', len - len2)) (cbuffer_read_loop cb to 0 len)"

definition cbuffer_read_peek :: "cbuffer \<Rightarrow> int \<times> int" where
  "cbuffer_read_peek cb =
     (let rp = rpos cb;
          avail = ccount cb;
          avail = (if rp + avail > csize cb then csize cb - rp else avail)
      in (avail, rp))"

definition cbuffer_read_step :: "cbuffer \<Rightarrow> int \<Rightarrow> cbuffer" where
  "cbuffer_read_step cb len =
     (let len = (if len > ccount cb then ccount cb else len);
          rp = rpos cb + len;
          rp = (if rp \<ge> csize cb then rp - csize cb else rp)
      in cb\<lparr>rpos := rp, ccount := ccount cb - len\<rparr>)"

section \<open>Invariant and abstraction\<close>

definition cbuffer_wf :: "cbuffer \<Rightarrow> bool" where
  "cbuffer_wf cb \<longleftrightarrow> cbuffer_assert cb \<and> csize cb = int (length (buff cb))"

definition cbuffer_contents :: "cbuffer \<Rightarrow> byte list" where
  "cbuffer_contents cb = ring (buff cb) (nat (rpos cb)) (nat (ccount cb))"

lemma length_cbuffer_contents [simp]: "length (cbuffer_contents cb) = nat (ccount cb)"
  by (simp add: cbuffer_contents_def)

lemma cbuffer_wfD:
  assumes "cbuffer_wf cb"
  shows "0 \<le> rpos cb" "rpos cb < csize cb" "0 \<le> ccount cb" "ccount cb \<le> csize cb"
    "csize cb = int (length (buff cb))" "0 < length (buff cb)"
  using assms by (auto simp: cbuffer_wf_def cbuffer_assert_def split: if_splits)

text \<open>Copying a chunk to the write position appends it to the contents.\<close>

lemma cbuffer_chunk_append:
  assumes wf: "cbuffer_wf cb"
    and w: "wpos = (if rpos cb + ccount cb \<ge> csize cb then rpos cb + ccount cb - csize cb
                    else rpos cb + ccount cb)"
    and n: "0 \<le> n" "n \<le> csize cb - ccount cb" "wpos + n \<le> csize cb" "n \<le> int (length src)"
  obtains b where "memcpy (buff cb) wpos src n = Some b"
    "cbuffer_wf (cb\<lparr>buff := b, ccount := ccount cb + n\<rparr>)"
    "cbuffer_contents (cb\<lparr>buff := b, ccount := ccount cb + n\<rparr>) =
       cbuffer_contents cb @ take (nat n) src"
proof -
  note D = cbuffer_wfD [OF wf]
  have w0: "0 \<le> wpos" using D w by (simp split: if_splits)
  then obtain b where b: "memcpy (buff cb) wpos src n = Some b"
    using D n by (simp add: memcpy_def)
  have len: "length b = length (buff cb)" using memcpy_length [OF b] .
  have "ring b (nat (rpos cb)) (nat (ccount cb) + nat n) =
      ring (buff cb) (nat (rpos cb)) (nat (ccount cb)) @ take (nat n) src"
  proof (rule ring_append [where W = "nat wpos"])
    show "nat wpos = (nat (rpos cb) + nat (ccount cb)) mod length (buff cb)"
      using D w by (auto simp: wrap_mod nat_diff_distrib nat_add_distrib)
    show "b ! j = (if nat wpos \<le> j \<and> j < nat wpos + nat n then src ! (j - nat wpos) else buff cb ! j)"
      if "j < length (buff cb)" for j using memcpy_nth [OF b that] .
  qed (use D n w0 len in auto)
  then have "cbuffer_contents (cb\<lparr>buff := b, ccount := ccount cb + n\<rparr>) =
      cbuffer_contents cb @ take (nat n) src"
    using D n by (simp add: cbuffer_contents_def nat_add_distrib)
  moreover have "cbuffer_wf (cb\<lparr>buff := b, ccount := ccount cb + n\<rparr>)"
    using D n len by (simp add: cbuffer_wf_def cbuffer_assert_def)
  ultimately show thesis using that b by blast
qed

lemma cbuffer_drop:
  assumes wf: "cbuffer_wf cb" and n: "0 \<le> n" "n \<le> ccount cb"
    and rp: "rp = (if rpos cb + n \<ge> csize cb then rpos cb + n - csize cb else rpos cb + n)"
  shows "cbuffer_wf (cb\<lparr>ccount := ccount cb - n, rpos := rp\<rparr>)"
    "cbuffer_contents (cb\<lparr>ccount := ccount cb - n, rpos := rp\<rparr>) = drop (nat n) (cbuffer_contents cb)"
proof -
  note D = cbuffer_wfD [OF wf]
  show "cbuffer_wf (cb\<lparr>ccount := ccount cb - n, rpos := rp\<rparr>)"
    using D n rp by (auto simp: cbuffer_wf_def cbuffer_assert_def)
  have "nat rp = (nat (rpos cb) + nat n) mod length (buff cb)"
    using D n rp by (auto simp: wrap_mod nat_diff_distrib nat_add_distrib)
  then show "cbuffer_contents (cb\<lparr>ccount := ccount cb - n, rpos := rp\<rparr>) =
      drop (nat n) (cbuffer_contents cb)"
    using n ring_drop [of "nat n" "nat (ccount cb)" "buff cb" "nat (rpos cb)"]
    by (simp add: cbuffer_contents_def nat_diff_distrib)
qed

section \<open>The loops return and implement a bounded queue\<close>

lemma cbuffer_write_loop_correct:
  assumes "cbuffer_wf cb" and "len2 \<le> int (length from)"
  shows "\<exists>cb' r. cbuffer_write_loop cb from len2 = Some (cb', r) \<and> cbuffer_wf cb' \<and>
    csize cb' = csize cb \<and>
    cbuffer_contents cb' =
      cbuffer_contents cb @ take (nat (min len2 (csize cb - ccount cb))) from \<and>
    r = len2 - max 0 (min len2 (csize cb - ccount cb))"
  using assms
proof (induction "nat len2" arbitrary: cb "from" len2 rule: less_induct)
  case less
  note D = cbuffer_wfD [OF less.prems(1)]
  show ?case
  proof (cases "len2 > 0 \<and> csize cb - ccount cb \<noteq> 0")
    case False
    then show ?thesis using D less.prems
      by (subst cbuffer_write_loop.simps) (auto simp: Let_def)
  next
    case True
    obtain wpos n where wn: "write_chunk cb len2 = (wpos, n)" by fastforce
    have w: "wpos = (if rpos cb + ccount cb \<ge> csize cb
      then rpos cb + ccount cb - csize cb else rpos cb + ccount cb)"
      and n: "0 < n" "n \<le> csize cb - ccount cb" "wpos + n \<le> csize cb" "n \<le> int (length from)" "n \<le> len2"
      using D True less.prems(2) wn by (auto simp: write_chunk_def Let_def split: if_splits)
    obtain b where b: "memcpy (buff cb) wpos from n = Some b"
      and wf': "cbuffer_wf (cb\<lparr>buff := b, ccount := ccount cb + n\<rparr>)"
      and c': "cbuffer_contents (cb\<lparr>buff := b, ccount := ccount cb + n\<rparr>) =
        cbuffer_contents cb @ take (nat n) from"
      using cbuffer_chunk_append [OF less.prems(1) w _ n(2,3,4)] n(1) by auto
    have step: "cbuffer_write_loop cb from len2 =
      cbuffer_write_loop (cb\<lparr>buff := b, ccount := ccount cb + n\<rparr>) (drop (nat n) from) (len2 - n)"
      using True b wn by (subst cbuffer_write_loop.simps) simp
    have dec: "nat (len2 - n) < nat len2" and rest: "len2 - n \<le> int (length (drop (nat n) from))"
      using n True less.prems(2) by auto
    define k where "k = min (len2 - n) (csize cb - (ccount cb + n))"
    have k: "0 \<le> k" "min len2 (csize cb - ccount cb) = n + k"
      using n by (auto simp: k_def min_def)
    then have "take (nat (n + k)) from = take (nat n) from @ take (nat k) (drop (nat n) from)"
      using n by (simp add: nat_add_distrib take_add)
    then show ?thesis
      using less.hyps [OF dec wf' rest] n k unfolding step c'
      by (auto simp flip: k_def)
  qed
qed


lemma cbuffer_read_loop_correct:
  assumes "cbuffer_wf cb" and "0 \<le> off" and "off + len2 \<le> int (length to)"
  shows "\<exists>cb' to' r. cbuffer_read_loop cb to off len2 = Some (cb', to', r) \<and> cbuffer_wf cb' \<and>
    csize cb' = csize cb \<and>
    cbuffer_contents cb' = drop (nat (min len2 (ccount cb))) (cbuffer_contents cb) \<and>
    to' = take (nat off) to @ take (nat (min len2 (ccount cb))) (cbuffer_contents cb) @
      drop (nat off + nat (min len2 (ccount cb))) to \<and>
    r = len2 - max 0 (min len2 (ccount cb))"
  using assms
proof (induction "nat len2" arbitrary: cb to off len2 rule: less_induct)
  case less
  note D = cbuffer_wfD [OF less.prems(1)]
  show ?case
  proof (cases "len2 > 0 \<and> ccount cb \<noteq> 0")
    case False
    then show ?thesis using D less.prems
      by (subst cbuffer_read_loop.simps) (auto simp: Let_def)
  next
    case True
    define n where "n = read_chunk cb len2"
    define rp where "rp = (if rpos cb + n \<ge> csize cb then rpos cb + n - csize cb else rpos cb + n)"
    define to1 where "to1 = take (nat off) to @ take (nat n) (cbuffer_contents cb) @ drop (nat (off + n)) to"
    let ?cb = "cb\<lparr>ccount := ccount cb - n, rpos := rp\<rparr>"
    have n: "0 < n" "n \<le> ccount cb" "rpos cb + n \<le> csize cb" "n \<le> len2"
      using D True by (auto simp: n_def read_chunk_def Let_def)
    have chunk: "take (nat n) (drop (nat (rpos cb)) (buff cb)) = take (nat n) (cbuffer_contents cb)"
      unfolding cbuffer_contents_def using n D
      by (subst ring_take_contiguous) (auto simp: nat_add_distrib [symmetric])
    have "memcpy to off (drop (nat (rpos cb)) (buff cb)) n = Some to1"
      using less.prems n D by (simp add: memcpy_Some chunk to1_def)
    then have step: "cbuffer_read_loop cb to off len2 = cbuffer_read_loop ?cb to1 (off + n) (len2 - n)"
      using True D by (subst cbuffer_read_loop.simps) (simp add: Let_def rp_def flip: n_def)
    have len1: "length to1 = length to"
      using less.prems n D by (simp add: to1_def nat_add_distrib)
    define k where "k = min (len2 - n) (ccount cb - n)"
    have k: "0 \<le> k" "min len2 (ccount cb) = n + k"
      using n by (auto simp: k_def min_def)
    have "\<exists>cb' to' r. cbuffer_read_loop cb to off len2 = Some (cb', to', r) \<and> cbuffer_wf cb' \<and>
      csize cb' = csize cb \<and> cbuffer_contents cb' = drop (nat k) (cbuffer_contents ?cb) \<and>
      to' = take (nat (off + n)) to1 @ take (nat k) (cbuffer_contents ?cb) @
        drop (nat (off + n) + nat k) to1 \<and> r = len2 - n - max 0 k"
      unfolding step k_def using less.hyps [of "len2 - n" ?cb "off + n" to1] n less.prems len1
        cbuffer_drop(1) [OF less.prems(1) _ n(2) rp_def] by simp
    then show ?thesis
      using n k less.prems cbuffer_drop(2) [OF less.prems(1) _ n(2) rp_def]
      by (auto simp: to1_def nat_add_distrib take_add add.assoc) (simp_all add: ac_simps)
  qed
qed


section \<open>The circular buffer is a truncating queue\<close>

definition cb_put :: "cbuffer \<Rightarrow> byte list \<Rightarrow> (cbuffer \<times> nat) option" where
  "cb_put cb xs = map_option (\<lambda>(cb', n). (cb', nat n)) (cbuffer_write cb xs (int (length xs)))"

definition cb_get :: "cbuffer \<Rightarrow> nat \<Rightarrow> (cbuffer \<times> byte list) option" where
  "cb_get cb n =
     map_option (\<lambda>(cb', to, k). (cb', take (nat k) to)) (cbuffer_read cb (replicate n 0) (int n))"

lemma cbuffer_write_correct:
  assumes "cbuffer_wf cb" and "len \<le> int (length from)"
  obtains cb' where "cbuffer_write cb from len = Some (cb', max 0 (min len (csize cb - ccount cb)))"
    "cbuffer_wf cb'" "csize cb' = csize cb"
    "cbuffer_contents cb' = cbuffer_contents cb @ take (nat (min len (csize cb - ccount cb))) from"
  using cbuffer_write_loop_correct [OF assms] by (auto simp: cbuffer_write_def)

lemma cbuffer_read_correct:
  assumes "cbuffer_wf cb" and "len \<le> int (length to)"
  obtains cb' where "cbuffer_read cb to len =
      Some (cb', take (nat (min len (ccount cb))) (cbuffer_contents cb) @
                 drop (nat (min len (ccount cb))) to, max 0 (min len (ccount cb)))"
    "cbuffer_wf cb'" "csize cb' = csize cb"
    "cbuffer_contents cb' = drop (nat (min len (ccount cb))) (cbuffer_contents cb)"
  using cbuffer_read_loop_correct [OF assms(1), of 0 len to] assms(2)
  by (auto simp: cbuffer_read_def)

lemma cb_put_law:
  assumes wf: "cbuffer_wf cb"
  shows "\<exists>cb'. cb_put cb xs =
      Some (cb', min (length xs) (nat (csize cb) - length (cbuffer_contents cb))) \<and>
    cbuffer_wf cb' \<and> nat (csize cb') = nat (csize cb) \<and>
    cbuffer_contents cb' =
      cbuffer_contents cb @ take (nat (csize cb) - length (cbuffer_contents cb)) xs"
proof -
  note D = cbuffer_wfD [OF wf]
  obtain cb' where cb': "cbuffer_write cb xs (int (length xs)) =
      Some (cb', max 0 (min (int (length xs)) (csize cb - ccount cb)))" "cbuffer_wf cb'"
    "csize cb' = csize cb" "cbuffer_contents cb' =
      cbuffer_contents cb @ take (nat (min (int (length xs)) (csize cb - ccount cb))) xs"
    using cbuffer_write_correct [OF wf, of "int (length xs)" xs] by auto
  have n: "nat (max 0 (min (int (length xs)) (csize cb - ccount cb))) =
      min (length xs) (nat (csize cb) - nat (ccount cb))"
    "take (nat (min (int (length xs)) (csize cb - ccount cb))) xs =
      take (nat (csize cb) - nat (ccount cb)) xs"
    using D by (auto simp: min_def nat_diff_distrib)
  show ?thesis using cb' unfolding cb_put_def n by (simp add: n(1))
qed

lemma cb_get_law:
  assumes wf: "cbuffer_wf cb"
  shows "\<exists>cb'. cb_get cb n = Some (cb', take n (cbuffer_contents cb)) \<and> cbuffer_wf cb' \<and>
    nat (csize cb') = nat (csize cb) \<and> cbuffer_contents cb' = drop n (cbuffer_contents cb)"
proof -
  note D = cbuffer_wfD [OF wf]
  define m where "m = min (int n) (ccount cb)"
  have m: "0 \<le> m" "take (nat m) (cbuffer_contents cb) = take n (cbuffer_contents cb)"
    "drop (nat m) (cbuffer_contents cb) = drop n (cbuffer_contents cb)" "nat m \<le> n"
    "length (take n (cbuffer_contents cb)) = nat m"
    using D by (auto simp: m_def min_def)
  obtain cb' where "cbuffer_read cb (replicate n 0) (int n) =
      Some (cb', take (nat m) (cbuffer_contents cb) @ drop (nat m) (replicate n 0), max 0 m)"
    "cbuffer_wf cb'" "csize cb' = csize cb"
    "cbuffer_contents cb' = drop (nat m) (cbuffer_contents cb)"
    using cbuffer_read_correct [OF wf, of "int n" "replicate n 0"] unfolding m_def by auto
  then show ?thesis using m unfolding cb_get_def by (simp add: max_absorb2)
qed

interpretation cbq: truncating_fifo cbuffer_wf cbuffer_contents "\<lambda>cb. nat (csize cb)" cb_put cb_get
proof unfold_locales
  fix cb :: cbuffer and xs :: "byte list" and n :: nat
  assume wf: "cbuffer_wf cb"
  show "length (cbuffer_contents cb) \<le> nat (csize cb)" using cbuffer_wfD [OF wf] by simp
  show "\<exists>cb'. cb_put cb xs = Some (cb', length xs) \<and> cbuffer_wf cb' \<and> nat (csize cb') = nat (csize cb) \<and>
    cbuffer_contents cb' = cbuffer_contents cb @ xs"
    if "length xs \<le> nat (csize cb) - length (cbuffer_contents cb)"
    using cb_put_law [OF wf, of xs] that by (simp add: min_absorb1)
qed (rule cb_get_law cb_put_law, assumption)+

section \<open>Properties\<close>

text \<open>
  Property C18 (refinement). On any consistent buffer, every sequence of \<open>cbuffer_write\<close> and
  \<open>cbuffer_read\<close> calls returns, stays inside the array, keeps the buffer consistent, and preserves
  the byte stream: the bytes read so far followed by the bytes still buffered are the bytes
  initially buffered followed by the bytes the writes accepted.
\<close>

theorem cbuffer_stream:
  assumes "cbuffer_wf cb"
  shows "\<exists>cb' acc out. fifo_run cb_put cb_get cb ops = Some (cb', acc, out) \<and> cbuffer_wf cb' \<and>
    csize cb' = csize cb \<and> out @ cbuffer_contents cb' = cbuffer_contents cb @ acc"
proof -
  obtain cb' acc out where "fifo_run cb_put cb_get cb ops = Some (cb', acc, out)" "cbuffer_wf cb'"
    "nat (csize cb') = nat (csize cb)" "out @ cbuffer_contents cb' = cbuffer_contents cb @ acc"
    using cbq.run_stream [OF assms] by blast
  moreover have "0 \<le> csize cb'" "0 \<le> csize cb"
    using cbuffer_wfD(1,2) \<open>cbuffer_wf cb'\<close> assms by fastforce+
  ultimately show ?thesis by (auto simp: eq_nat_nat_iff)
qed

theorem cbuffer_stream_witness:
  "\<exists>cb' acc out. fifo_run cb_put cb_get (cbuffer_reset [0, 0, 0] 3) [Put [1, 2], Get 1, Put [3, 4, 5]] =
     Some (cb', acc, out) \<and> cbuffer_wf cb' \<and> csize cb' = csize (cbuffer_reset [0, 0, 0] 3) \<and>
     out @ cbuffer_contents cb' = cbuffer_contents (cbuffer_reset [0, 0, 0] 3) @ acc"
  by (rule cbuffer_stream)
    (simp add: cbuffer_reset_def cbuffer_wf_def cbuffer_assert_def)

text \<open>
  Remark (functional). The zero-copy write interface agrees with the queue: the space
  \<open>cbuffer_write_peek\<close> offers is free and inside the array, and filling part of it and calling
  \<open>cbuffer_write_step\<close> appends the data to the contents.
\<close>

theorem cbuffer_write_peek_step:
  assumes wf: "cbuffer_wf cb" and peek: "cbuffer_write_peek cb = (av, wp)"
    and n: "0 \<le> n" "n \<le> av" and xs: "int (length xs) = n"
  shows "\<exists>b. memcpy (buff cb) wp xs n = Some b \<and> cbuffer_wf (cbuffer_write_step (cb\<lparr>buff := b\<rparr>) n) \<and>
    cbuffer_contents (cbuffer_write_step (cb\<lparr>buff := b\<rparr>) n) = cbuffer_contents cb @ xs"
proof -
  note D = cbuffer_wfD [OF wf]
  have w: "wp = (if rpos cb + ccount cb \<ge> csize cb then rpos cb + ccount cb - csize cb
                 else rpos cb + ccount cb)"
    and av: "n \<le> csize cb - ccount cb" "wp + n \<le> csize cb"
    using peek n D by (auto simp: cbuffer_write_peek_def Let_def split: if_splits)
  have step: "cbuffer_write_step (cb\<lparr>buff := b\<rparr>) n = cb\<lparr>buff := b, ccount := ccount cb + n\<rparr>" for b
    using av by (simp add: cbuffer_write_step_def)
  show ?thesis
    unfolding step using cbuffer_chunk_append [OF wf w n(1) av, of xs] xs by auto
qed

theorem cbuffer_write_peek_step_witness:
  "cbuffer_write_peek (cbuffer_reset [0, 0] 2) = (2, 0) \<and>
   (\<exists>b. memcpy (buff (cbuffer_reset [0, 0] 2)) 0 [7] 1 = Some b \<and>
     cbuffer_wf (cbuffer_write_step ((cbuffer_reset [0, 0] 2)\<lparr>buff := b\<rparr>) 1) \<and>
     cbuffer_contents (cbuffer_write_step ((cbuffer_reset [0, 0] 2)\<lparr>buff := b\<rparr>) 1) =
       cbuffer_contents (cbuffer_reset [0, 0] 2) @ [7])"
proof -
  have wf: "cbuffer_wf (cbuffer_reset [0, 0] 2)"
    by (simp add: cbuffer_reset_def cbuffer_wf_def cbuffer_assert_def)
  have peek: "cbuffer_write_peek (cbuffer_reset [0, 0] 2) = (2, 0)"
    by (simp add: cbuffer_write_peek_def cbuffer_reset_def)
  show ?thesis using peek cbuffer_write_peek_step [OF wf peek, of 1 "[7]"] by simp
qed

text \<open>
  The read half: the bytes at the offset \<open>cbuffer_read_peek\<close> returns are the front of the queue,
  and \<open>cbuffer_read_step\<close> removes exactly the bytes consumed.
\<close>

lemma cbuffer_read_peek_step:
  assumes wf: "cbuffer_wf cb" and peek: "cbuffer_read_peek cb = (ar, rp)" and n: "0 \<le> n" "n \<le> ar"
  shows "take (nat n) (drop (nat rp) (buff cb)) = take (nat n) (cbuffer_contents cb)"
    "rp + n \<le> int (length (buff cb))" "0 \<le> rp" "n \<le> ccount cb"
    "cbuffer_wf (cbuffer_read_step cb n)" "csize (cbuffer_read_step cb n) = csize cb"
    "cbuffer_contents (cbuffer_read_step cb n) = drop (nat n) (cbuffer_contents cb)"
proof -
  note D = cbuffer_wfD [OF wf]
  have rp: "rp = rpos cb" and rp2: "n \<le> ccount cb" "rpos cb + n \<le> csize cb"
    using peek n D by (auto simp: cbuffer_read_peek_def Let_def split: if_splits)
  show "take (nat n) (drop (nat rp) (buff cb)) = take (nat n) (cbuffer_contents cb)"
    unfolding cbuffer_contents_def using n rp rp2 D
    by (subst ring_take_contiguous) (auto simp: nat_add_distrib [symmetric])
  have "cbuffer_read_step cb n = cb\<lparr>ccount := ccount cb - n,
      rpos := (if rpos cb + n \<ge> csize cb then rpos cb + n - csize cb else rpos cb + n)\<rparr>"
    using rp2 by (simp add: cbuffer_read_step_def Let_def)
  then show "cbuffer_wf (cbuffer_read_step cb n)" "csize (cbuffer_read_step cb n) = csize cb"
    "cbuffer_contents (cbuffer_read_step cb n) = drop (nat n) (cbuffer_contents cb)"
    using cbuffer_drop [OF wf n(1) rp2(1) refl] by simp_all
qed (use assms cbuffer_wfD [OF wf] in \<open>auto simp: cbuffer_read_peek_def Let_def split: if_splits\<close>)

end
