(* ===== verification/Goldfish_Battery.thy ===== *)
theory Goldfish_Battery
  imports Goldfish_Board
begin

unbundle bit_operations_syntax

text \<open>
  The battery device (\<open>hw/goldfish_battery.c\<close>): its registers, the console's property changes and
  the interrupt it raises for them.
\<close>

section \<open>State and operations\<close>

record battery_state =
  int_status :: u32
  int_enable :: u32
  ac_online :: int
  bat_status :: int
  health :: int
  present :: int
  capacity :: int

definition BATTERY_INT_STATUS :: u32 where "BATTERY_INT_STATUS = 0x00"
definition BATTERY_INT_ENABLE :: u32 where "BATTERY_INT_ENABLE = 0x04"
definition BATTERY_AC_ONLINE :: u32 where "BATTERY_AC_ONLINE = 0x08"
definition BATTERY_STATUS :: u32 where "BATTERY_STATUS = 0x0C"
definition BATTERY_HEALTH :: u32 where "BATTERY_HEALTH = 0x10"
definition BATTERY_PRESENT :: u32 where "BATTERY_PRESENT = 0x14"
definition BATTERY_CAPACITY :: u32 where "BATTERY_CAPACITY = 0x18"
definition BATTERY_STATUS_CHANGED :: u32 where "BATTERY_STATUS_CHANGED = 1"
definition AC_STATUS_CHANGED :: u32 where "AC_STATUS_CHANGED = 2"

lemmas battery_regs = BATTERY_INT_STATUS_def BATTERY_INT_ENABLE_def BATTERY_AC_ONLINE_def
  BATTERY_STATUS_def BATTERY_HEALTH_def BATTERY_PRESENT_def BATTERY_CAPACITY_def
  BATTERY_STATUS_CHANGED_def AC_STATUS_CHANGED_def

text \<open>The values of \<open>enum power_supply_property\<close> and of the status and health enumerations used.\<close>

definition POWER_SUPPLY_PROP_STATUS :: int where "POWER_SUPPLY_PROP_STATUS = 0"
definition POWER_SUPPLY_PROP_HEALTH :: int where "POWER_SUPPLY_PROP_HEALTH = 1"
definition POWER_SUPPLY_PROP_PRESENT :: int where "POWER_SUPPLY_PROP_PRESENT = 2"
definition POWER_SUPPLY_PROP_ONLINE :: int where "POWER_SUPPLY_PROP_ONLINE = 3"
definition POWER_SUPPLY_PROP_CAPACITY :: int where "POWER_SUPPLY_PROP_CAPACITY = 23"
definition POWER_SUPPLY_STATUS_CHARGING :: int where "POWER_SUPPLY_STATUS_CHARGING = 1"
definition POWER_SUPPLY_HEALTH_GOOD :: int where "POWER_SUPPLY_HEALTH_GOOD = 1"

lemmas power_props = POWER_SUPPLY_PROP_STATUS_def POWER_SUPPLY_PROP_HEALTH_def
  POWER_SUPPLY_PROP_PRESENT_def POWER_SUPPLY_PROP_ONLINE_def POWER_SUPPLY_PROP_CAPACITY_def

definition goldfish_battery_init :: battery_state where
  "goldfish_battery_init = \<lparr>int_status = 0, int_enable = 0, ac_online = 1,
     bat_status = POWER_SUPPLY_STATUS_CHARGING, health = POWER_SUPPLY_HEALTH_GOOD,
     present = 1, capacity = 50\<rparr>"

definition goldfish_battery_read ::
  "battery_state \<Rightarrow> u32 \<Rightarrow> (u32 \<times> battery_state \<times> effect list) outcome" where
  "goldfish_battery_read s off =
     (if off = BATTERY_INT_STATUS then
        (let ret = int_status s AND int_enable s
         in if ret \<noteq> 0 then Inr (ret, s\<lparr>int_status := 0\<rparr>, [Set_irq 0 0]) else Inr (ret, s, []))
      else if off = BATTERY_INT_ENABLE then Inr (int_enable s, s, [])
      else if off = BATTERY_AC_ONLINE then Inr (word_of_int (ac_online s), s, [])
      else if off = BATTERY_STATUS then Inr (word_of_int (bat_status s), s, [])
      else if off = BATTERY_HEALTH then Inr (word_of_int (health s), s, [])
      else if off = BATTERY_PRESENT then Inr (word_of_int (present s), s, [])
      else if off = BATTERY_CAPACITY then Inr (word_of_int (capacity s), s, [])
      else Inl Cpu_abort)"

definition goldfish_battery_write ::
  "battery_state \<Rightarrow> u32 \<Rightarrow> u32 \<Rightarrow> (battery_state \<times> effect list) outcome" where
  "goldfish_battery_write s off v =
     (if off = BATTERY_INT_ENABLE then Inr (s\<lparr>int_enable := v\<rparr>, []) else Inl Cpu_abort)"

definition set_field :: "battery_state \<Rightarrow> int \<Rightarrow> int \<Rightarrow> int \<Rightarrow> battery_state" where
  "set_field s ac p v =
     (if ac \<noteq> 0 then
        (if p = POWER_SUPPLY_PROP_ONLINE then s\<lparr>ac_online := v\<rparr> else s)
      else if p = POWER_SUPPLY_PROP_STATUS then s\<lparr>bat_status := v\<rparr>
      else if p = POWER_SUPPLY_PROP_HEALTH then s\<lparr>health := v\<rparr>
      else if p = POWER_SUPPLY_PROP_PRESENT then s\<lparr>present := v\<rparr>
      else if p = POWER_SUPPLY_PROP_CAPACITY then s\<lparr>capacity := v\<rparr>
      else s)"

definition goldfish_battery_set_prop ::
  "battery_state \<Rightarrow> int \<Rightarrow> int \<Rightarrow> int \<Rightarrow> battery_state \<times> effect list" where
  "goldfish_battery_set_prop s ac p v =
     (let new_status = (if ac \<noteq> 0 then AC_STATUS_CHANGED else BATTERY_STATUS_CHANGED);
          s = set_field s ac p v
      in if new_status \<noteq> int_status s then
           (let s = s\<lparr>int_status := int_status s OR new_status\<rparr>
            in (s, [Set_irq 0 (uint (int_status s AND int_enable s))]))
         else (s, []))"

section \<open>The interrupt line\<close>

definition battery_wants :: "battery_state \<Rightarrow> bool" where
  "battery_wants s \<longleftrightarrow> int_status s AND int_enable s \<noteq> 0"

datatype battery_op = Bat_mmio mmio | Bat_set_prop int int int

fun battery_step :: "battery_state \<Rightarrow> battery_op \<Rightarrow> (battery_state \<times> effect list) outcome" where
  "battery_step s (Bat_mmio (Mmio_read off)) =
     map_sum id (\<lambda>(v, s, es). (s, es)) (goldfish_battery_read s off)"
| "battery_step s (Bat_mmio (Mmio_write off v)) = goldfish_battery_write s off v"
| "battery_step s (Bat_set_prop ac p v) = Inr (goldfish_battery_set_prop s ac p v)"

text \<open>Everything but a change of the enable mask.\<close>

fun battery_fixed_step :: "battery_state \<Rightarrow> battery_op \<Rightarrow> (battery_state \<times> effect list) outcome" where
  "battery_fixed_step s (Bat_mmio (Mmio_write off v)) = Inl Cpu_abort"
| "battery_fixed_step s x = battery_step s x"

lemma set_field_int [simp]:
  "int_status (set_field s ac p v) = int_status s" "int_enable (set_field s ac p v) = int_enable s"
  by (simp_all add: set_field_def)

lemma battery_fixed_line:
  assumes "battery_fixed_step s x = Inr (s', es)"
  shows "line_after (battery_wants s) es = battery_wants s'"
proof (cases x)
  case (Bat_mmio m)
  then show ?thesis using assms
    by (cases m) (auto simp: goldfish_battery_read_def battery_wants_def Let_def map_sum_def
        split: if_splits)
next
  case (Bat_set_prop ac p v)
  then show ?thesis using assms
    by (auto simp: goldfish_battery_set_prop_def battery_wants_def Let_def uint_0_iff split: if_splits)
qed

interpretation battery_line: level_device "\<lambda>_. True" battery_wants battery_fixed_step
  by unfold_locales (simp_all add: battery_fixed_line)

lemma battery_fixed_single: "battery_fixed_step s x = Inr (s', es) \<Longrightarrow> single_line es"
  by (induction s x rule: battery_fixed_step.induct)
    (auto simp: goldfish_battery_read_def goldfish_battery_set_prop_def Let_def map_sum_Inr_iff
      split: if_splits sum.splits elim!: battery_step.elims)

interpretation battery_board: wired_device "\<lambda>_. True" battery_wants battery_fixed_step
  by unfold_locales (rule battery_fixed_single)

section \<open>Properties\<close>

text \<open>
  Remark (invariant). While the guest leaves the interrupt mask alone, the battery's line is
  high exactly when an enabled change is pending, after any register reads and property changes.
\<close>

theorem battery_irq_in_step:
  assumes "device_run battery_fixed_step s (int_status s AND int_enable s \<noteq> 0) xs = Inr (s', l)"
  shows "l \<longleftrightarrow> int_status s' AND int_enable s' \<noteq> 0"
  using battery_line.run_line [of s xs s' l] assms by (simp add: battery_wants_def)

theorem battery_irq_in_step_witness:
  "\<exists>s' l. device_run battery_fixed_step (goldfish_battery_init\<lparr>int_enable := 3\<rparr>) False
      [Bat_set_prop 0 23 10] = Inr (s', l) \<and> (l \<longleftrightarrow> int_status s' AND int_enable s' \<noteq> 0)"
proof -
  obtain s' l where r: "device_run battery_fixed_step (goldfish_battery_init\<lparr>int_enable := 3\<rparr>)
      (int_status (goldfish_battery_init\<lparr>int_enable := 3\<rparr>) AND
       int_enable (goldfish_battery_init\<lparr>int_enable := 3\<rparr>) \<noteq> 0) [Bat_set_prop 0 23 10] = Inr (s', l)"
    by (cases "goldfish_battery_set_prop (goldfish_battery_init\<lparr>int_enable := 3\<rparr>) 0 23 10") auto
  from battery_irq_in_step [OF this] r show ?thesis
    by (intro exI [of _ s'] exI [of _ l]) (simp add: goldfish_battery_init_def)
qed

text \<open>
  Remark (error). Changing the mask loses interrupts: \<open>goldfish_battery_write\<close> does not update
  the line, so a change pending when the guest enables its interrupt is never signalled, and a
  later change of the same kind does not signal it either, because \<open>goldfish_battery_set_prop\<close>
  drives the line only when the status word differs.
\<close>

theorem battery_enable_loses_irq:
  "\<exists>s. device_run battery_step goldfish_battery_init False
      [Bat_set_prop 0 POWER_SUPPLY_PROP_CAPACITY 10, Bat_mmio (Mmio_write BATTERY_INT_ENABLE 3),
       Bat_set_prop 0 POWER_SUPPLY_PROP_CAPACITY 5] = Inr (s, False) \<and>
    int_status s AND int_enable s \<noteq> 0"
  by (simp add: goldfish_battery_init_def goldfish_battery_set_prop_def goldfish_battery_write_def
      set_field_def battery_regs power_props Let_def)

text \<open>The value behind each property register.\<close>

definition battery_reg :: "battery_state \<Rightarrow> u32 \<Rightarrow> int" where
  "battery_reg s off =
     (if off = BATTERY_AC_ONLINE then ac_online s else if off = BATTERY_STATUS then bat_status s
      else if off = BATTERY_HEALTH then health s else if off = BATTERY_PRESENT then present s
      else capacity s)"

definition property_regs :: "u32 list" where
  "property_regs = [BATTERY_AC_ONLINE, BATTERY_STATUS, BATTERY_HEALTH, BATTERY_PRESENT, BATTERY_CAPACITY]"

lemma battery_read_reg:
  "off \<in> set property_regs \<Longrightarrow>
   goldfish_battery_read s off = Inr (word_of_int (battery_reg s off), s, [])"
  by (auto simp: property_regs_def goldfish_battery_read_def battery_reg_def battery_regs)

lemma battery_reg_int_status [simp]: "battery_reg (s\<lparr>int_status := w\<rparr>) off = battery_reg s off"
  by (simp add: battery_reg_def)

text \<open>
  Remark (functional). A property the console sets is what the guest then reads from the
  corresponding register (truncated to the register's 32 bits), and no other property register
  changes.
\<close>

theorem battery_set_then_read:
  assumes "goldfish_battery_set_prop s ac p v = (s', es)"
    and "(ac, p, off) \<in> {(1, POWER_SUPPLY_PROP_ONLINE, BATTERY_AC_ONLINE),
      (0, POWER_SUPPLY_PROP_STATUS, BATTERY_STATUS), (0, POWER_SUPPLY_PROP_HEALTH, BATTERY_HEALTH),
      (0, POWER_SUPPLY_PROP_PRESENT, BATTERY_PRESENT), (0, POWER_SUPPLY_PROP_CAPACITY, BATTERY_CAPACITY)}"
    and "off' \<in> set property_regs"
  shows "goldfish_battery_read s' off' =
    Inr (if off' = off then word_of_int v else word_of_int (battery_reg s off'), s', [])"
proof -
  have "battery_reg (set_field s ac p v) off' = (if off' = off then v else battery_reg s off')"
    using assms(2,3) unfolding property_regs_def
    by (elim insertE emptyE) (auto simp: battery_reg_def set_field_def battery_regs power_props)
  then have "battery_reg s' off' = (if off' = off then v else battery_reg s off')"
    using assms(1) by (auto simp: goldfish_battery_set_prop_def Let_def split: if_splits)
  then show ?thesis using battery_read_reg [OF assms(3), of s'] by simp
qed

theorem battery_set_then_read_witness:
  "\<exists>s' es. goldfish_battery_set_prop goldfish_battery_init 0 POWER_SUPPLY_PROP_CAPACITY 7 = (s', es) \<and>
     goldfish_battery_read s' BATTERY_CAPACITY = Inr (7, s', [])"
proof -
  obtain s' es where w: "goldfish_battery_set_prop goldfish_battery_init 0 POWER_SUPPLY_PROP_CAPACITY 7 = (s', es)"
    by fastforce
  show ?thesis using w battery_set_then_read [OF w, of BATTERY_CAPACITY BATTERY_CAPACITY]
    by (simp add: property_regs_def)
qed

end
