(* ===== verification/Goldfish_Switch.thy ===== *)
theory Goldfish_Switch
  imports Goldfish_Board Savevm
begin

unbundle bit_operations_syntax

text \<open>
  The switch device (\<open>hw/goldfish_switch.c\<close>): a named switch the host can flip and, when it has a
  write callback, the guest can set.
\<close>

section \<open>State and operations\<close>

text \<open>
  \<open>writefn\<close> is the output callback of \<open>goldfish_switch_add\<close>, applied to its opaque argument;
  \<open>None\<close> is a \<open>NULL\<close> callback. The one-bit fields are Booleans.
\<close>

record switch_state =
  sw_name :: string
  sw_state :: u32
  state_changed :: bool
  sw_int_enable :: bool
  writefn :: "(u32 \<Rightarrow> u32) option"

definition SW_NAME_LEN :: u32 where "SW_NAME_LEN = 0x00"
definition SW_NAME_PTR :: u32 where "SW_NAME_PTR = 0x04"
definition SW_FLAGS :: u32 where "SW_FLAGS = 0x08"
definition SW_STATE :: u32 where "SW_STATE = 0x0c"
definition SW_INT_STATUS :: u32 where "SW_INT_STATUS = 0x10"
definition SW_INT_ENABLE :: u32 where "SW_INT_ENABLE = 0x14"
definition SW_FLAGS_OUTPUT :: u32 where "SW_FLAGS_OUTPUT = 1"

lemmas switch_regs = SW_NAME_LEN_def SW_NAME_PTR_def SW_FLAGS_def SW_STATE_def
  SW_INT_STATUS_def SW_INT_ENABLE_def SW_FLAGS_OUTPUT_def

definition goldfish_switch_add :: "string \<Rightarrow> (u32 \<Rightarrow> u32) option \<Rightarrow> switch_state" where
  "goldfish_switch_add n w =
     \<lparr>sw_name = n, sw_state = 0, state_changed = False, sw_int_enable = False, writefn = w\<rparr>"

definition goldfish_switch_set_state :: "switch_state \<Rightarrow> u32 \<Rightarrow> switch_state \<times> effect list" where
  "goldfish_switch_set_state s st =
     (let s = s\<lparr>state_changed := True, sw_state := st\<rparr>
      in (s, if sw_int_enable s then [Set_irq 0 1] else []))"

definition goldfish_switch_read ::
  "switch_state \<Rightarrow> u32 \<Rightarrow> (u32 \<times> switch_state \<times> effect list) outcome" where
  "goldfish_switch_read s off =
     (if off = SW_NAME_LEN then Inr (of_nat (length (sw_name s)), s, [])
      else if off = SW_FLAGS then Inr (if writefn s \<noteq> None then SW_FLAGS_OUTPUT else 0, s, [])
      else if off = SW_STATE then Inr (sw_state s, s, [])
      else if off = SW_INT_STATUS then
        (if state_changed s \<and> sw_int_enable s
         then Inr (1, s\<lparr>state_changed := False\<rparr>, [Set_irq 0 0])
         else Inr (0, s, []))
      else Inl Cpu_abort)"

definition goldfish_switch_write ::
  "switch_state \<Rightarrow> u32 \<Rightarrow> u32 \<Rightarrow> (switch_state \<times> effect list) outcome" where
  "goldfish_switch_write s off v =
     (if off = SW_NAME_PTR then Inr (s, [Mem_write v (map of_char (sw_name s))])
      else if off = SW_STATE then
        (case writefn s of
           Some w \<Rightarrow> if w v \<noteq> sw_state s then Inr (goldfish_switch_set_state s (w v)) else Inr (s, [])
         | None \<Rightarrow> Inl Cpu_abort)
      else if off = SW_INT_ENABLE then
        (let en = odd v
         in Inr (s\<lparr>sw_int_enable := en\<rparr>,
                 if state_changed s \<and> sw_int_enable s \<noteq> en
                 then [Set_irq 0 (if en then 1 else 0)] else []))
      else Inl Cpu_abort)"

text \<open>Snapshots: the bytes the save handler puts, and the load handler on the stream.\<close>

definition GOLDFISH_SWITCH_SAVE_VERSION :: int where "GOLDFISH_SWITCH_SAVE_VERSION = 1"

definition goldfish_switch_save :: "switch_state \<Rightarrow> put_op list" where
  "goldfish_switch_save s =
     [Put_be32 (sw_state s), Put_byte (if state_changed s then 1 else 0),
      Put_byte (if sw_int_enable s then 1 else 0)]"

definition goldfish_switch_load ::
  "switch_state \<Rightarrow> byte list \<Rightarrow> int \<Rightarrow> int \<times> switch_state \<times> byte list" where
  "goldfish_switch_load s f version_id =
     (if version_id \<noteq> GOLDFISH_SWITCH_SAVE_VERSION then (-1, s, f)
      else
        (let (st, f) = qemu_get_be32 f;
             (ch, f) = get_byte f;
             (en, f) = get_byte f
         in (0, s\<lparr>sw_state := st, state_changed := odd ch, sw_int_enable := odd en\<rparr>, f)))"

section \<open>The interrupt line\<close>

definition switch_wants :: "switch_state \<Rightarrow> bool" where
  "switch_wants s \<longleftrightarrow> state_changed s \<and> sw_int_enable s"

datatype switch_op = Sw_mmio mmio | Sw_set_state u32

fun switch_step :: "switch_state \<Rightarrow> switch_op \<Rightarrow> (switch_state \<times> effect list) outcome" where
  "switch_step s (Sw_mmio (Mmio_read off)) =
     map_sum id (\<lambda>(v, s, es). (s, es)) (goldfish_switch_read s off)"
| "switch_step s (Sw_mmio (Mmio_write off v)) = goldfish_switch_write s off v"
| "switch_step s (Sw_set_state st) = Inr (goldfish_switch_set_state s st)"

lemma switch_step_line:
  assumes "switch_step s x = Inr (s', es)"
  shows "line_after (switch_wants s) es = switch_wants s'"
proof (cases x)
  case (Sw_mmio m)
  then show ?thesis using assms
    by (cases m) (auto simp: goldfish_switch_read_def goldfish_switch_write_def
        goldfish_switch_set_state_def switch_wants_def Let_def split: if_splits option.splits)
next
  case (Sw_set_state st)
  then show ?thesis using assms
    by (auto simp: goldfish_switch_set_state_def switch_wants_def Let_def split: if_splits)
qed

interpretation switch_line: level_device "\<lambda>_. True" switch_wants switch_step
  by unfold_locales (simp_all add: switch_step_line)

lemma switch_step_single: "switch_step s x = Inr (s', es) \<Longrightarrow> single_line es"
  by (induction s x rule: switch_step.induct)
    (auto simp: goldfish_switch_read_def goldfish_switch_write_def goldfish_switch_set_state_def Let_def
      map_sum_Inr_iff split: if_splits option.splits sum.splits)

interpretation switch_board: wired_device "\<lambda>_. True" switch_wants switch_step
  by unfold_locales (rule switch_step_single)

section \<open>Properties\<close>

text \<open>
  Remark (invariant). The switch's line is high exactly when a change is pending and enabled,
  after any sequence of register accesses and host state changes on a new switch.
\<close>

theorem switch_irq_in_step:
  assumes "device_run switch_step (goldfish_switch_add n w) False xs = Inr (s', l)"
  shows "l \<longleftrightarrow> state_changed s' \<and> sw_int_enable s'"
proof -
  have "switch_wants (goldfish_switch_add n w) = False"
    by (simp add: switch_wants_def goldfish_switch_add_def)
  with assms have "device_run switch_step (goldfish_switch_add n w)
      (switch_wants (goldfish_switch_add n w)) xs = Inr (s', l)" by simp
  from switch_line.run_line [OF TrueI this] show ?thesis by (simp add: switch_wants_def)
qed

theorem switch_irq_in_step_witness:
  "\<exists>s' l. device_run switch_step (goldfish_switch_add ''sw'' None) False
      [Sw_mmio (Mmio_write SW_INT_ENABLE 1), Sw_set_state 1] = Inr (s', l) \<and>
    (l \<longleftrightarrow> state_changed s' \<and> sw_int_enable s')"
proof -
  obtain s' l where r: "device_run switch_step (goldfish_switch_add ''sw'' None) False
      [Sw_mmio (Mmio_write SW_INT_ENABLE 1), Sw_set_state 1] = Inr (s', l)"
    by (simp add: goldfish_switch_write_def switch_regs goldfish_switch_set_state_def Let_def)
  from switch_irq_in_step [OF this] r show ?thesis by blast
qed

text \<open>
  Remark (roundtrip). A snapshot restores the switch: loading what the save handler wrote, with
  the version it was written with, gives back the switch state and consumes exactly what was
  written; any other version is refused and changes nothing.
\<close>

theorem switch_snapshot_roundtrip:
  "goldfish_switch_load t (concat (map op_bytes (goldfish_switch_save s)) @ r) GOLDFISH_SWITCH_SAVE_VERSION =
     (0, t\<lparr>sw_state := sw_state s, state_changed := state_changed s, sw_int_enable := sw_int_enable s\<rparr>, r) \<and>
   (v \<noteq> GOLDFISH_SWITCH_SAVE_VERSION \<longrightarrow> goldfish_switch_load t f v = (-1, t, f))"
  by (simp add: goldfish_switch_load_def goldfish_switch_save_def)

theorem switch_snapshot_roundtrip_witness:
  "goldfish_switch_load (goldfish_switch_add ''sw'' None) [] 2 = (-1, goldfish_switch_add ''sw'' None, [])"
  using switch_snapshot_roundtrip [of "goldfish_switch_add ''sw'' None" "goldfish_switch_add ''sw'' None" "[]" 2 "[]"]
  by (simp add: GOLDFISH_SWITCH_SAVE_VERSION_def)

end
