(* ===== verification/Qemu_Timer.thy ===== *)
theory Qemu_Timer
  imports Emu_Prelude
begin

unbundle bit_operations_syntax

text \<open>
  The timer list of the main loop (\<open>vl-android.c\<close>: \<open>qemu_del_timer\<close>, \<open>qemu_mod_timer\<close>,
  \<open>qemu_timer_pending\<close>, \<open>qemu_run_timers\<close>) and the 96-bit scaling \<open>muldiv64\<close> of its clocks.

  A clock's \<open>active_timers\<close> list is the list of its pending timers, each a timer identity (the
  \<open>QEMUTimer\<close> pointer) with its \<open>expire_time\<close>. Rearming the host alarm, which \<open>qemu_mod_timer\<close> does
  when the new timer is first, is not part of the model.
\<close>

section \<open>Scaling\<close>

text \<open>\<open>muldiv64\<close>: \<open>a * b / c\<close> with a 96-bit intermediate, on the two halves of \<open>a\<close>.\<close>

definition muldiv64 :: "u64 \<Rightarrow> u32 \<Rightarrow> u32 \<Rightarrow> u64" where
  "muldiv64 a b c =
     (let low = ucast (ucast a :: u32) :: u64;
          high = drop_bit 32 a;
          rl = low * ucast b;
          rh = high * ucast b;
          rh = rh + drop_bit 32 rl;
          res_high = ucast (rh div ucast c) :: u32;
          res_low = ucast ((push_bit 32 (rh mod ucast c) + (rl AND 0xffffffff)) div ucast c) :: u32
      in push_bit 32 (ucast res_high) OR ucast res_low)"

section \<open>Timer list\<close>

type_synonym timers = "(nat \<times> int) list"

fun qemu_del_timer :: "timers \<Rightarrow> nat \<Rightarrow> timers" where
  "qemu_del_timer [] t = []"
| "qemu_del_timer ((u, e) # ts) t = (if u = t then ts else (u, e) # qemu_del_timer ts t)"

text \<open>The insertion loop: before the first timer that expires strictly later.\<close>

fun insert_timer :: "timers \<Rightarrow> nat \<Rightarrow> int \<Rightarrow> timers" where
  "insert_timer [] t x = [(t, x)]"
| "insert_timer ((u, e) # ts) t x =
     (if e > x then (t, x) # (u, e) # ts else (u, e) # insert_timer ts t x)"

definition qemu_mod_timer :: "timers \<Rightarrow> nat \<Rightarrow> int \<Rightarrow> timers" where
  "qemu_mod_timer ts t x = insert_timer (qemu_del_timer ts t) t x"

fun qemu_timer_pending :: "timers \<Rightarrow> nat \<Rightarrow> bool" where
  "qemu_timer_pending [] t = False"
| "qemu_timer_pending ((u, e) # ts) t = (if u = t then True else qemu_timer_pending ts t)"

text \<open>
  \<open>qemu_run_timers\<close>: \<open>cb\<close> is the callback of a timer, which can change the timer list and the rest
  of the machine \<open>m\<close>. The result carries the timers fired, in order; \<open>None\<close> is a loop that never ends.
\<close>

partial_function (option) qemu_run_timers ::
  "(nat \<Rightarrow> timers \<times> 'm \<Rightarrow> timers \<times> 'm) \<Rightarrow> int \<Rightarrow> timers \<Rightarrow> 'm \<Rightarrow> nat list \<Rightarrow>
   (timers \<times> 'm \<times> nat list) option" where
  "qemu_run_timers cb now ts m fired =
     (case ts of
        [] \<Rightarrow> Some (ts, m, fired)
      | (t, e) # rest \<Rightarrow>
          if e > now then Some (ts, m, fired)
          else (case cb t (rest, m) of
                  (ts', m') \<Rightarrow> qemu_run_timers cb now ts' m' (fired @ [t])))"

section \<open>Invariant: sorted, and each timer at most once\<close>

definition timers_wf :: "timers \<Rightarrow> bool" where
  "timers_wf ts \<longleftrightarrow> sorted (map snd ts) \<and> distinct (map fst ts)"

lemma pending_iff: "qemu_timer_pending ts t \<longleftrightarrow> t \<in> fst ` set ts"
  by (induction ts t rule: qemu_timer_pending.induct) auto

lemma filter_absent: "t \<notin> fst ` set ts \<Longrightarrow> filter (\<lambda>p. fst p \<noteq> t) ts = ts"
  by (auto simp: filter_id_conv)

lemma del_timer_filter:
  "distinct (map fst ts) \<Longrightarrow> qemu_del_timer ts t = filter (\<lambda>p. fst p \<noteq> t) ts"
  by (induction ts t rule: qemu_del_timer.induct) (auto simp: filter_absent)

lemma set_del_timer:
  "distinct (map fst ts) \<Longrightarrow> set (qemu_del_timer ts t) = {p \<in> set ts. fst p \<noteq> t}"
  by (simp add: del_timer_filter)

lemma set_insert_timer: "set (insert_timer ts t x) = insert (t, x) (set ts)"
  by (induction ts t x rule: insert_timer.induct) auto

lemma sorted_insert_timer: "sorted (map snd ts) \<Longrightarrow> sorted (map snd (insert_timer ts t x))"
  by (induction ts t x rule: insert_timer.induct) (auto simp: set_insert_timer)

lemma distinct_insert_timer:
  "distinct (map fst ts) \<Longrightarrow> t \<notin> fst ` set ts \<Longrightarrow> distinct (map fst (insert_timer ts t x))"
  by (induction ts t x rule: insert_timer.induct) (auto simp: set_insert_timer image_iff)

lemma sorted_map_filter: "sorted (map f xs) \<Longrightarrow> sorted (map f (filter P xs))"
  by (induction xs) auto

lemma timers_wf_del: "timers_wf ts \<Longrightarrow> timers_wf (qemu_del_timer ts t)"
  by (simp add: timers_wf_def del_timer_filter sorted_map_filter distinct_map_filter)

lemma timers_wf_mod: "timers_wf ts \<Longrightarrow> timers_wf (qemu_mod_timer ts t x)"
  by (simp add: qemu_mod_timer_def timers_wf_def del_timer_filter sorted_insert_timer
      distinct_insert_timer sorted_map_filter distinct_map_filter image_iff)

lemma set_mod_timer:
  "timers_wf ts \<Longrightarrow> set (qemu_mod_timer ts t x) = insert (t, x) {p \<in> set ts. fst p \<noteq> t}"
  by (simp add: qemu_mod_timer_def set_insert_timer set_del_timer timers_wf_def)

section \<open>Properties\<close>

text \<open>
  Property C26 (invariant). Rearming a timer keeps the list sorted by expiry with every timer on it
  at most once; the timer is then pending exactly at its new time and the other timers are as
  before. Deleting it removes it and nothing else.
\<close>

theorem mod_del_timer_correct:
  assumes "timers_wf ts"
  shows "timers_wf (qemu_mod_timer ts t x) \<and> timers_wf (qemu_del_timer ts t) \<and>
    (\<forall>u e. (u, e) \<in> set (qemu_mod_timer ts t x) \<longleftrightarrow>
       (if u = t then e = x else (u, e) \<in> set ts)) \<and>
    (\<forall>u. qemu_timer_pending (qemu_del_timer ts t) u \<longleftrightarrow> u \<noteq> t \<and> qemu_timer_pending ts u)"
proof (intro conjI allI)
  have "distinct (map fst ts)" using assms by (simp add: timers_wf_def)
  then show "qemu_timer_pending (qemu_del_timer ts t) u \<longleftrightarrow> u \<noteq> t \<and> qemu_timer_pending ts u" for u
    by (auto simp: pending_iff set_del_timer)
qed (use assms in \<open>auto simp: set_mod_timer timers_wf_mod timers_wf_del\<close>)

theorem mod_del_timer_correct_witness:
  "timers_wf (qemu_mod_timer [(1, 10), (2, 20)] 1 30) \<and>
   qemu_mod_timer [(1, 10), (2, 20)] 1 30 = [(2, 20), (1, 30)]"
proof -
  have "timers_wf [(1, 10), (2, 20)]" by (simp add: timers_wf_def)
  from mod_del_timer_correct [OF this, of 1 30] show ?thesis by (simp add: qemu_mod_timer_def)
qed

text \<open>The schoolbook division on 32-bit digits, in natural numbers.\<close>

lemma two_digit_div:
  fixes rh l c B :: nat
  assumes "0 < c"
  shows "(rh * B + l) div c = rh div c * B + (rh mod c * B + l) div c"
proof -
  have "rh * B = (rh div c * c + rh mod c) * B" by simp
  also have "\<dots> = rh div c * B * c + rh mod c * B"
    unfolding distrib_right by (simp only: mult_ac)
  finally have "rh * B + l = (rh mod c * B + l) + rh div c * B * c" by simp
  then have "(rh * B + l) div c = ((rh mod c * B + l) + rh div c * B * c) div c" by (rule arg_cong)
  also have "\<dots> = rh div c * B + (rh mod c * B + l) div c" using assms by (intro div_mult_self1) simp
  finally show ?thesis .
qed

lemma unat_less32: "unat (w :: u32) < 2 ^ 32"
  using unsigned_less [of w] by simp

lemma unat_less64: "unat (w :: u64) < 2 ^ 64"
  using unsigned_less [of w] by simp

lemma unat_ucast32: "unat (ucast (w :: u32) :: u64) = unat w"
  using unat_less32 [of w] by (simp add: unsigned_ucast_eq take_bit_eq_mod)

lemma unat_low32: "unat (ucast (w :: u64) :: u32) = unat w mod 2 ^ 32"
  by (simp add: unsigned_ucast_eq take_bit_eq_mod)

lemma unat_mult64: "unat v * unat w < 2 ^ 64 \<Longrightarrow> unat (v * w :: u64) = unat v * unat w"
  by (simp add: unat_word_ariths)

lemma unat_add64: "unat v + unat w < 2 ^ 64 \<Longrightarrow> unat (v + w :: u64) = unat v + unat w"
  by (simp add: unat_word_ariths)

lemma unat_high32: "unat (drop_bit 32 (w :: u64)) = unat w div 2 ^ 32"
  unfolding unat_drop_bit_eq by (rule drop_bit_eq_div)

lemma unat_shift32: "unat w < 2 ^ 32 \<Longrightarrow> unat (push_bit 32 (w :: u64)) = unat w * 2 ^ 32"
  by (simp add: push_bit_eq_mult unat_word_ariths)

lemma unat_and32: "unat ((w :: u64) AND 0xffffffff) = unat w mod 2 ^ 32"
proof -
  have "w AND 0xffffffff = take_bit 32 w" by (simp add: take_bit_eq_mask mask_eq_exp_minus_1)
  then have "unat (w AND 0xffffffff) = take_bit 32 (unat w)" by (simp add: unsigned_take_bit_eq)
  then show ?thesis unfolding take_bit_eq_mod .
qed

lemma unat_join32:
  fixes h l :: u32
  shows "unat (push_bit 32 (ucast h) OR ucast l :: u64) = unat h * 2 ^ 32 + unat l"
proof -
  have "push_bit 32 (ucast h) OR ucast l = (push_bit 32 (ucast h) + ucast l :: u64)"
    by (rule disjunctive_add [symmetric]) (auto simp: bit_simps dest: bit_imp_le_length)
  moreover have "unat (push_bit 32 (ucast h) :: u64) = unat h * 2 ^ 32"
    using unat_less32 [of h] by (simp add: unat_shift32 unat_ucast32)
  ultimately show ?thesis using unat_less32 [of h] unat_less32 [of l]
    by (simp add: unat_word_ariths unat_ucast32)
qed

lemma product_digits:
  fixes A b :: nat
  assumes "A < 2 ^ 64" "b < 2 ^ 32" and "rl = A mod 2 ^ 32 * b" and "rh = A div 2 ^ 32 * b + rl div 2 ^ 32"
  shows "rl < 2 ^ 64" and "A div 2 ^ 32 * b < 2 ^ 64" and "rh < 2 ^ 64"
    and "A * b = rh * 2 ^ 32 + rl mod 2 ^ 32"
proof -
  have d: "A mod 2 ^ 32 \<le> 2 ^ 32 - 1" "A div 2 ^ 32 \<le> 2 ^ 32 - 1" "b \<le> 2 ^ 32 - 1"
    using assms(1,2) by auto
  have rl: "rl \<le> (2 ^ 32 - 1) * (2 ^ 32 - 1)" unfolding assms(3) using d by (intro mult_le_mono)
  moreover have hb: "A div 2 ^ 32 * b \<le> (2 ^ 32 - 1) * (2 ^ 32 - 1)" using d by (intro mult_le_mono)
  ultimately show "rl < 2 ^ 64" "A div 2 ^ 32 * b < 2 ^ 64" "rh < 2 ^ 64"
    by (simp_all add: assms(4))
  have "A * b = A div 2 ^ 32 * 2 ^ 32 * b + A mod 2 ^ 32 * b" by (metis distrib_right div_mult_mod_eq)
  then have "A * b = A div 2 ^ 32 * b * 2 ^ 32 + rl" unfolding assms(3) by (metis mult.assoc mult.commute)
  then show "A * b = rh * 2 ^ 32 + rl mod 2 ^ 32" by (simp add: assms(4) distrib_right)
qed

lemma remainder_digits:
  fixes c l rh :: nat
  assumes "0 < c" "l < 2 ^ 32"
  shows "rh mod c * 2 ^ 32 + l < c * 2 ^ 32"
proof -
  have "Suc (rh mod c) * 2 ^ 32 \<le> c * 2 ^ 32"
    using assms by (intro mult_le_mono) (auto simp: Suc_leI)
  then show ?thesis using assms(2) unfolding mult_Suc by linarith
qed

lemma unat_muldiv64:
  assumes "c \<noteq> 0" and "unat a * unat b div unat c < 2 ^ 64"
  shows "unat (muldiv64 a b c) = unat a * unat b div unat c"
proof -
  define l :: u64 where "l = ucast (ucast a :: u32) * ucast b"
  define h where "h = drop_bit 32 a * ucast b + drop_bit 32 l"
  define m where "m = push_bit 32 (h mod ucast c) + (l AND 0xffffffff)"
  define rl rh where "rl = unat a mod 2 ^ 32 * unat b" and "rh = unat a div 2 ^ 32 * unat b + rl div 2 ^ 32"
  note dig = product_digits [OF unat_less64 unat_less32 rl_def rh_def]
  have c: "0 < unat c" using assms(1) by (simp add: unat_gt_0)
  have rem: "rh mod unat c * 2 ^ 32 + rl mod 2 ^ 32 < unat c * 2 ^ 32"
    by (rule remainder_digits [OF c]) simp
  have quot: "unat a * unat b div unat c =
      rh div unat c * 2 ^ 32 + (rh mod unat c * 2 ^ 32 + rl mod 2 ^ 32) div unat c"
    unfolding dig(4) by (rule two_digit_div [OF c])
  have lo: "(rh mod unat c * 2 ^ 32 + rl mod 2 ^ 32) div unat c < 2 ^ 32"
    using rem by (simp add: less_mult_imp_div_less mult.commute)
  have hi: "rh div unat c < 2 ^ 32" using assms(2) quot by simp
  have l: "unat l = rl"
    unfolding l_def using dig(1) by (subst unat_mult64) (simp_all add: unat_ucast32 unat_low32 rl_def)
  have "unat (drop_bit 32 a * ucast b) = unat a div 2 ^ 32 * unat b"
    using dig(2) by (subst unat_mult64) (simp_all only: unat_ucast32 unat_high32)
  then have h: "unat h = rh"
    unfolding h_def using dig(3) by (subst unat_add64) (simp_all only: unat_high32 l rh_def)
  have hc: "unat (h mod ucast c) = rh mod unat c" by (simp only: unat_mod unat_ucast32 h)
  have "rh mod unat c < 2 ^ 32" using c unat_less32 [of c] mod_less_divisor [OF c, of rh] by linarith
  then have "unat (push_bit 32 (h mod ucast c)) = rh mod unat c * 2 ^ 32"
    using hc by (simp only: unat_shift32)
  moreover have "rh mod unat c * 2 ^ 32 + rl mod 2 ^ 32 < 2 ^ 64" using rem unat_less32 [of c] by simp
  ultimately have "unat m = rh mod unat c * 2 ^ 32 + rl mod 2 ^ 32"
    unfolding m_def by (subst unat_add64) (simp_all only: unat_and32 l)
  then have "unat (ucast (m div ucast c) :: u32) = (rh mod unat c * 2 ^ 32 + rl mod 2 ^ 32) div unat c"
    using lo by (simp only: unat_low32 unat_div unat_ucast32 mod_less)
  moreover have "unat (ucast (h div ucast c) :: u32) = rh div unat c"
    using hi by (simp only: unat_low32 unat_div unat_ucast32 h mod_less)
  moreover have "muldiv64 a b c =
      push_bit 32 (ucast (ucast (h div ucast c) :: u32)) OR ucast (ucast (m div ucast c) :: u32)"
    unfolding muldiv64_def Let_def m_def h_def l_def by (rule refl)
  ultimately show ?thesis unfolding quot by (simp only: unat_join32)
qed

text \<open>
  Remark (bounds). \<open>muldiv64\<close> is exact: whenever the divisor is not zero and the quotient
  \<open>a * b / c\<close> of the mathematical integers fits in 64 bits, it is what the function returns, although
  the product may need 96 bits.
\<close>

theorem muldiv64_exact:
  assumes "c \<noteq> 0" and "unat a * unat b div unat c < 2 ^ 64"
  shows "unat (muldiv64 a b c) = unat a * unat b div unat c"
  using assms by (rule unat_muldiv64)

theorem muldiv64_exact_witness:
  "unat (muldiv64 0x1234567890abcdef 1000000000 999999999) =
     unat (0x1234567890abcdef :: u64) * unat (1000000000 :: u32) div unat (999999999 :: u32)"
  by (rule muldiv64_exact) simp_all

text \<open>
  A well-behaved callback rearms timers only after \<open>now\<close>. Then one pass of the loop leaves one
  expired timer fewer.
\<close>

definition expired :: "int \<Rightarrow> timers \<Rightarrow> nat set" where
  "expired now ts = {t. \<exists>e. (t, e) \<in> set ts \<and> e \<le> now}"

definition late_callback :: "(nat \<Rightarrow> timers \<times> 'm \<Rightarrow> timers \<times> 'm) \<Rightarrow> int \<Rightarrow> bool" where
  "late_callback cb now \<longleftrightarrow>
     (\<forall>t ts m ts' m'. timers_wf ts \<longrightarrow> cb t (ts, m) = (ts', m') \<longrightarrow>
        timers_wf ts' \<and> (\<forall>(u, e) \<in> set ts'. e > now \<or> (u, e) \<in> set ts))"

lemma finite_expired [simp]: "finite (expired now ts)"
proof -
  have "expired now ts \<subseteq> fst ` set ts" by (force simp: expired_def)
  then show ?thesis by (rule finite_subset) simp
qed

text \<open>
  Property C27 (termination). With callbacks that rearm timers only for later than \<open>now\<close>,
  \<open>qemu_run_timers\<close> returns; afterwards no pending timer has expired, the list is well formed, and
  only timers that had expired were fired.
\<close>

theorem run_timers_terminates:
  assumes "late_callback cb now" and "timers_wf ts"
  shows "\<exists>ts' m' fired. qemu_run_timers cb now ts m [] = Some (ts', m', fired) \<and>
    timers_wf ts' \<and> (\<forall>(t, e) \<in> set ts'. e > now) \<and> set fired \<subseteq> expired now ts"
proof -
  have "\<exists>ts' m' f'. qemu_run_timers cb now ts m f = Some (ts', m', f @ f') \<and>
      timers_wf ts' \<and> (\<forall>(t, e) \<in> set ts'. e > now) \<and> set f' \<subseteq> expired now ts"
    if "timers_wf ts" for ts m f
    using that
  proof (induction "card (expired now ts)" arbitrary: ts m f rule: less_induct)
    case less
    show ?case
    proof (cases "\<exists>t e rest. ts = (t, e) # rest \<and> e \<le> now")
      case False
      then have "\<forall>(u, e) \<in> set ts. e > now"
        using less.prems by (cases ts) (force simp: timers_wf_def)+
      then show ?thesis using False less.prems
        by (subst qemu_run_timers.simps) (auto split: list.splits)
    next
      case True
      then obtain t e rest where ts: "ts = (t, e) # rest" "e \<le> now" by blast
      obtain ts1 m1 where cb: "cb t (rest, m) = (ts1, m1)" by fastforce
      have rest: "timers_wf rest" using less.prems ts by (simp add: timers_wf_def)
      then have ts1: "timers_wf ts1" "\<And>u x. (u, x) \<in> set ts1 \<Longrightarrow> x > now \<or> (u, x) \<in> set rest"
        using assms(1) cb unfolding late_callback_def by blast+
      have sub: "expired now ts1 \<subseteq> expired now rest" using ts1(2) by (force simp: expired_def)
      have "t \<in> expired now ts" "t \<notin> expired now rest" "expired now rest \<subseteq> expired now ts"
        using ts less.prems by (auto simp: expired_def timers_wf_def image_iff)
      then have less_rest: "expired now rest \<subset> expired now ts" by blast
      with sub have "card (expired now ts1) < card (expired now ts)"
        by (intro psubset_card_mono) (simp, blast)
      from less.hyps [OF this ts1(1), of m1 "f @ [t]"]
      obtain ts' m' f' where r: "qemu_run_timers cb now ts1 m1 (f @ [t]) = Some (ts', m', (f @ [t]) @ f')"
        "timers_wf ts'" "\<forall>(t, e) \<in> set ts'. e > now" "set f' \<subseteq> expired now ts1" by blast
      have "qemu_run_timers cb now ts m f = Some (ts', m', f @ (t # f'))"
        using ts cb r(1) by (subst qemu_run_timers.simps) simp
      moreover have "set (t # f') \<subseteq> expired now ts"
        using r(4) sub less_rest \<open>t \<in> expired now ts\<close> by auto
      ultimately show ?thesis using r(2,3) by blast
    qed
  qed
  from this [OF assms(2), of m "[]"] show ?thesis by simp
qed

theorem run_timers_terminates_witness:
  "\<exists>ts' m' fired. qemu_run_timers (\<lambda>t (ts, m). (qemu_mod_timer ts t 100, m + 1)) 15 [(1, 10), (2, 20)] (0 :: nat) [] =
     Some (ts', m', fired) \<and> timers_wf ts' \<and> (\<forall>(t, e) \<in> set ts'. e > 15) \<and>
     set fired \<subseteq> expired 15 [(1, 10), (2, 20)]"
proof (rule run_timers_terminates)
  show "late_callback (\<lambda>t (ts, m). (qemu_mod_timer ts t 100, m + 1 :: nat)) 15"
    by (auto simp: late_callback_def timers_wf_mod set_mod_timer)
  show "timers_wf [(1, 10), (2, 20)]" by (simp add: timers_wf_def)
qed

end
