(* ===== verification/Goldfish_Timer.thy ===== *)
theory Goldfish_Timer
  imports Goldfish_Bus Qemu_Timer Savevm
begin

unbundle bit_operations_syntax

text \<open>
  The timer and real-time clock devices (\<open>hw/goldfish_timer.c\<close>). The values of the clocks are
  arguments: \<open>clk\<close> is \<open>qemu_get_clock(vm_clock)\<close> and \<open>secs\<close> is \<open>time(NULL)\<close>, both as the 64-bit
  patterns of the C \<open>int64_t\<close>. Handlers return the state and the effects on the interrupt line and on
  the host timer; \<open>pending_after\<close> is the host timer those effects leave.
\<close>

section \<open>State and operations\<close>

text \<open>\<open>alarm_high\<close> is an \<open>int32_t\<close> and \<open>now\<close> an \<open>int64_t\<close>, kept as bit patterns.\<close>

record timer_state =
  alarm_low :: u32
  alarm_high :: u32
  tm_now :: u64
  armed :: int

definition TIMER_TIME_LOW :: u32 where "TIMER_TIME_LOW = 0x00"
definition TIMER_TIME_HIGH :: u32 where "TIMER_TIME_HIGH = 0x04"
definition TIMER_ALARM_LOW :: u32 where "TIMER_ALARM_LOW = 0x08"
definition TIMER_ALARM_HIGH :: u32 where "TIMER_ALARM_HIGH = 0x0c"
definition TIMER_CLEAR_INTERRUPT :: u32 where "TIMER_CLEAR_INTERRUPT = 0x10"
definition TIMER_CLEAR_ALARM :: u32 where "TIMER_CLEAR_ALARM = 0x14"
definition GOLDFISH_TIMER_SAVE_VERSION :: int where "GOLDFISH_TIMER_SAVE_VERSION = 1"
definition GOLDFISH_RTC_SAVE_VERSION :: int where "GOLDFISH_RTC_SAVE_VERSION = 1"

lemmas timer_regs = TIMER_TIME_LOW_def TIMER_TIME_HIGH_def TIMER_ALARM_LOW_def
  TIMER_ALARM_HIGH_def TIMER_CLEAR_INTERRUPT_def TIMER_CLEAR_ALARM_def

definition get_ticks_per_sec :: u32 where "get_ticks_per_sec = 1000000000"

definition timer_state_init :: timer_state where
  "timer_state_init = \<lparr>alarm_low = 0, alarm_high = 0, tm_now = 0, armed = 0\<rparr>"

text \<open>\<open>s->alarm_low | (int64_t)s->alarm_high << 32\<close>, scaled to ticks.\<close>

definition alarm_reg :: "timer_state \<Rightarrow> u64" where
  "alarm_reg s = ucast (alarm_low s) OR push_bit 32 (scast (alarm_high s))"

definition alarm_ticks :: "timer_state \<Rightarrow> u64" where
  "alarm_ticks s = muldiv64 (alarm_reg s) get_ticks_per_sec 1000000000"

definition goldfish_timer_save :: "timer_state \<Rightarrow> u64 \<Rightarrow> put_op list" where
  "goldfish_timer_save s clk =
     [Put_be64 (tm_now s), Put_byte (word_of_int (armed s))] @
     (if armed s \<noteq> 0 then [Put_be64 (alarm_ticks s - clk)] else [])"

definition goldfish_timer_load ::
  "timer_state \<Rightarrow> u64 \<Rightarrow> byte list \<Rightarrow> int \<Rightarrow> int \<times> timer_state \<times> effect list \<times> byte list" where
  "goldfish_timer_load s clk f version_id =
     (if version_id \<noteq> GOLDFISH_TIMER_SAVE_VERSION then (-1, s, [], f)
      else
        (let (n, f) = qemu_get_be64 f;
             (a, f) = get_byte f;
             s = s\<lparr>tm_now := n, armed := uint a\<rparr>
         in if armed s \<noteq> 0 then
              (let (diff, f) = qemu_get_be64 f;
                   alarm = clk + diff
               in if sint alarm \<le> sint clk then (0, s\<lparr>armed := 0\<rparr>, [Set_irq 0 1], f)
                  else (0, s, [Mod_timer (sint alarm)], f))
            else (0, s, [], f)))"

definition goldfish_timer_read ::
  "timer_state \<Rightarrow> u64 \<Rightarrow> u32 \<Rightarrow> (u32 \<times> timer_state) outcome" where
  "goldfish_timer_read s clk off =
     (if off = TIMER_TIME_LOW then
        (let s = s\<lparr>tm_now := muldiv64 clk 1000000000 get_ticks_per_sec\<rparr>
         in Inr (ucast (tm_now s), s))
      else if off = TIMER_TIME_HIGH then Inr (ucast (signed_drop_bit 32 (tm_now s)), s)
      else Inl Cpu_abort)"

definition goldfish_timer_write ::
  "timer_state \<Rightarrow> u64 \<Rightarrow> u32 \<Rightarrow> u32 \<Rightarrow> (timer_state \<times> effect list) outcome" where
  "goldfish_timer_write s clk off v =
     (if off = TIMER_ALARM_LOW then
        (let s = s\<lparr>alarm_low := v\<rparr>;
             alarm = alarm_ticks s
         in if sint alarm \<le> sint clk then Inr (s, [Set_irq 0 1])
            else Inr (s\<lparr>armed := 1\<rparr>, [Mod_timer (sint alarm)]))
      else if off = TIMER_ALARM_HIGH then Inr (s\<lparr>alarm_high := v\<rparr>, [])
      else if off = TIMER_CLEAR_ALARM then Inr (s\<lparr>armed := 0\<rparr>, [Del_timer, Set_irq 0 0])
      else if off = TIMER_CLEAR_INTERRUPT then Inr (s, [Set_irq 0 0])
      else Inl Cpu_abort)"

definition goldfish_timer_tick :: "timer_state \<Rightarrow> timer_state \<times> effect list" where
  "goldfish_timer_tick s = (s\<lparr>armed := 0\<rparr>, [Set_irq 0 1])"

text \<open>The real-time clock has the same registers but no host timer; its alarm is only stored.\<close>

definition goldfish_rtc_save :: "timer_state \<Rightarrow> put_op list" where
  "goldfish_rtc_save s = [Put_be64 (tm_now s)]"

definition goldfish_rtc_load ::
  "timer_state \<Rightarrow> byte list \<Rightarrow> int \<Rightarrow> int \<times> timer_state \<times> byte list" where
  "goldfish_rtc_load s f version_id =
     (if version_id \<noteq> GOLDFISH_RTC_SAVE_VERSION then (-1, s, f)
      else (let (n, f) = qemu_get_be64 f in (0, s\<lparr>tm_now := n\<rparr>, f)))"

definition goldfish_rtc_read ::
  "timer_state \<Rightarrow> u64 \<Rightarrow> u32 \<Rightarrow> (u32 \<times> timer_state) outcome" where
  "goldfish_rtc_read s secs off =
     (if off = 0x0 then
        (let s = s\<lparr>tm_now := secs * 1000000000\<rparr> in Inr (ucast (tm_now s), s))
      else if off = 0x4 then Inr (ucast (signed_drop_bit 32 (tm_now s)), s)
      else Inl Cpu_abort)"

definition goldfish_rtc_write ::
  "timer_state \<Rightarrow> u32 \<Rightarrow> u32 \<Rightarrow> (timer_state \<times> effect list) outcome" where
  "goldfish_rtc_write s off v =
     (if off = 0x8 then Inr (s\<lparr>alarm_low := v\<rparr>, [])
      else if off = 0xc then Inr (s\<lparr>alarm_high := v\<rparr>, [])
      else if off = 0x10 then Inr (s, [Set_irq 0 0])
      else Inl Cpu_abort)"

section \<open>The device with its host timer\<close>

text \<open>
  The host timer a list of effects leaves pending, and the runs of the device with it: register
  accesses, and the expiry of the pending timer, which \<open>qemu_run_timers\<close> takes off its list before
  the callback.
\<close>

fun pending_after :: "int option \<Rightarrow> effect list \<Rightarrow> int option" where
  "pending_after p [] = p"
| "pending_after p (Mod_timer t # es) = pending_after (Some t) es"
| "pending_after p (Del_timer # es) = pending_after None es"
| "pending_after p (_ # es) = pending_after p es"

datatype timer_op = Tm_read u64 u32 | Tm_write u64 u32 u32 | Tm_expire

fun timer_step :: "timer_state \<times> int option \<times> bool \<Rightarrow> timer_op \<Rightarrow>
    (timer_state \<times> int option \<times> bool) outcome" where
  "timer_step (s, p, l) (Tm_read clk off) =
     map_sum id (\<lambda>(v, s). (s, p, l)) (goldfish_timer_read s clk off)"
| "timer_step (s, p, l) (Tm_write clk off v) =
     map_sum id (\<lambda>(s, es). (s, pending_after p es, line_after l es)) (goldfish_timer_write s clk off v)"
| "timer_step (s, p, l) Tm_expire =
     (if p = None then Inr (s, p, l)
      else (let (s, es) = goldfish_timer_tick s in Inr (s, pending_after None es, line_after l es)))"

fun timer_run :: "timer_state \<times> int option \<times> bool \<Rightarrow> timer_op list \<Rightarrow>
    (timer_state \<times> int option \<times> bool) outcome" where
  "timer_run x [] = Inr x"
| "timer_run x (r # rs) = (case timer_step x r of Inl e \<Rightarrow> Inl e | Inr x \<Rightarrow> timer_run x rs)"

definition timer_wf :: "timer_state \<times> int option \<times> bool \<Rightarrow> bool" where
  "timer_wf x = (case x of (s, p, l) \<Rightarrow> (armed s = 0 \<or> armed s = 1) \<and> (armed s = 1 \<longleftrightarrow> p \<noteq> None))"

lemma timer_step_wf: "timer_wf x \<Longrightarrow> timer_step x r = Inr y \<Longrightarrow> timer_wf y"
  by (induction x r rule: timer_step.induct)
    (auto simp: timer_wf_def goldfish_timer_read_def goldfish_timer_write_def goldfish_timer_tick_def
      Let_def split: if_splits)

lemma timer_run_wf: "timer_wf x \<Longrightarrow> timer_run x rs = Inr y \<Longrightarrow> timer_wf y"
  by (induction x rs rule: timer_run.induct) (auto simp: timer_step_wf split: sum.splits)

lemma muldiv_same [simp]: "muldiv64 a 1000000000 1000000000 = a"
proof -
  have "unat (muldiv64 a 1000000000 1000000000) = unat a * unat (1000000000 :: u32) div unat (1000000000 :: u32)"
    by (rule unat_muldiv64) (simp_all add: unat_less64 [simplified])
  then show ?thesis by (simp add: word_unat_eq_iff)
qed

lemma alarm_ticks_eq: "alarm_ticks s = alarm_reg s"
  by (simp add: alarm_ticks_def get_ticks_per_sec_def)

lemma join_halves: "ucast (ucast w :: u32) OR push_bit 32 (scast (ucast (signed_drop_bit 32 w) :: u32)) = (w :: u64)"
proof (rule bit_word_eqI)
  fix n assume "n < LENGTH(64)"
  then show "bit (ucast (ucast w :: u32) OR push_bit 32 (scast (ucast (signed_drop_bit 32 w) :: u32)) :: u64) n = bit w n"
    by (cases "n < 32") (auto simp: bit_simps)
qed

lemma timer_load_save:
  assumes "armed s = 1"
  shows "goldfish_timer_load t clk'
      (concat (map op_bytes (goldfish_timer_save s clk)) @ r) GOLDFISH_TIMER_SAVE_VERSION =
    (if sint (clk' + (alarm_reg s - clk)) \<le> sint clk'
     then (0, t\<lparr>tm_now := tm_now s, armed := 0\<rparr>, [Set_irq 0 1], r)
     else (0, t\<lparr>tm_now := tm_now s, armed := 1\<rparr>, [Mod_timer (sint (clk' + (alarm_reg s - clk)))], r))"
  using assms
  by (simp add: goldfish_timer_load_def goldfish_timer_save_def alarm_ticks_eq)

section \<open>Properties\<close>



text \<open>
  Remark (functional). Setting an alarm through the two registers, high word first: an alarm
  that is not in the future raises the line at once, a future one leaves the host timer pending at
  exactly the guest's 64-bit time, and when it expires the line goes high and the alarm is disarmed.
\<close>

theorem timer_alarm_fires:
  fixes t :: u64
  shows "timer_run (s, p, l) [Tm_write clk TIMER_ALARM_HIGH (ucast (signed_drop_bit 32 t)),
       Tm_write clk' TIMER_ALARM_LOW (ucast t), Tm_expire] =
     (if sint t \<le> sint clk'
      then timer_run (s\<lparr>alarm_high := ucast (signed_drop_bit 32 t), alarm_low := ucast t\<rparr>, p, True) [Tm_expire]
      else Inr (s\<lparr>alarm_high := ucast (signed_drop_bit 32 t), alarm_low := ucast t, armed := 0\<rparr>, None, True)) \<and>
   timer_run (s, p, l) [Tm_write clk TIMER_ALARM_HIGH (ucast (signed_drop_bit 32 t)),
       Tm_write clk' TIMER_ALARM_LOW (ucast t)] =
     (if sint t \<le> sint clk'
      then Inr (s\<lparr>alarm_high := ucast (signed_drop_bit 32 t), alarm_low := ucast t\<rparr>, p, True)
      else Inr (s\<lparr>alarm_high := ucast (signed_drop_bit 32 t), alarm_low := ucast t, armed := 1\<rparr>,
                Some (sint t), l))"
  by (simp add: goldfish_timer_write_def goldfish_timer_tick_def timer_regs Let_def alarm_ticks_eq
      alarm_reg_def join_halves)

text \<open>
  Remark (functional). Reading the time low word first gives one consistent 64-bit value: the
  high word read later belongs to the moment of the low read, whatever the clock shows by then.
\<close>

theorem timer_read_consistent:
  "\<exists>lo hi s1 s2. goldfish_timer_read s clk TIMER_TIME_LOW = Inr (lo, s1) \<and>
     goldfish_timer_read s1 clk' TIMER_TIME_HIGH = Inr (hi, s2) \<and>
     ucast lo OR push_bit 32 (scast hi) = clk"
  by (simp add: goldfish_timer_read_def timer_regs get_ticks_per_sec_def join_halves Let_def)

text \<open>
  Remark (roundtrip). A snapshot of an armed timer restores the time left to the alarm: loaded
  at any other clock value it sets the host timer that many ticks from then. An alarm due already
  raises the line instead. The sum \<open>clk' + left\<close> is the 64-bit one of the code.
\<close>

theorem timer_snapshot_time_left:
  assumes "armed s = 1" and "left = alarm_reg s - clk"
  shows "goldfish_timer_load t clk'
      (concat (map op_bytes (goldfish_timer_save s clk)) @ r) GOLDFISH_TIMER_SAVE_VERSION =
    (if sint (clk' + left) \<le> sint clk'
     then (0, t\<lparr>tm_now := tm_now s, armed := 0\<rparr>, [Set_irq 0 1], r)
     else (0, t\<lparr>tm_now := tm_now s, armed := 1\<rparr>, [Mod_timer (sint (clk' + left))], r))"
  using timer_load_save [OF assms(1)] assms(2) by simp

theorem timer_snapshot_time_left_witness:
  "goldfish_timer_load timer_state_init 100
      (concat (map op_bytes (goldfish_timer_save (timer_state_init\<lparr>alarm_low := 9, armed := 1\<rparr>) 4)))
      GOLDFISH_TIMER_SAVE_VERSION = (0, timer_state_init\<lparr>armed := 1\<rparr>, [Mod_timer 105], [])"
  using timer_snapshot_time_left [of "timer_state_init\<lparr>alarm_low := 9, armed := 1\<rparr>" 5 4 timer_state_init 100 "[]"]
  by (simp add: timer_state_init_def alarm_reg_def)

text \<open>
  Remark (error). The alarm registers are not part of the snapshot, so a second snapshot loses
  the alarm: a timer armed for time 1000 at clock 0, saved at clock 0, restored at clock 0 on a fresh
  machine, is pending at 1000; saving the restored machine at clock 0 and restoring that raises the
  interrupt at once instead.
\<close>

theorem timer_second_snapshot_loses_alarm:
  "\<exists>s1 s2 s3. goldfish_timer_write timer_state_init 0 TIMER_ALARM_LOW 1000 = Inr (s1, [Mod_timer 1000]) \<and>
     goldfish_timer_load timer_state_init 0 (concat (map op_bytes (goldfish_timer_save s1 0)))
       GOLDFISH_TIMER_SAVE_VERSION = (0, s2, [Mod_timer 1000], []) \<and>
     goldfish_timer_load timer_state_init 0 (concat (map op_bytes (goldfish_timer_save s2 0)))
       GOLDFISH_TIMER_SAVE_VERSION = (0, s3, [Set_irq 0 1], [])"
proof (intro exI conjI)
  let ?s1 = "timer_state_init\<lparr>alarm_low := 1000, armed := 1\<rparr>" and ?s2 = "timer_state_init\<lparr>armed := 1\<rparr>"
  note ev = timer_state_init_def alarm_ticks_eq alarm_reg_def timer_regs Let_def
  show "goldfish_timer_write timer_state_init 0 TIMER_ALARM_LOW 1000 = Inr (?s1, [Mod_timer 1000])"
    by (simp add: goldfish_timer_write_def ev)
  show "goldfish_timer_load timer_state_init 0 (concat (map op_bytes (goldfish_timer_save ?s1 0)))
      GOLDFISH_TIMER_SAVE_VERSION = (0, ?s2, [Mod_timer 1000], [])"
    using timer_load_save [of ?s1 timer_state_init 0 0 "[]"] by (simp add: ev)
  show "goldfish_timer_load timer_state_init 0 (concat (map op_bytes (goldfish_timer_save ?s2 0)))
      GOLDFISH_TIMER_SAVE_VERSION = (0, timer_state_init, [Set_irq 0 1], [])"
    using timer_load_save [of ?s2 timer_state_init 0 0 "[]"] by (simp add: ev)
qed

text \<open>
  Remark (functional). The real-time clock gives a consistent 64-bit number of nanoseconds over
  its two reads, and its snapshot carries the latched value, so that a read of the high word after a
  restore still belongs to the low word read before the snapshot.
\<close>

theorem rtc_read_consistent:
  "\<exists>lo hi s1 s2. goldfish_rtc_read s secs 0 = Inr (lo, s1) \<and>
     goldfish_rtc_load t (concat (map op_bytes (goldfish_rtc_save s1)) @ r) GOLDFISH_RTC_SAVE_VERSION = (0, s2, r) \<and>
     goldfish_rtc_read s2 secs' 4 = Inr (hi, s2) \<and>
     ucast lo OR push_bit 32 (scast hi) = secs * 1000000000"
  by (simp add: goldfish_rtc_read_def goldfish_rtc_save_def goldfish_rtc_load_def join_halves Let_def)

end
