(* ===== verification/Goldfish_Events.thy ===== *)
theory Goldfish_Events
  imports Goldfish_Bus
begin

unbundle bit_operations_syntax

text \<open>
  The input event device (\<open>hw/goldfish_events_device.c\<close>): a ring of 1024 words that holds
  (type, code, value) triples for the guest's input driver, the pages that describe the device, and
  the capability bits it advertises. \<open>qemu_irq_raise\<close> and \<open>qemu_irq_lower\<close> are \<open>Set_irq 0 1\<close> and
  \<open>Set_irq 0 0\<close>. An access outside an array is \<open>Undefined\<close> (\<open>None\<close> in the capability arrays).
\<close>

section \<open>State and operations\<close>

text \<open>An entry of \<open>ev_bits\<close> is the list of its bytes, whose length is its \<open>len\<close> field.\<close>

record events_state =
  ev_page :: int
  ev_queue :: "u32 list"
  ev_first :: u32
  ev_last :: u32
  ev_name :: "byte list"
  ev_bits :: "byte list list"
  abs_info :: "u32 list"

definition MAX_EVENTS :: int where "MAX_EVENTS = 1024"
definition EV_MAX :: int where "EV_MAX = 0x1f"
definition EV_SYN :: u32 where "EV_SYN = 0"
definition EV_KEY :: u32 where "EV_KEY = 1"
definition EV_REL :: u32 where "EV_REL = 2"
definition EV_ABS :: u32 where "EV_ABS = 3"
definition EV_SW :: u32 where "EV_SW = 5"
definition BTN_MOUSE :: u32 where "BTN_MOUSE = 0x110"
definition BTN_TOUCH :: u32 where "BTN_TOUCH = 0x14a"
definition PAGE_NAME :: int where "PAGE_NAME = 0"
definition PAGE_EVBITS :: int where "PAGE_EVBITS = 0x10000"
definition PAGE_ABSDATA :: int where "PAGE_ABSDATA = 0x20003"
definition REG_READ :: int where "REG_READ = 0"
definition REG_SET_PAGE :: int where "REG_SET_PAGE = 0"
definition REG_LEN :: int where "REG_LEN = 4"
definition REG_DATA :: int where "REG_DATA = 8"

lemmas event_regs = PAGE_NAME_def PAGE_EVBITS_def PAGE_ABSDATA_def REG_READ_def REG_SET_PAGE_def
  REG_LEN_def REG_DATA_def EV_MAX_def

text \<open>\<open>(i + 1) & (MAX_EVENTS - 1)\<close>\<close>

definition ev_next :: "u32 \<Rightarrow> u32" where
  "ev_next i = (i + 1) AND 1023"

text \<open>
  \<open>s->events[s->last] = v; s->last = (s->last + 1) & (MAX_EVENTS-1);\<close>
\<close>

definition push_word :: "events_state \<Rightarrow> u32 \<Rightarrow> events_state option" where
  "push_word s v =
     map_option (\<lambda>q. s\<lparr>ev_queue := q, ev_last := ev_next (ev_last s)\<rparr>)
       (wr (ev_queue s) (uint (ev_last s)) v)"

definition enqueue_event ::
  "events_state \<Rightarrow> u32 \<Rightarrow> u32 \<Rightarrow> u32 \<Rightarrow> (events_state \<times> effect list) outcome" where
  "enqueue_event s type code value =
     (let enqueued = int32 (uint (ev_last s) - uint (ev_first s));
          enqueued = (if enqueued < 0 then int32 (enqueued + MAX_EVENTS) else enqueued)
      in if int32 (enqueued + 3) \<ge> MAX_EVENTS - 1 then Inr (s, [])
         else
           (let es = (if ev_first s = ev_last s then [Set_irq 0 1] else [])
            in case Option.bind (push_word s type) (\<lambda>s. Option.bind (push_word s code) (\<lambda>s. push_word s value)) of
                 None \<Rightarrow> Inl Undefined
               | Some s \<Rightarrow> Inr (s, es)))"

definition dequeue_event :: "events_state \<Rightarrow> (u32 \<times> events_state \<times> effect list) outcome" where
  "dequeue_event s =
     (if ev_first s = ev_last s then Inr (0, s, [])
      else case rd (ev_queue s) (uint (ev_first s)) of
             None \<Rightarrow> Inl Undefined
           | Some n \<Rightarrow>
               (let s = s\<lparr>ev_first := ev_next (ev_first s)\<rparr>
                in Inr (n, s, if ev_first s = ev_last s then [Set_irq 0 0] else [])))"

definition get_page_len :: "events_state \<Rightarrow> int outcome" where
  "get_page_len s =
     (let page = ev_page s
      in if page = PAGE_NAME then Inr (int (length (ev_name s)))
         else if page \<ge> PAGE_EVBITS \<and> page \<le> PAGE_EVBITS + EV_MAX then
           (case rd (ev_bits s) (page - PAGE_EVBITS) of
              None \<Rightarrow> Inl Undefined | Some b \<Rightarrow> Inr (int (length b)))
         else if page = PAGE_ABSDATA then Inr (int (length (abs_info s)) * 4)
         else Inr 0)"

text \<open>
  The name is a C string, so reading one past its length gives the terminating zero; the bits and
  the absolute-axis data have nothing there.
\<close>

definition get_page_data :: "events_state \<Rightarrow> int \<Rightarrow> u32 outcome" where
  "get_page_data s off =
     (case get_page_len s of Inl e \<Rightarrow> Inl e
      | Inr page_len \<Rightarrow>
        (let page = ev_page s
         in if off > page_len then Inr 0
            else if page = PAGE_NAME then
              (case rd (ev_name s @ [0]) off of None \<Rightarrow> Inl Undefined | Some c \<Rightarrow> Inr (scast c))
            else if page \<ge> PAGE_EVBITS \<and> page \<le> PAGE_EVBITS + EV_MAX then
              (case Option.bind (rd (ev_bits s) (page - PAGE_EVBITS)) (\<lambda>b. rd b off) of
                 None \<Rightarrow> Inl Undefined | Some b \<Rightarrow> Inr (ucast b))
            else if page = PAGE_ABSDATA then
              (case rd (abs_info s) (off div 4) of None \<Rightarrow> Inl Undefined | Some v \<Rightarrow> Inr v)
            else Inr 0))"

definition events_read :: "events_state \<Rightarrow> u32 \<Rightarrow> (u32 \<times> events_state \<times> effect list) outcome" where
  "events_read s off =
     (let off = sint off
      in if off = REG_READ then dequeue_event s
         else if off = REG_LEN then map_sum id (\<lambda>n. (word_of_int n, s, [])) (get_page_len s)
         else if off \<ge> REG_DATA then map_sum id (\<lambda>v. (v, s, [])) (get_page_data s (off - REG_DATA))
         else Inr (0, s, []))"

definition events_write :: "events_state \<Rightarrow> u32 \<Rightarrow> u32 \<Rightarrow> events_state" where
  "events_write s off val = (if sint off = REG_SET_PAGE then s\<lparr>ev_page := sint val\<rparr> else s)"

definition events_put_keycode :: "events_state \<Rightarrow> u32 \<Rightarrow> (events_state \<times> effect list) outcome" where
  "events_put_keycode s keycode =
     enqueue_event s EV_KEY (keycode AND 0x1ff) (if keycode AND 0x200 \<noteq> 0 then 1 else 0)"

text \<open>A sequence of events put one after the other, as the handlers below do.\<close>

fun put_all :: "events_state \<Rightarrow> (u32 \<times> u32 \<times> u32) list \<Rightarrow> (events_state \<times> effect list) outcome" where
  "put_all s [] = Inr (s, [])"
| "put_all s ((t, c, v) # evs) =
     (case enqueue_event s t c v of Inl e \<Rightarrow> Inl e
      | Inr (s, es) \<Rightarrow> map_sum id (\<lambda>(s, es'). (s, es @ es')) (put_all s evs))"

definition mouse_events :: "u32 \<Rightarrow> u32 \<Rightarrow> u32 \<Rightarrow> u32 \<Rightarrow> (u32 \<times> u32 \<times> u32) list" where
  "mouse_events dx dy dz buttons_state =
     (if dz = 0
      then [(EV_ABS, 0, dx), (EV_ABS, 1, dy), (EV_ABS, 2, dz), (EV_KEY, BTN_TOUCH, buttons_state AND 1)]
      else [(EV_REL, 0, dx), (EV_REL, 1, dy)]) @ [(EV_SYN, 0, 0)]"

definition events_put_mouse ::
  "events_state \<Rightarrow> u32 \<Rightarrow> u32 \<Rightarrow> u32 \<Rightarrow> u32 \<Rightarrow> (events_state \<times> effect list) outcome" where
  "events_put_mouse s dx dy dz buttons_state = put_all s (mouse_events dx dy dz buttons_state)"

definition events_put_generic ::
  "events_state \<Rightarrow> u32 \<Rightarrow> u32 \<Rightarrow> u32 \<Rightarrow> (events_state \<times> effect list) outcome" where
  "events_put_generic s type code value = enqueue_event s type code value"

section \<open>Capability bits\<close>

text \<open>The loop \<open>while (++il < ih) bits[il] = 0xff\<close>.\<close>

function fill_bits :: "byte list \<Rightarrow> nat \<Rightarrow> nat \<Rightarrow> byte list option" where
  "fill_bits bits il ih =
     (if Suc il < ih
      then (case wr bits (int (Suc il)) 0xff of None \<Rightarrow> None | Some bits \<Rightarrow> fill_bits bits (Suc il) ih)
      else Some bits)"
  by auto
termination by (relation "measure (\<lambda>(bits, il, ih). ih - il)") auto

declare fill_bits.simps [simp del]

text \<open>\<open>bits[i] |= m\<close>\<close>

definition or_byte :: "byte list \<Rightarrow> nat \<Rightarrow> byte \<Rightarrow> byte list option" where
  "or_byte bits i m = Option.bind (rd bits (int i)) (\<lambda>b. wr bits (int i) (b OR m))"

text \<open>The \<open>int\<close> arguments are event types and bit numbers, never negative.\<close>

definition events_set_bits :: "events_state \<Rightarrow> nat \<Rightarrow> nat \<Rightarrow> nat \<Rightarrow> events_state option" where
  "events_set_bits s type bitl bith =
     Option.bind (rd (ev_bits s) (int type)) (\<lambda>bits.
       let il = bitl div 8;
           ih = bith div 8;
           bits = (if ih \<ge> length bits then bits @ replicate (ih + 1 - length bits) 0 else bits);
           maskl = push_bit (bitl AND 7) 0xff :: byte;
           maskh = drop_bit (7 - (bith AND 7)) 0xff :: byte
       in map_option (\<lambda>bits. s\<lparr>ev_bits := (ev_bits s)[type := bits]\<rparr>)
            (if il \<ge> ih then or_byte bits ih (maskh AND maskl)
             else Option.bind (or_byte bits il maskl) (\<lambda>bits.
                  Option.bind (fill_bits bits il ih) (\<lambda>bits. or_byte bits ih maskh))))"

definition events_set_bit :: "events_state \<Rightarrow> nat \<Rightarrow> nat \<Rightarrow> events_state option" where
  "events_set_bit s type b = events_set_bits s type b b"

text \<open>The hardware configuration \<open>android_hw\<close>, as far as the device reads it.\<close>

record hw_config =
  hw_dPad :: bool
  hw_trackBall :: bool
  hw_touchScreen :: bool
  hw_camera :: bool
  hw_keyboard :: bool

text \<open>
  The calls of \<open>events_set_bit\<close> and \<open>events_set_bits\<close> in \<open>events_dev_init\<close>, in order, as
  (type, first bit, last bit); the key numbers are those of \<open>android/hw-events.h\<close>.
\<close>

definition init_bits :: "hw_config \<Rightarrow> (nat \<times> nat \<times> nat) list" where
  "init_bits c =
     [(0, 1, 1)] @
     map (\<lambda>k. (1, k, k)) [102, 158, 231, 107, 229, 115, 114, 230, 116, 217] @
     (if hw_dPad c then map (\<lambda>k. (1, k, k)) [108, 103, 105, 106, 232] else []) @
     (if hw_trackBall c then [(1, 0x110, 0x110)] else []) @
     (if hw_touchScreen c then [(1, 0x14a, 0x14a)] else []) @
     (if hw_camera c then [(1, 212, 212)] else []) @
     (if hw_keyboard c then [(1, 1, 0xff), (1, 0x160, 0x1ff)] else []) @
     (if hw_trackBall c then [(0, 2, 2), (2, 0, 1)] else []) @
     (if hw_touchScreen c then [(0, 3, 3), (3, 0, 2)] else []) @
     (if hw_keyboard c then [(0, 5, 5), (5, 0, 0)] else [])"

fun set_all_bits :: "events_state \<Rightarrow> (nat \<times> nat \<times> nat) list \<Rightarrow> events_state option" where
  "set_all_bits s [] = Some s"
| "set_all_bits s ((t, l, h) # bs) = Option.bind (events_set_bits s t l h) (\<lambda>s. set_all_bits s bs)"

definition events_state_zero :: "byte list \<Rightarrow> events_state" where
  "events_state_zero name =
     \<lparr>ev_page = 0, ev_queue = replicate 1024 0, ev_first = 0, ev_last = 0, ev_name = name,
      ev_bits = replicate 32 [], abs_info = []\<rparr>"

definition events_dev_init :: "byte list \<Rightarrow> hw_config \<Rightarrow> events_state option" where
  "events_dev_init keycharmap config =
     map_option (\<lambda>s. s\<lparr>ev_first := 0, ev_last := 0\<rparr>)
       (set_all_bits (events_state_zero keycharmap) (init_bits config))"

section \<open>The queue\<close>

definition events_wf :: "events_state \<Rightarrow> bool" where
  "events_wf s \<longleftrightarrow> length (ev_queue s) = 1024 \<and> unat (ev_first s) < 1024 \<and> unat (ev_last s) < 1024 \<and>
     length (ev_bits s) = 32"

definition events_count :: "events_state \<Rightarrow> nat" where
  "events_count s =
     (if ev_first s \<le> ev_last s then unat (ev_last s) - unat (ev_first s)
      else unat (ev_last s) + 1024 - unat (ev_first s))"

definition events_contents :: "events_state \<Rightarrow> u32 list" where
  "events_contents s = ring (ev_queue s) (unat (ev_first s)) (events_count s)"

lemma unat_ev_next: "unat i < 1024 \<Longrightarrow> unat (ev_next i) = (if unat i = 1023 then 0 else unat i + 1)"
proof -
  assume i: "unat i < 1024"
  have "ev_next i = take_bit 10 (i + 1)"
    by (simp add: ev_next_def take_bit_eq_mask mask_eq_exp_minus_1)
  then have "unat (ev_next i) = take_bit 10 (unat (i + 1))" by (simp only: unsigned_take_bit_eq)
  then have "unat (ev_next i) = unat (i + 1) mod 1024" by (simp add: take_bit_eq_mod)
  then show ?thesis using i by (auto simp: unat_word_ariths mod_if)
qed

lemma uint_less_if_unat: "unat w < n \<Longrightarrow> uint w < int n"
  by (metis of_nat_less_iff of_nat_unat)

lemma count_less: "events_wf s \<Longrightarrow> events_count s < 1024"
  by (auto simp: events_count_def events_wf_def word_le_nat_alt)

lemma length_contents [simp]: "length (events_contents s) = events_count s"
  by (simp add: events_contents_def)

lemma count_0_iff: "events_wf s \<Longrightarrow> events_count s = 0 \<longleftrightarrow> ev_first s = ev_last s"
  by (auto simp: events_count_def events_wf_def word_le_nat_alt word_unat_eq_iff)

lemma contents_Nil_iff: "events_wf s \<Longrightarrow> events_contents s = [] \<longleftrightarrow> ev_first s = ev_last s"
  using count_0_iff by (metis length_0_conv length_contents)

lemma last_eq: "events_wf s \<Longrightarrow> unat (ev_last s) = (unat (ev_first s) + events_count s) mod 1024"
  by (auto simp: events_count_def events_wf_def word_le_nat_alt)

lemma count_push:
  assumes "events_wf s" "events_count s < 1023"
  shows "events_count (s\<lparr>ev_queue := q, ev_last := ev_next (ev_last s)\<rparr>) = Suc (events_count s)"
  using assms unfolding events_count_def events_wf_def
  by (auto simp: unat_ev_next word_le_nat_alt split: if_splits)

lemma count_pop:
  assumes "events_wf s" "events_count s > 0"
  shows "events_count (s\<lparr>ev_first := ev_next (ev_first s)\<rparr>) = events_count s - 1"
  using assms unfolding events_count_def events_wf_def
  by (auto simp: unat_ev_next word_le_nat_alt split: if_splits)

lemma push_word_ok:
  assumes "events_wf s" "events_count s < 1023"
  shows "\<exists>s'. push_word s v = Some s' \<and> events_wf s' \<and> events_count s' = Suc (events_count s) \<and>
    events_contents s' = events_contents s @ [v]"
proof -
  let ?q = "(ev_queue s)[unat (ev_last s) := v]"
  let ?s = "s\<lparr>ev_queue := ?q, ev_last := ev_next (ev_last s)\<rparr>"
  have r: "unat (ev_last s) < 1024" "length (ev_queue s) = 1024" using assms by (simp_all add: events_wf_def)
  then have "push_word s v = Some ?s"
    using uint_less_if_unat [OF r(1)] by (simp add: push_word_def wr_def nat_uint_eq)
  moreover have wf: "events_wf ?s" using assms by (simp add: events_wf_def unat_ev_next)
  moreover have c: "events_count ?s = Suc (events_count s)"
    using assms by (rule count_push)
  moreover have "ring ?q (unat (ev_first s)) (events_count s + 1) =
      ring (ev_queue s) (unat (ev_first s)) (events_count s) @ take 1 [v]"
    by (rule ring_append [where W = "unat (ev_last s)"])
      (use assms last_eq [OF assms(1)] in \<open>auto simp: events_wf_def nth_list_update\<close>)
  ultimately show ?thesis by (simp add: events_contents_def)
qed

text \<open>The abstract queue: a list of at most 1022 words that loses an event it has no room for.\<close>

definition spec_enqueue :: "u32 list \<Rightarrow> u32 list \<Rightarrow> u32 list" where
  "spec_enqueue q ev = (if length q + 3 \<ge> 1023 then q else q @ ev)"

definition spec_dequeue :: "u32 list \<Rightarrow> u32 \<times> u32 list" where
  "spec_dequeue q = (case q of [] \<Rightarrow> (0, []) | x # xs \<Rightarrow> (x, xs))"

lemma enqueued_eq:
  assumes "events_wf s"
  shows "(let e = int32 (uint (ev_last s) - uint (ev_first s))
          in if e < 0 then int32 (e + MAX_EVENTS) else e) = int (events_count s)"
proof -
  have b: "unat (ev_last s) < 1024" "unat (ev_first s) < 1024" using assms by (auto simp: events_wf_def)
  have u: "uint w = int (unat w)" for w :: u32 by simp
  show ?thesis
    using b unfolding u by (auto simp del: of_nat_unat simp: events_count_def MAX_EVENTS_def Let_def word_le_nat_alt)
qed

lemma enqueue_refines:
  assumes wf: "events_wf s"
  shows "\<exists>s' es. enqueue_event s t c v = Inr (s', es) \<and> events_wf s' \<and>
    events_contents s' = spec_enqueue (events_contents s) [t, c, v] \<and>
    line_after (events_contents s \<noteq> []) es = (events_contents s' \<noteq> [])"
proof (cases "events_count s + 3 \<ge> 1023")
  case True
  then have "enqueue_event s t c v = Inr (s, [])"
    using enqueued_eq [OF wf] count_less [OF wf] by (simp add: enqueue_event_def MAX_EVENTS_def Let_def)
  then show ?thesis using True wf by (simp add: spec_enqueue_def)
next
  case False
  obtain s1 where s1: "push_word s t = Some s1" "events_wf s1" "events_count s1 = Suc (events_count s)"
      "events_contents s1 = events_contents s @ [t]" using push_word_ok [OF wf, of t] False by auto
  obtain s2 where s2: "push_word s1 c = Some s2" "events_wf s2" "events_count s2 = Suc (events_count s1)"
      "events_contents s2 = events_contents s1 @ [c]" using push_word_ok [OF s1(2), of c] False s1(3) by auto
  obtain s3 where s3: "push_word s2 v = Some s3" "events_wf s3" "events_count s3 = Suc (events_count s2)"
      "events_contents s3 = events_contents s2 @ [v]" using push_word_ok [OF s2(2), of v] False s1(3) s2(3) by auto
  have "enqueue_event s t c v = Inr (s3, if ev_first s = ev_last s then [Set_irq 0 1] else [])"
    using enqueued_eq [OF wf] False s1 s2 s3 by (simp add: enqueue_event_def MAX_EVENTS_def Let_def)
  moreover note contents_Nil_iff [OF wf]
  ultimately show ?thesis using False s1(4) s2(4) s3 by (simp add: spec_enqueue_def)
qed

lemma enqueue_line:
  assumes "events_wf s" "enqueue_event s t c v = Inr (s', es)"
  shows "events_wf s' \<and> line_after (events_contents s \<noteq> []) es = (events_contents s' \<noteq> [])"
  using enqueue_refines [OF assms(1), of t c v] assms(2) by auto

lemma dequeue_refines:
  assumes wf: "events_wf s"
  shows "\<exists>n s' es. dequeue_event s = Inr (n, s', es) \<and> events_wf s' \<and>
    (n, events_contents s') = spec_dequeue (events_contents s) \<and>
    line_after (events_contents s \<noteq> []) es = (events_contents s' \<noteq> [])"
proof (cases "ev_first s = ev_last s")
  case True
  then have "events_contents s = []" using count_0_iff [OF wf] by (simp add: events_contents_def)
  then show ?thesis using True wf by (simp add: dequeue_event_def spec_dequeue_def)
next
  case False
  let ?s = "s\<lparr>ev_first := ev_next (ev_first s)\<rparr>" and ?R = "unat (ev_first s)"
  have n: "events_count s > 0" using False count_0_iff [OF wf] by simp
  have b: "?R < 1024" "length (ev_queue s) = 1024" using wf by (auto simp: events_wf_def)
  have wf': "events_wf ?s" using wf by (simp add: events_wf_def unat_ev_next)
  have "events_count ?s = events_count s - 1"
    using wf n by (rule count_pop)
  moreover have "unat (ev_next (ev_first s)) = (?R + 1) mod 1024" using b by (simp add: unat_ev_next mod_if)
  ultimately have c: "events_contents ?s = drop 1 (events_contents s)"
    using ring_drop [of 1 "events_count s" "ev_queue s" ?R] n b by (simp add: events_contents_def)
  have h: "events_contents s ! 0 = ev_queue s ! ?R" using n b by (simp add: events_contents_def ring_nth)
  have "dequeue_event s = Inr (ev_queue s ! ?R, ?s, if ev_first ?s = ev_last ?s then [Set_irq 0 0] else [])"
    using False b uint_less_if_unat [OF b(1)] by (simp add: dequeue_event_def rd_def nat_uint_eq Let_def)
  moreover note contents_Nil_iff [OF wf']
  moreover obtain x xs where q: "events_contents s = x # xs"
    using contents_Nil_iff [OF wf] False by (cases "events_contents s") auto
  moreover have "(ev_queue s ! ?R, events_contents ?s) = spec_dequeue (events_contents s)"
    using c h q by (simp add: spec_dequeue_def)
  ultimately show ?thesis using wf' by auto
qed

section \<open>The device as a level-triggered device\<close>

datatype events_op = Ev_mmio mmio | Ev_keycode u32 | Ev_mouse u32 u32 u32 u32 | Ev_generic u32 u32 u32

fun events_step :: "events_state \<Rightarrow> events_op \<Rightarrow> (events_state \<times> effect list) outcome" where
  "events_step s (Ev_mmio (Mmio_read off)) = map_sum id (\<lambda>(v, s, es). (s, es)) (events_read s off)"
| "events_step s (Ev_mmio (Mmio_write off v)) = Inr (events_write s off v, [])"
| "events_step s (Ev_keycode k) = events_put_keycode s k"
| "events_step s (Ev_mouse dx dy dz b) = events_put_mouse s dx dy dz b"
| "events_step s (Ev_generic t c v) = events_put_generic s t c v"

lemma put_all_line:
  "events_wf s \<Longrightarrow> \<exists>s' es. put_all s evs = Inr (s', es) \<and> events_wf s' \<and>
     events_contents s' = foldl (\<lambda>q (t, c, v). spec_enqueue q [t, c, v]) (events_contents s) evs \<and>
     line_after (events_contents s \<noteq> []) es = (events_contents s' \<noteq> [])"
proof (induction evs arbitrary: s)
  case Nil
  then show ?case by simp
next
  case (Cons ev evs)
  obtain t c v where ev: "ev = (t, c, v)" by (cases ev) auto
  obtain s1 es where s1: "enqueue_event s t c v = Inr (s1, es)" "events_wf s1"
      "events_contents s1 = spec_enqueue (events_contents s) [t, c, v]"
      "line_after (events_contents s \<noteq> []) es = (events_contents s1 \<noteq> [])"
    using enqueue_refines [OF Cons.prems] by blast
  from Cons.IH [OF s1(2)] obtain s2 es2 where s2: "put_all s1 evs = Inr (s2, es2)" "events_wf s2"
      "events_contents s2 = foldl (\<lambda>q (t, c, v). spec_enqueue q [t, c, v]) (events_contents s1) evs"
      "line_after (events_contents s1 \<noteq> []) es2 = (events_contents s2 \<noteq> [])" by blast
  then show ?case using ev s1 by (simp add: line_after_append)
qed

lemma events_read_line:
  assumes "events_wf s" "events_read s off = Inr (v, s', es)"
  shows "events_wf s' \<and> line_after (events_contents s \<noteq> []) es = (events_contents s' \<noteq> [])"
proof (cases "sint off = REG_READ")
  case True
  with assms(2) dequeue_refines [OF assms(1)] show ?thesis by (auto simp: events_read_def)
next
  case False
  then have "s' = s" "es = []" using assms(2)
    by (auto simp: events_read_def Let_def map_sum_Inr_iff split: if_splits)
  with assms(1) show ?thesis by simp
qed

lemma events_step_line:
  assumes "events_wf s" "events_step s x = Inr (s', es)"
  shows "events_wf s' \<and> line_after (events_contents s \<noteq> []) es = (events_contents s' \<noteq> [])"
proof (cases "(s, x)" rule: events_step.cases)
  case (1 s off)
  then show ?thesis using assms events_read_line by (auto simp: map_sum_Inr_iff)
next
  case (2 s off v)
  then show ?thesis using assms
    by (cases "sint off = REG_SET_PAGE")
      (auto simp: events_write_def events_wf_def events_contents_def events_count_def)
next
  case (3 s k)
  then show ?thesis using assms enqueue_line by (auto simp: events_put_keycode_def)
next
  case (4 s dx dy dz b)
  then show ?thesis using assms put_all_line [OF assms(1), of "mouse_events dx dy dz b"]
    by (auto simp: events_put_mouse_def)
next
  case (5 s t c v)
  then show ?thesis using assms enqueue_line by (auto simp: events_put_generic_def)
qed

interpretation events_line: level_device events_wf "\<lambda>s. events_contents s \<noteq> []" events_step
  by unfold_locales (use events_step_line in blast)+

section \<open>Capability bits as sets\<close>

definition bs_bit :: "byte list \<Rightarrow> nat \<Rightarrow> bool" where
  "bs_bit bits n \<longleftrightarrow> n div 8 < length bits \<and> bit (bits ! (n div 8)) (n mod 8)"

definition advertises :: "events_state \<Rightarrow> nat \<Rightarrow> nat \<Rightarrow> bool" where
  "advertises s type n \<longleftrightarrow> type < length (ev_bits s) \<and> bs_bit (ev_bits s ! type) n"

lemma fill_bits_ok:
  "ih \<le> length bits \<Longrightarrow> \<exists>b. fill_bits bits il ih = Some b \<and> length b = length bits \<and>
     (\<forall>k. b ! k = (if il < k \<and> k < ih then 0xff else bits ! k))"
proof (induction bits il ih rule: fill_bits.induct)
  case (1 bits il ih)
  show ?case
  proof (cases "Suc il < ih")
    case True
    let ?b = "bits[Suc il := 0xff]"
    have w: "wr bits (int (Suc il)) 0xff = Some ?b"
      using True 1(2) by (simp add: wr_def nat_add_distrib flip: of_nat_Suc)
    then obtain b where b: "fill_bits ?b (Suc il) ih = Some b" "length b = length bits"
        "\<forall>k. b ! k = (if Suc il < k \<and> k < ih then 0xff else ?b ! k)"
      using 1(1) [OF True w] 1(2) by auto
    moreover have "fill_bits bits il ih = Some b"
      using True w b(1) by (subst fill_bits.simps) simp
    moreover have "b ! k = (if il < k \<and> k < ih then 0xff else bits ! k)" for k
      using b(3) True 1(2) by (cases "k = Suc il") (auto simp: nth_list_update)
    ultimately show ?thesis by auto
  next
    case False
    then show ?thesis by (subst fill_bits.simps) auto
  qed
qed

lemma or_byte_ok: "i < length bits \<Longrightarrow> or_byte bits i m = Some (bits[i := bits ! i OR m])"
  by (simp add: or_byte_def rd_def wr_def)

lemma byte_ff: "(0xff :: byte) = - 1"
  by simp

lemma byte_ones: "bit (0xff :: byte) j \<longleftrightarrow> j < 8"
  unfolding byte_ff by simp

lemma maskl_bit: "bit (push_bit k 0xff :: byte) j \<longleftrightarrow> k \<le> j \<and> j < 8"
  unfolding byte_ff by (auto simp: bit_simps)

lemma maskh_bit: "k < 8 \<Longrightarrow> bit (drop_bit (7 - k) 0xff :: byte) j \<longleftrightarrow> j \<le> k"
  unfolding byte_ff by (auto simp: bit_simps)

lemma and_7: "(n::nat) AND 7 = n mod 8"
  using take_bit_eq_mask [of 3 n] by (simp add: take_bit_eq_mod mask_eq_exp_minus_1)

lemma same_byte_le: "(a::nat) div 8 = b div 8 \<Longrightarrow> a \<le> b \<longleftrightarrow> a mod 8 \<le> b mod 8"
  by (metis add_le_cancel_left div_mult_mod_eq)

lemma less_byte_le: "(a::nat) div 8 < b div 8 \<Longrightarrow> a < b"
  by (meson div_le_mono leD leI)

text \<open>The bytes after the mask writes of \<open>events_set_bits\<close>.\<close>

lemma range_bits:
  assumes "L \<le> H" "H div 8 < length bits"
  defines "maskl \<equiv> push_bit (L mod 8) 0xff :: byte" and "maskh \<equiv> drop_bit (7 - H mod 8) 0xff :: byte"
  shows "\<exists>b. (if L div 8 \<ge> H div 8 then or_byte bits (H div 8) (maskh AND maskl)
             else Option.bind (or_byte bits (L div 8) maskl) (\<lambda>bits.
                  Option.bind (fill_bits bits (L div 8) (H div 8)) (\<lambda>bits. or_byte bits (H div 8) maskh))) = Some b \<and>
    (\<forall>n. bs_bit b n \<longleftrightarrow> bs_bit bits n \<or> L \<le> n \<and> n \<le> H)"
proof (cases "L div 8 \<ge> H div 8")
  case True
  then have eq: "L div 8 = H div 8" using assms(1) by (simp add: div_le_mono order_antisym)
  have "bs_bit (bits[H div 8 := bits ! (H div 8) OR (maskh AND maskl)]) n \<longleftrightarrow> bs_bit bits n \<or> L \<le> n \<and> n \<le> H" for n
  proof (cases "n div 8 = H div 8")
    case True
    then have "L \<le> n \<longleftrightarrow> L mod 8 \<le> n mod 8" "n \<le> H \<longleftrightarrow> n mod 8 \<le> H mod 8"
      using eq by (metis same_byte_le True)+
    moreover have "H mod 8 < 8" by simp
    then have "bit (maskh AND maskl) j \<longleftrightarrow> L mod 8 \<le> j \<and> j \<le> H mod 8" for j
      unfolding maskl_def maskh_def bit_and_iff maskl_bit maskh_bit [OF \<open>H mod 8 < 8\<close>]
      by (auto intro: le_less_trans)
    ultimately show ?thesis using assms(2) True by (auto simp: bs_bit_def bit_or_iff)
  next
    case False
    then have "\<not> (L \<le> n \<and> n \<le> H)" using eq by (metis div_le_mono order_antisym)
    then show ?thesis using False by (auto simp: bs_bit_def)
  qed
  then show ?thesis using True assms(2) by (simp add: or_byte_ok)
next
  case False
  let ?b1 = "bits[L div 8 := bits ! (L div 8) OR maskl]"
  have lt: "L div 8 < H div 8" "L div 8 < length bits" using False assms(2) by auto
  obtain b2 where b2: "fill_bits ?b1 (L div 8) (H div 8) = Some b2" "length b2 = length bits"
      "\<forall>k. b2 ! k = (if L div 8 < k \<and> k < H div 8 then 0xff else ?b1 ! k)"
    using fill_bits_ok [of "H div 8" ?b1 "L div 8"] assms(2) by auto
  have "bs_bit (b2[H div 8 := b2 ! (H div 8) OR maskh]) n \<longleftrightarrow> bs_bit bits n \<or> L \<le> n \<and> n \<le> H" for n
  proof -
    consider "n div 8 < L div 8" | "n div 8 = L div 8" | "L div 8 < n div 8" "n div 8 < H div 8"
      | "n div 8 = H div 8" | "H div 8 < n div 8" by linarith
    then show ?thesis
    proof cases
      case 1
      then have "\<not> L \<le> n" using less_byte_le [of n L] by simp
      then show ?thesis using 1 lt b2 by (auto simp: bs_bit_def)
    next
      case 2
      have "n \<le> H" using 2 lt(1) less_byte_le [of n H] by simp
      moreover have "L \<le> n \<longleftrightarrow> L mod 8 \<le> n mod 8" by (rule same_byte_le) (simp add: 2)
      moreover have "b2 ! (n div 8) = bits ! (n div 8) OR maskl" using 2 lt b2(3) by simp
      ultimately show ?thesis using 2 lt b2(2) by (simp add: bs_bit_def bit_or_iff maskl_def maskl_bit)
    next
      case 3
      then have "L \<le> n" "n \<le> H" using less_byte_le [of L n] less_byte_le [of n H] by simp_all
      moreover have "b2 ! (n div 8) = - 1" using 3 b2(3) byte_ff by simp
      ultimately show ?thesis using 3 b2(2) assms(2) by (simp add: bs_bit_def)
    next
      case 4
      have "L \<le> n" using 4 lt(1) less_byte_le [of L n] by simp
      moreover have "n \<le> H \<longleftrightarrow> n mod 8 \<le> H mod 8" by (rule same_byte_le) (simp add: 4)
      moreover have "b2 ! (n div 8) = bits ! (n div 8)" using 4 lt b2(3) by simp
      ultimately show ?thesis using 4 b2(2) assms(2) by (simp add: bs_bit_def bit_or_iff maskh_def maskh_bit)
    next
      case 5
      then have "\<not> n \<le> H" using less_byte_le [of H n] by simp
      then show ?thesis using 5 lt b2 by (auto simp: bs_bit_def)
    qed
  qed
  then show ?thesis using False lt b2 assms(2) by (simp add: or_byte_ok)
qed

lemma bs_bit_extend: "bs_bit (bits @ replicate k 0) n = bs_bit bits n"
  by (auto simp: bs_bit_def nth_append)

lemma set_bits_ok:
  assumes "events_wf s" "t < 32" "L \<le> H"
  shows "\<exists>b. events_set_bits s t L H = Some (s\<lparr>ev_bits := (ev_bits s)[t := b]\<rparr>) \<and>
    (\<forall>n. bs_bit b n \<longleftrightarrow> bs_bit (ev_bits s ! t) n \<or> L \<le> n \<and> n \<le> H)"
proof -
  define bits where "bits = ev_bits s ! t"
  define bits' where "bits' = (if H div 8 \<ge> length bits then bits @ replicate (H div 8 + 1 - length bits) 0 else bits)"
  have r: "rd (ev_bits s) (int t) = Some bits" using assms by (simp add: rd_def events_wf_def bits_def)
  have "H div 8 < length bits'" by (auto simp: bits'_def)
  from range_bits [OF assms(3) this] obtain b where b:
    "(if L div 8 \<ge> H div 8 then or_byte bits' (H div 8) (drop_bit (7 - H mod 8) 0xff AND push_bit (L mod 8) 0xff)
      else Option.bind (or_byte bits' (L div 8) (push_bit (L mod 8) 0xff)) (\<lambda>bits.
           Option.bind (fill_bits bits (L div 8) (H div 8)) (\<lambda>bits. or_byte bits (H div 8) (drop_bit (7 - H mod 8) 0xff)))) = Some b"
    "\<forall>n. bs_bit b n \<longleftrightarrow> bs_bit bits' n \<or> L \<le> n \<and> n \<le> H" by blast
  have "events_set_bits s t L H = Some (s\<lparr>ev_bits := (ev_bits s)[t := b]\<rparr>)"
    unfolding events_set_bits_def Let_def r Option.bind.simps and_7 bits'_def [symmetric] b(1) by simp
  moreover have "bs_bit bits' n = bs_bit (ev_bits s ! t) n" for n
    by (simp add: bits'_def bs_bit_extend bits_def)
  ultimately show ?thesis using b(2) by blast
qed

lemma set_all_bits_ok:
  assumes "events_wf s" "\<forall>(t, l, h) \<in> set bs. t < 32 \<and> l \<le> h"
  shows "\<exists>s'. set_all_bits s bs = Some s' \<and> events_wf s' \<and> events_contents s' = events_contents s \<and>
    (\<forall>t n. advertises s' t n \<longleftrightarrow> advertises s t n \<or> (\<exists>(u, l, h) \<in> set bs. u = t \<and> l \<le> n \<and> n \<le> h))"
  using assms
proof (induction bs arbitrary: s)
  case Nil
  then show ?case by simp
next
  case (Cons e bs)
  obtain t l h where e: "e = (t, l, h)" by (cases e) auto
  obtain b where b: "events_set_bits s t l h = Some (s\<lparr>ev_bits := (ev_bits s)[t := b]\<rparr>)"
      "\<forall>n. bs_bit b n \<longleftrightarrow> bs_bit (ev_bits s ! t) n \<or> l \<le> n \<and> n \<le> h"
    using set_bits_ok [of s t l h] Cons.prems e by auto
  let ?s = "s\<lparr>ev_bits := (ev_bits s)[t := b]\<rparr>"
  have wf: "events_wf ?s" "events_contents ?s = events_contents s"
    using Cons.prems(1) by (simp_all add: events_wf_def events_contents_def events_count_def)
  have adv: "advertises ?s u n \<longleftrightarrow> advertises s u n \<or> u = t \<and> l \<le> n \<and> n \<le> h" for u n
    using b(2) Cons.prems e by (auto simp: advertises_def events_wf_def nth_list_update)
  from Cons.IH [OF wf(1)] Cons.prems(2) obtain s' where s': "set_all_bits ?s bs = Some s'" "events_wf s'"
      "events_contents s' = events_contents ?s"
      "\<forall>t n. advertises s' t n \<longleftrightarrow> advertises ?s t n \<or> (\<exists>(u, l, h) \<in> set bs. u = t \<and> l \<le> n \<and> n \<le> h)"
    by auto
  then show ?case using e b(1) wf adv by (auto simp: split_beta)
qed

lemma zero_wf: "events_wf (events_state_zero kc)" "events_contents (events_state_zero kc) = []"
  by (simp_all add: events_state_zero_def events_wf_def events_contents_def events_count_def)

lemma zero_advertises: "\<not> advertises (events_state_zero kc) t n"
  by (auto simp: events_state_zero_def advertises_def bs_bit_def)

lemma dev_init_ok:
  "\<exists>s. events_dev_init kc c = Some s \<and> events_wf s \<and> events_contents s = [] \<and>
     (\<forall>t n. advertises s t n \<longleftrightarrow> (\<exists>(u, l, h) \<in> set (init_bits c). u = t \<and> l \<le> n \<and> n \<le> h))"
proof -
  have ib: "\<forall>(t, l, h) \<in> set (init_bits c). t < 32 \<and> l \<le> h" by (auto simp: init_bits_def)
  from set_all_bits_ok [OF zero_wf(1) ib, of kc]
  obtain s where s: "set_all_bits (events_state_zero kc) (init_bits c) = Some s" "events_wf s"
      "\<forall>t n. advertises s t n \<longleftrightarrow> advertises (events_state_zero kc) t n \<or>
         (\<exists>(u, l, h) \<in> set (init_bits c). u = t \<and> l \<le> n \<and> n \<le> h)" by (elim exE conjE) rule
  let ?s = "s\<lparr>ev_first := 0, ev_last := 0\<rparr>"
  have "events_wf ?s" "events_contents ?s = []" "advertises ?s t n = advertises s t n" for t n
    using s(2) by (simp_all add: events_wf_def events_contents_def events_count_def advertises_def)
  then show ?thesis using s by (simp add: events_dev_init_def zero_advertises)
qed

text \<open>What \<open>init_bits\<close> covers, as a formula over the configuration.\<close>

lemma bex_append: "(\<exists>x \<in> set (xs @ ys). P x) \<longleftrightarrow> (\<exists>x \<in> set xs. P x) \<or> (\<exists>x \<in> set ys. P x)"
  by auto

lemma bex_if: "(\<exists>x \<in> set (if b then xs else []). P x) \<longleftrightarrow> b \<and> (\<exists>x \<in> set xs. P x)"
  by auto

lemma point_range: "(k::nat) \<le> n \<and> n \<le> k \<longleftrightarrow> n = k"
  by auto

section \<open>Properties\<close>

text \<open>A session of the queue: events put by the host and words read by the guest.\<close>

datatype queue_op = Q_put u32 u32 u32 | Q_get

fun queue_run :: "events_state \<Rightarrow> queue_op list \<Rightarrow> (u32 list \<times> events_state) outcome" where
  "queue_run s [] = Inr ([], s)"
| "queue_run s (Q_put t c v # xs) =
     (case enqueue_event s t c v of Inl e \<Rightarrow> Inl e | Inr (s, es) \<Rightarrow> queue_run s xs)"
| "queue_run s (Q_get # xs) =
     (case dequeue_event s of Inl e \<Rightarrow> Inl e
      | Inr (n, s, es) \<Rightarrow> map_sum id (\<lambda>(ws, s). (n # ws, s)) (queue_run s xs))"

fun spec_run :: "u32 list \<Rightarrow> queue_op list \<Rightarrow> u32 list \<times> u32 list" where
  "spec_run q [] = ([], q)"
| "spec_run q (Q_put t c v # xs) = spec_run (spec_enqueue q [t, c, v]) xs"
| "spec_run q (Q_get # xs) =
     (let (n, q) = spec_dequeue q; (ws, q) = spec_run q xs in (n # ws, q))"

lemma queue_run_refines:
  "events_wf s \<Longrightarrow> \<exists>ws s'. queue_run s xs = Inr (ws, s') \<and> (ws, events_contents s') = spec_run (events_contents s) xs"
proof (induction xs arbitrary: s)
  case Nil
  then show ?case by simp
next
  case (Cons x xs)
  show ?case
  proof (cases x)
    case (Q_put t c v)
    obtain s1 es where "enqueue_event s t c v = Inr (s1, es)" "events_wf s1"
        "events_contents s1 = spec_enqueue (events_contents s) [t, c, v]"
      using enqueue_refines [OF Cons.prems] by blast
    then show ?thesis using Q_put Cons.IH [of s1] by simp
  next
    case Q_get
    obtain n s1 es where s1: "dequeue_event s = Inr (n, s1, es)" "events_wf s1"
        "(n, events_contents s1) = spec_dequeue (events_contents s)"
      using dequeue_refines [OF Cons.prems] by blast
    obtain ws s2 where "queue_run s1 xs = Inr (ws, s2)" "(ws, events_contents s2) = spec_run (events_contents s1) xs"
      using Cons.IH [OF s1(2)] by blast
    then show ?thesis using Q_get s1 by (auto simp: Let_def split: prod.splits)
  qed
qed

text \<open>
  Property C22 (refinement). The event ring implements a bounded queue: after initialisation, any
  sequence of events from the host and reads by the guest stays inside the array and returns exactly
  what a list-valued queue returns that drops an event when fewer than three words of room are left.
\<close>

theorem events_queue_refines:
  "\<exists>s ws s'. events_dev_init kc c = Some s \<and> queue_run s xs = Inr (ws, s') \<and>
     (ws, events_contents s') = spec_run [] xs"
  using dev_init_ok [of kc c] queue_run_refines by metis

text \<open>
  Remark (invariant). The event interrupt line is high exactly while the queue holds words,
  after any sequence of register accesses, key, mouse and generic events.
\<close>

theorem events_irq_in_step:
  assumes "events_dev_init kc c = Some s" and "device_run events_step s False xs = Inr (s', l)"
  shows "l \<longleftrightarrow> ev_first s' \<noteq> ev_last s'"
proof -
  have s: "events_wf s" "events_contents s = []" using assms(1) dev_init_ok [of kc c] by auto
  with events_line.run_line [OF s(1), of xs s' l] assms(2) show ?thesis
    by (simp add: contents_Nil_iff)
qed

theorem events_irq_in_step_witness:
  "\<exists>s s' l. events_dev_init [] \<lparr>hw_dPad = True, hw_trackBall = False, hw_touchScreen = True, hw_camera = False,
       hw_keyboard = True\<rparr> = Some s \<and>
     device_run events_step s False [Ev_keycode 0x266] = Inr (s', l) \<and> (l \<longleftrightarrow> ev_first s' \<noteq> ev_last s')"
  (is "\<exists>s s' l. events_dev_init [] ?c = Some s \<and> _ s s' l")
proof -
  obtain s where s: "events_dev_init [] ?c = Some s" "events_wf s" using dev_init_ok by blast
  obtain s' es where "enqueue_event s EV_KEY (0x266 AND 0x1ff) 1 = Inr (s', es)"
    using enqueue_refines [OF s(2)] by blast
  then have r: "device_run events_step s False [Ev_keycode 0x266] = Inr (s', line_after False es)"
    by (simp add: events_put_keycode_def)
  from events_irq_in_step [OF s(1) r] s(1) r show ?thesis by blast
qed

text \<open>
  Remark (functional). Initialisation succeeds for every hardware configuration and the
  capability bits say exactly what the configuration has: the listed keys, one bit for each, the
  keyboard ranges, the axes and the event classes, and nothing else.
\<close>

theorem events_capabilities:
  "\<exists>s. events_dev_init kc c = Some s \<and>
     (\<forall>n. advertises s 1 n \<longleftrightarrow>
        n \<in> {102, 158, 231, 107, 229, 115, 114, 230, 116, 217} \<or>
        hw_dPad c \<and> n \<in> {108, 103, 105, 106, 232} \<or> hw_trackBall c \<and> n = 0x110 \<or>
        hw_touchScreen c \<and> n = 0x14a \<or> hw_camera c \<and> n = 212 \<or>
        hw_keyboard c \<and> (n \<in> {1..0xff} \<or> n \<in> {0x160..0x1ff})) \<and>
     (\<forall>n. advertises s 0 n \<longleftrightarrow>
        n = 1 \<or> hw_trackBall c \<and> n = 2 \<or> hw_touchScreen c \<and> n = 3 \<or> hw_keyboard c \<and> n = 5)"
proof -
  obtain s where s: "events_dev_init kc c = Some s"
      "\<forall>t n. advertises s t n \<longleftrightarrow> (\<exists>(u, l, h) \<in> set (init_bits c). u = t \<and> l \<le> n \<and> n \<le> h)"
    using dev_init_ok by metis
  have key: "advertises s 1 n \<longleftrightarrow>
      n \<in> {102, 158, 231, 107, 229, 115, 114, 230, 116, 217} \<or>
      hw_dPad c \<and> n \<in> {108, 103, 105, 106, 232} \<or> hw_trackBall c \<and> n = 0x110 \<or>
      hw_touchScreen c \<and> n = 0x14a \<or> hw_camera c \<and> n = 212 \<or>
      hw_keyboard c \<and> (n \<in> {1..0xff} \<or> n \<in> {0x160..0x1ff})" for n
    unfolding s(2) [rule_format] init_bits_def bex_append bex_if by (simp add: point_range)
  have syn: "advertises s 0 n \<longleftrightarrow>
      n = 1 \<or> hw_trackBall c \<and> n = 2 \<or> hw_touchScreen c \<and> n = 3 \<or> hw_keyboard c \<and> n = 5" for n
    unfolding s(2) [rule_format] init_bits_def bex_append bex_if by (simp add: point_range)
  show ?thesis using s(1) key syn by blast
qed

text \<open>
  Remark (error). Reading a page: inside the length the device reports, the bytes of the
  capability array are returned; one past it, \<open>offset > page_len\<close> lets the access through and the
  read is outside the array.
\<close>

theorem events_page_read:
  assumes "events_wf s" and "t < 32" and "ev_page s = PAGE_EVBITS + int t" and "bits = ev_bits s ! t"
  shows "get_page_len s = Inr (int (length bits)) \<and>
    (\<forall>i < length bits. get_page_data s (int i) = Inr (ucast (bits ! i))) \<and>
    get_page_data s (int (length bits)) = Inl Undefined \<and>
    (\<forall>i > length bits. get_page_data s (int i) = Inr 0)"
  using assms
  by (auto simp: get_page_len_def get_page_data_def Let_def event_regs rd_def events_wf_def)

theorem events_page_read_witness:
  "get_page_data ((events_state_zero [])\<lparr>ev_page := 0x10000\<rparr>) 0 = Inl Undefined"
  using events_page_read [of "(events_state_zero [])\<lparr>ev_page := 0x10000\<rparr>" 0 "[]"]
  by (simp add: events_state_zero_def events_wf_def event_regs)

end
