(* ===== verification/Charpipe.thy ===== *)
theory Charpipe
  imports Cbuffer Chr_Sink
begin

text \<open>
  Character pipes and buffered character drivers (\<open>charpipe.c\<close>). A half of a pipe queues what is
  written to it in a list of 512-byte circular buffers and hands it to the handlers of its peer;
  a \<open>CharBuffer\<close> does the same in front of a driver that may accept only part of a write.

  The list of buffers of a half, from \<open>bip_first\<close> to \<open>bip_last\<close>, is a list of \<open>cbuffer\<close>; the global list
  of recycled buffers is a list of byte arrays that the operations pass on. Handlers are called
  with the state of the front end behind them and do not write to the half that calls them.
\<close>

section \<open>Buffers\<close>

definition BIP_BUFFER_SIZE :: nat where "BIP_BUFFER_SIZE = 512"

text \<open>A fresh \<open>malloc\<close> has arbitrary contents, which are never read; here they are zero.\<close>

definition bip_buffer_alloc :: "byte list list \<Rightarrow> cbuffer \<times> byte list list" where
  "bip_buffer_alloc free =
     (case free of
        [] \<Rightarrow> (cbuffer_reset (replicate BIP_BUFFER_SIZE 0) (int BIP_BUFFER_SIZE), [])
      | b # free \<Rightarrow> (cbuffer_reset b (int BIP_BUFFER_SIZE), free))"

definition bip_buffer_free :: "cbuffer \<Rightarrow> byte list list \<Rightarrow> byte list list" where
  "bip_buffer_free bip free = buff bip # free"

fun free_bips :: "cbuffer list \<Rightarrow> byte list list \<Rightarrow> byte list list" where
  "free_bips [] free = free"
| "free_bips (bip # bips) free = free_bips bips (bip_buffer_free bip free)"

text \<open>
  The loop that queues the rest of a write, shared by both kinds of driver: \<open>bip\<close> is the last
  buffer; the result is that buffer and the ones allocated after it.
\<close>

partial_function (option) queue_loop ::
  "byte list list \<Rightarrow> cbuffer \<Rightarrow> byte list \<Rightarrow> (cbuffer list \<times> byte list list) option" where
  "queue_loop free bip data =
     Option.bind (cbuffer_write bip data (int (length data))) (\<lambda>(bip, len2).
       let data = drop (nat len2) data
       in if data = [] then Some ([bip], free)
          else
            (let (next, free) = bip_buffer_alloc free
             in Option.bind (queue_loop free next data) (\<lambda>(bips, free). Some (bip # bips, free))))"

definition queue_data ::
  "byte list list \<Rightarrow> cbuffer list \<Rightarrow> byte list \<Rightarrow> (cbuffer list \<times> byte list list) option" where
  "queue_data free bips data =
     (let (bip, free) = (if bips = [] then bip_buffer_alloc free else (last bips, free))
      in map_option (\<lambda>(new, free). (butlast bips @ new, free)) (queue_loop free bip data))"

section \<open>Pipes\<close>

text \<open>
  A half: its queue, whether \<open>peer\<close> is set, and whether a \<open>chr_can_read\<close> handler is installed on the
  half itself.
\<close>

record charpipe_half =
  bips :: "cbuffer list"
  peer :: bool
  own_can_read :: bool

definition charpipehalf_init :: "charpipe_half \<Rightarrow> charpipe_half" where
  "charpipehalf_init ph = ph\<lparr>bips := [], peer := True\<rparr>"

definition charpipehalf_close :: "charpipe_half \<Rightarrow> byte list list \<Rightarrow> charpipe_half \<times> byte list list" where
  "charpipehalf_close ph free = (ph\<lparr>bips := [], peer := False\<rparr>, free_bips (bips ph) free)"

text \<open>
  The direct part of a write: how much the peer takes now, the front end's state and the calls it
  made. A negative size handed to the handler is \<open>Undefined\<close>.
\<close>

function direct_loop ::
  "'s chr_handlers \<Rightarrow> 's \<Rightarrow> byte list \<Rightarrow> ('s \<times> effect list \<times> byte list) outcome" where
  "direct_loop h s data =
     (if data = [] then Inr (s, [], [])
      else if chr_can_read h \<noteq> None \<and> qemu_chr_can_read h s = 0 then Inr (s, [], data)
      else
        (let len = int (length data);
             size = (if chr_can_read h \<noteq> None
                     then (let size = qemu_chr_can_read h s in if size > len then len else size)
                     else len)
         in if size < 0 then Inl Undefined
            else
              (case qemu_chr_read h s (take (nat size) data) of
                 Inl e \<Rightarrow> Inl e
               | Inr (s, es) \<Rightarrow>
                   map_sum id (\<lambda>(s, es', data). (s, es @ es', data))
                     (direct_loop h s (drop (nat size) data)))))"
  by pat_completeness auto
termination
  by (relation "measure (\<lambda>(h, s, data). length data)") (auto simp: Let_def split: if_splits)

declare direct_loop.simps [simp del]

text \<open>
  The result of an operation: the return value, the half, the recycled buffers, the front end's
  state and the calls it made. \<open>None\<close> is a loop that does not end.
\<close>

type_synonym 's pipe_result = "(int \<times> charpipe_half \<times> byte list list \<times> 's \<times> effect list) outcome option"

definition charpipehalf_write ::
  "'s chr_handlers \<Rightarrow> 's \<Rightarrow> byte list list \<Rightarrow> charpipe_half \<Rightarrow> byte list \<Rightarrow> 's pipe_result" where
  "charpipehalf_write h s free ph data =
     (case (if bips ph = [] \<and> peer ph \<and> chr_read h \<noteq> None then direct_loop h s data
            else Inr (s, [], data)) of
        Inl e \<Rightarrow> Some (Inl e)
      | Inr (s, es, rest) \<Rightarrow>
          if rest = [] then Some (Inr (int (length data), ph, free, s, es))
          else map_option (\<lambda>(bs, free). Inr (int (length data), ph\<lparr>bips := bs\<rparr>, free, s, es))
                 (queue_data free (bips ph) rest))"

text \<open>
  How much one pass of the poll hands over: what the buffer holds, at most what the peer can read
  when the half has a \<open>chr_can_read\<close> handler itself, and at most the contiguous part.
\<close>

definition poll_size :: "bool \<Rightarrow> int \<Rightarrow> int \<Rightarrow> int \<Rightarrow> int" where
  "poll_size own sz sz2 avail =
     (let sz = (if own \<and> sz > sz2 then sz2 else sz)
      in if avail > sz then sz else avail)"

partial_function (option) poll_loop ::
  "'s chr_handlers \<Rightarrow> bool \<Rightarrow> 's \<Rightarrow> byte list list \<Rightarrow> cbuffer list \<Rightarrow>
   (cbuffer list \<times> byte list list \<times> 's \<times> effect list) outcome option" where
  "poll_loop h own s free bs =
     (case bs of
        [] \<Rightarrow> Some (Inr ([], free, s, []))
      | bip # rest \<Rightarrow>
          if cbuffer_read_avail bip = 0 then poll_loop h own s (bip_buffer_free bip free) rest
          else if own \<and> qemu_chr_can_read h s = 0 then Some (Inr (bs, free, s, []))
          else
            (let (avail, rp) = cbuffer_read_peek bip;
                 avail = poll_size own (cbuffer_read_avail bip) (qemu_chr_can_read h s) avail
             in if avail < 0 \<or> rp < 0 \<or> rp + avail > int (length (buff bip)) then Some (Inl Undefined)
                else
                  (case qemu_chr_read h s (take (nat avail) (drop (nat rp) (buff bip))) of
                     Inl e \<Rightarrow> Some (Inl e)
                   | Inr (s, es) \<Rightarrow>
                       Option.bind (poll_loop h own s free (cbuffer_read_step bip avail # rest))
                         (\<lambda>r. Some (map_sum id (\<lambda>(bs, free, s, es'). (bs, free, s, es @ es')) r)))))"

definition charpipehalf_poll ::
  "'s chr_handlers \<Rightarrow> 's \<Rightarrow> byte list list \<Rightarrow> charpipe_half \<Rightarrow> 's pipe_result" where
  "charpipehalf_poll h s free ph =
     (if \<not> peer ph \<or> chr_read h = None then Some (Inr (0, ph, free, s, []))
      else map_option (map_sum id (\<lambda>(bs, free, s, es). (0, ph\<lparr>bips := bs\<rparr>, free, s, es)))
             (poll_loop h (own_can_read ph) s free (bips ph)))"

text \<open>
  Both halves of a pipe, with the handlers and the front end's state installed on each; polling
  one half calls the handlers of the other.
\<close>

record 's pipe_end =
  pe_half :: charpipe_half
  pe_handlers :: "'s chr_handlers"
  pe_state :: 's

type_synonym 's charpipe = "'s pipe_end \<times> 's pipe_end"

definition MAX_CHAR_PIPES :: nat where "MAX_CHAR_PIPES = 8"
definition MAX_CHAR_BUFFERS :: nat where "MAX_CHAR_BUFFERS = 8"

fun find_free :: "('a \<Rightarrow> bool) \<Rightarrow> 'a list \<Rightarrow> nat \<Rightarrow> nat" where
  "find_free is_free [] n = n"
| "find_free is_free (x # xs) n = (if is_free x then n else find_free is_free xs (Suc n))"

definition qemu_chr_open_charpipe :: "'s charpipe list \<Rightarrow> int \<times> nat option \<times> 's charpipe list" where
  "qemu_chr_open_charpipe cps =
     (let i = find_free (\<lambda>(a, b). \<not> peer (pe_half a) \<and> \<not> peer (pe_half b)) cps 0
      in if i = length cps then (-1, None, cps)
         else
           (let (a, b) = cps ! i
            in (0, Some i, cps[i := (a\<lparr>pe_half := charpipehalf_init (pe_half a)\<rparr>,
                                     b\<lparr>pe_half := charpipehalf_init (pe_half b)\<rparr>)])))"

definition poll_end ::
  "byte list list \<Rightarrow> 's pipe_end \<Rightarrow> 's pipe_end \<Rightarrow> ('s pipe_end \<times> 's pipe_end \<times> byte list list) outcome option" where
  "poll_end free a b =
     (if peer (pe_half a) then
        map_option (map_sum id (\<lambda>(n, ph, free, s, es). (a\<lparr>pe_half := ph\<rparr>, b\<lparr>pe_state := s\<rparr>, free)))
          (charpipehalf_poll (pe_handlers b) (pe_state b) free (pe_half a))
      else Some (Inr (a, b, free)))"

fun poll_pipes :: "byte list list \<Rightarrow> 's charpipe list \<Rightarrow> ('s charpipe list \<times> byte list list) outcome option" where
  "poll_pipes free [] = Some (Inr ([], free))"
| "poll_pipes free ((a, b) # cps) =
     Option.bind (poll_end free a b) (\<lambda>r. case r of Inl e \<Rightarrow> Some (Inl e) | Inr (a, b, free) \<Rightarrow>
       Option.bind (poll_end free b a) (\<lambda>r. case r of Inl e \<Rightarrow> Some (Inl e) | Inr (b, a, free) \<Rightarrow>
         map_option (map_sum id (\<lambda>(cps, free). ((a, b) # cps, free))) (poll_pipes free cps)))"

section \<open>Buffered drivers\<close>

text \<open>
  \<open>CharBuffer\<close>: the queue and whether \<open>endpoint\<close> is set. The endpoint's \<open>chr_write\<close>, called through
  \<open>qemu_chr_write\<close>, is the argument \<open>wrt\<close>: from the endpoint's state and the data to the number of
  bytes it says it took and its new state.
\<close>

record charbuffer =
  cb_bips :: "cbuffer list"
  endpoint :: bool

definition charbuffer_init :: "charbuffer \<Rightarrow> charbuffer" where
  "charbuffer_init c = c\<lparr>cb_bips := [], endpoint := True\<rparr>"

text \<open>The endpoint is forgotten before the test that would close it, so it is never closed.\<close>

definition charbuffer_close :: "charbuffer \<Rightarrow> byte list list \<Rightarrow> charbuffer \<times> byte list list \<times> bool" where
  "charbuffer_close c free =
     (let free = free_bips (cb_bips c) free;
          c = c\<lparr>cb_bips := [], endpoint := False\<rparr>
      in if endpoint c then (c\<lparr>endpoint := False\<rparr>, free, True) else (c, free, False))"

definition clamp :: "int \<Rightarrow> int \<Rightarrow> int" where
  "clamp n len = (if n < 0 then 0 else if n > len then len else n)"

definition charbuffer_write ::
  "('e \<Rightarrow> byte list \<Rightarrow> int \<times> 'e) \<Rightarrow> 'e \<Rightarrow> byte list list \<Rightarrow> charbuffer \<Rightarrow> byte list \<Rightarrow>
   (int \<times> charbuffer \<times> byte list list \<times> 'e) option" where
  "charbuffer_write wrt e free c data =
     (let (n, e) = (if cb_bips c = [] \<and> endpoint c
                    then (let (n, e) = wrt e data in (clamp n (int (length data)), e)) else (0, e));
          rest = drop (nat n) data
      in if rest = [] then Some (n, c, free, e)
         else map_option (\<lambda>(bs, free). (int (length data), c\<lparr>cb_bips := bs\<rparr>, free, e))
                (queue_data free (cb_bips c) rest))"

partial_function (option) charbuffer_poll_loop ::
  "('e \<Rightarrow> byte list \<Rightarrow> int \<times> 'e) \<Rightarrow> 'e \<Rightarrow> byte list list \<Rightarrow> cbuffer list \<Rightarrow> (cbuffer list \<times> byte list list \<times> 'e) option" where
  "charbuffer_poll_loop wrt e free bs =
     (case bs of
        [] \<Rightarrow> Some ([], free, e)
      | bip # rest \<Rightarrow>
          (let (avail, rp) = cbuffer_read_peek bip
           in if avail = 0 then charbuffer_poll_loop wrt e (bip_buffer_free bip free) rest
              else if avail < 0 \<or> rp < 0 \<or> rp + avail > int (length (buff bip)) then None
              else
                (let (n, e) = wrt e (take (nat avail) (drop (nat rp) (buff bip)));
                     n = clamp n avail;
                     bip = cbuffer_read_step bip n
                 in if n < avail then Some (bip # rest, free, e)
                    else charbuffer_poll_loop wrt e free (bip # rest))))"

definition charbuffer_poll ::
  "('e \<Rightarrow> byte list \<Rightarrow> int \<times> 'e) \<Rightarrow> 'e \<Rightarrow> byte list list \<Rightarrow> charbuffer \<Rightarrow> (charbuffer \<times> byte list list \<times> 'e) option" where
  "charbuffer_poll wrt e free c =
     (if \<not> endpoint c then Some (c, free, e)
      else map_option (\<lambda>(bs, free, e). (c\<lparr>cb_bips := bs\<rparr>, free, e)) (charbuffer_poll_loop wrt e free (cb_bips c)))"

text \<open>Opening: the endpoint the caller gives is not \<open>NULL\<close>.\<close>

definition qemu_chr_open_buffer :: "charbuffer list \<Rightarrow> nat option \<times> charbuffer list" where
  "qemu_chr_open_buffer cs =
     (let i = find_free (\<lambda>c. \<not> endpoint c) cs 0
      in if i = length cs then (None, cs) else (Some i, cs[i := charbuffer_init (cs ! i)]))"

fun poll_buffers ::
  "('e \<Rightarrow> byte list \<Rightarrow> int \<times> 'e) \<Rightarrow> byte list list \<Rightarrow> (charbuffer \<times> 'e) list \<Rightarrow>
   ((charbuffer \<times> 'e) list \<times> byte list list) option" where
  "poll_buffers wrt free [] = Some ([], free)"
| "poll_buffers wrt free ((c, e) # cs) =
     Option.bind (if endpoint c then charbuffer_poll wrt e free c else Some (c, free, e)) (\<lambda>(c, free, e).
       map_option (\<lambda>(cs, free). ((c, e) # cs, free)) (poll_buffers wrt free cs))"

definition charpipe_poll ::
  "('e \<Rightarrow> byte list \<Rightarrow> int \<times> 'e) \<Rightarrow> byte list list \<Rightarrow> 's charpipe list \<Rightarrow> (charbuffer \<times> 'e) list \<Rightarrow>
   ('s charpipe list \<times> (charbuffer \<times> 'e) list \<times> byte list list) outcome option" where
  "charpipe_poll wrt free cps cs =
     Option.bind (poll_pipes free cps) (\<lambda>r. case r of Inl e \<Rightarrow> Some (Inl e) | Inr (cps, free) \<Rightarrow>
       map_option (\<lambda>(cs, free). Inr (cps, cs, free)) (poll_buffers wrt free cs))"

section \<open>Queues of buffers\<close>

definition bip_ok :: "cbuffer \<Rightarrow> bool" where
  "bip_ok b \<longleftrightarrow> cbuffer_wf b \<and> csize b = int BIP_BUFFER_SIZE"

definition free_ok :: "byte list list \<Rightarrow> bool" where
  "free_ok free \<longleftrightarrow> list_all (\<lambda>b. length b = BIP_BUFFER_SIZE) free"

definition queued :: "cbuffer list \<Rightarrow> byte list" where
  "queued bs = concat (map cbuffer_contents bs)"

lemma queued_simps [simp]: "queued [] = []" "queued (b # bs) = cbuffer_contents b @ queued bs"
  "queued (xs @ ys) = queued xs @ queued ys"
  by (simp_all add: queued_def)

lemma bip_ok_buff: "bip_ok b \<Longrightarrow> length (buff b) = BIP_BUFFER_SIZE"
  using cbuffer_wfD(5) [of b] by (simp add: bip_ok_def)

lemma bip_alloc_ok:
  assumes "free_ok free"
  obtains b free' where "bip_buffer_alloc free = (b, free')" "bip_ok b" "free_ok free'"
    "cbuffer_contents b = []" "ccount b = 0"
proof -
  have "bip_ok (cbuffer_reset a (int BIP_BUFFER_SIZE)) \<and> cbuffer_contents (cbuffer_reset a (int BIP_BUFFER_SIZE)) = [] \<and>
      ccount (cbuffer_reset a (int BIP_BUFFER_SIZE)) = 0" if "length a = BIP_BUFFER_SIZE" for a
    using that by (simp add: bip_ok_def cbuffer_reset_def cbuffer_wf_def cbuffer_assert_def cbuffer_contents_def
        BIP_BUFFER_SIZE_def)
  then show thesis
    using that assms by (cases free) (auto simp: bip_buffer_alloc_def free_ok_def)
qed

lemma bip_free_ok: "bip_ok b \<Longrightarrow> free_ok free \<Longrightarrow> free_ok (bip_buffer_free b free)"
  by (simp add: free_ok_def bip_buffer_free_def bip_ok_buff)

lemma free_bips_ok: "list_all bip_ok bs \<Longrightarrow> free_ok free \<Longrightarrow> free_ok (free_bips bs free)"
  by (induction bs arbitrary: free) (auto intro: bip_free_ok)

text \<open>The queue loop ends, keeps the buffers consistent and appends the data.\<close>

lemma queue_loop_ok:
  assumes "free_ok free" and "bip_ok bip"
  shows "\<exists>bs free'. queue_loop free bip data = Some (bs, free') \<and> list_all bip_ok bs \<and> bs \<noteq> [] \<and> free_ok free' \<and>
    queued bs = cbuffer_contents bip @ data"
  using assms
proof (induction "2 * length data + (if ccount bip = csize bip then 1 else 0)" arbitrary: free bip data
    rule: less_induct)
  case less
  define n where "n = min (int (length data)) (csize bip - ccount bip)"
  have wf: "cbuffer_wf bip" using less.prems(2) by (simp add: bip_ok_def)
  have "max 0 n = n" using cbuffer_wfD(4) [OF wf] by (simp add: n_def)
  then obtain b where w: "cbuffer_write bip data (int (length data)) = Some (b, n)" "cbuffer_wf b"
    "csize b = csize bip" "cbuffer_contents b = cbuffer_contents bip @ take (nat n) data"
    using cbuffer_write_loop_correct [OF wf order_refl, of data] unfolding n_def [symmetric] cbuffer_write_def
    by auto
  have b: "bip_ok b" using w(2,3) less.prems(2) by (simp add: bip_ok_def)
  show ?case
  proof (cases "drop (nat n) data = []")
    case True
    then have "take (nat n) data = data" by simp
    then show ?thesis using w b less.prems(1) True by (subst queue_loop.simps) (simp add: Let_def)
  next
    case False
    obtain c free' where c: "bip_buffer_alloc free = (c, free')" "bip_ok c" "free_ok free'"
      "cbuffer_contents c = []" "ccount c = 0" using bip_alloc_ok [OF less.prems(1)] by blast
    have nf: "ccount c \<noteq> csize c" using c(2,5) by (simp add: bip_ok_def BIP_BUFFER_SIZE_def)
    have D: "ccount bip \<le> csize bip" by (rule cbuffer_wfD(4) [OF wf])
    have "2 * length (drop (nat n) data) + (if ccount c = csize c then 1 else 0) <
        2 * length data + (if ccount bip = csize bip then 1 else 0)"
      using nf D False by (auto simp: n_def)
    from less.hyps [OF this c(3,2)] obtain bs free'' where
      "queue_loop free' c (drop (nat n) data) = Some (bs, free'')" "list_all bip_ok bs" "bs \<noteq> []" "free_ok free''"
      "queued bs = drop (nat n) data" using c(4) by auto
    then show ?thesis using w b c(1) False by (subst queue_loop.simps) (simp add: Let_def)
  qed
qed

lemma queue_data_ok:
  assumes "free_ok free" and "list_all bip_ok bs"
  shows "\<exists>bs' free'. queue_data free bs data = Some (bs', free') \<and> list_all bip_ok bs' \<and> free_ok free' \<and>
    queued bs' = queued bs @ data"
proof (cases "bs = []")
  case True
  obtain c free' where c: "bip_buffer_alloc free = (c, free')" "bip_ok c" "free_ok free'"
    "cbuffer_contents c = []" using bip_alloc_ok [OF assms(1)] by blast
  show ?thesis using queue_loop_ok [OF c(3,2), of data] c(1,4) True by (auto simp: queue_data_def)
next
  case False
  then obtain xs b where bs: "bs = xs @ [b]" by (metis rev_exhaust)
  then have "bip_ok b" "list_all bip_ok xs" using assms(2) by simp_all
  then show ?thesis using queue_loop_ok [OF assms(1), of b data] bs by (auto simp: queue_data_def)
qed

section \<open>Delivery to a front end that keeps the sink contract\<close>

definition sink_handlers :: "('s \<Rightarrow> nat) \<Rightarrow> ('s \<Rightarrow> byte list \<Rightarrow> ('s \<times> effect list) outcome) \<Rightarrow> 's chr_handlers" where
  "sink_handlers can receive = \<lparr>chr_can_read = Some (\<lambda>s. int (can s)), chr_read = Some receive\<rparr>"

lemma sink_handlers_simps [simp]:
  "chr_can_read (sink_handlers can receive) = Some (\<lambda>s. int (can s))"
  "chr_read (sink_handlers can receive) = Some receive"
  "qemu_chr_can_read (sink_handlers can receive) s = int (can s)"
  "qemu_chr_read (sink_handlers can receive) s bs = receive s bs"
  by (simp_all add: sink_handlers_def qemu_chr_can_read_def qemu_chr_read_def)

text \<open>Operations on one half, and the data written to it.\<close>

datatype pipe_op = Pipe_write "byte list" | Pipe_poll

fun pipe_run ::
  "'s chr_handlers \<Rightarrow> 's \<Rightarrow> byte list list \<Rightarrow> charpipe_half \<Rightarrow> pipe_op list \<Rightarrow>
   (charpipe_half \<times> byte list list \<times> 's) outcome option" where
  "pipe_run h s free ph [] = Some (Inr (ph, free, s))"
| "pipe_run h s free ph (x # xs) =
     Option.bind (case x of Pipe_write data \<Rightarrow> charpipehalf_write h s free ph data
                  | Pipe_poll \<Rightarrow> charpipehalf_poll h s free ph)
       (\<lambda>r. case r of Inl e \<Rightarrow> Some (Inl e) | Inr (n, ph, free, s, es) \<Rightarrow> pipe_run h s free ph xs)"

fun pipe_written :: "pipe_op list \<Rightarrow> byte list" where
  "pipe_written [] = []"
| "pipe_written (Pipe_write data # xs) = data @ pipe_written xs"
| "pipe_written (Pipe_poll # xs) = pipe_written xs"

definition half_ok :: "charpipe_half \<Rightarrow> bool" where
  "half_ok ph \<longleftrightarrow> list_all bip_ok (bips ph) \<and> peer ph \<and> own_can_read ph"

context chr_sink
begin

abbreviation "h \<equiv> sink_handlers can_receive receive"

lemma direct_loop_ok:
  "wf s \<Longrightarrow> \<exists>s' es rest. direct_loop h s data = Inr (s', es, rest) \<and> wf s' \<and>
     buffered s' @ rest = buffered s @ data \<and> (rest = [] \<or> can_receive s' = 0)"
proof (induction "length data" arbitrary: s data rule: less_induct)
  case less
  show ?case
  proof (cases "data = [] \<or> can_receive s = 0")
    case True
    then show ?thesis using less.prems by (subst direct_loop.simps) auto
  next
    case False
    define n where "n = min (length data) (can_receive s)"
    obtain s1 es where r: "receive s (take n data) = Inr (s1, es)" "wf s1" "buffered s1 = buffered s @ take n data"
      using receive_ok [OF less.prems, of "take n data"] by (auto simp: n_def)
    have "length (drop n data) < length data" using False by (auto simp: n_def)
    from less.hyps [OF this r(2)] obtain s2 es2 rest where
      i: "direct_loop h s1 (drop n data) = Inr (s2, es2, rest)" "wf s2"
      "buffered s2 @ rest = buffered s1 @ drop n data" "rest = [] \<or> can_receive s2 = 0" by blast
    have "(if int (can_receive s) > int (length data) then int (length data) else int (can_receive s)) = int n"
      by (simp add: n_def)
    then have "direct_loop h s data = Inr (s2, es @ es2, rest)"
      using False r(1) i(1) by (subst direct_loop.simps) (simp add: Let_def)
    then show ?thesis using i r(3) by simp
  qed
qed

lemma charpipehalf_write_ok:
  assumes "wf s" and "free_ok free" and "half_ok ph"
  shows "\<exists>ph' free' s' es. charpipehalf_write h s free ph data = Some (Inr (int (length data), ph', free', s', es)) \<and>
    wf s' \<and> free_ok free' \<and> half_ok ph' \<and> buffered s' @ queued (bips ph') = buffered s @ queued (bips ph) @ data"
proof -
  obtain s1 es rest where d: "(if bips ph = [] \<and> peer ph \<and> chr_read h \<noteq> None then direct_loop h s data
            else Inr (s, [], data)) = Inr (s1, es, rest)" "wf s1"
    "buffered s1 @ queued (bips ph) @ rest = buffered s @ queued (bips ph) @ data"
    using direct_loop_ok [OF assms(1), of data] assms(1) by (cases "bips ph = [] \<and> peer ph") auto
  obtain bs free' where q: "queue_data free (bips ph) rest = Some (bs, free')" "list_all bip_ok bs" "free_ok free'"
    "queued bs = queued (bips ph) @ rest"
    using queue_data_ok [OF assms(2), of "bips ph" rest] assms(3) by (auto simp: half_ok_def)
  show ?thesis
  proof (cases "rest = []")
    case True
    then show ?thesis using d assms(2,3) by (auto simp: charpipehalf_write_def)
  next
    case False
    then show ?thesis using d q assms(3) by (auto simp: charpipehalf_write_def half_ok_def)
  qed
qed

lemma poll_loop_ok:
  assumes "wf s" and "free_ok free" and "list_all bip_ok bs"
  shows "\<exists>bs' free' s' es. poll_loop h True s free bs = Some (Inr (bs', free', s', es)) \<and> wf s' \<and> free_ok free' \<and>
    list_all bip_ok bs' \<and> buffered s' @ queued bs' = buffered s @ queued bs \<and> (bs' = [] \<or> can_receive s' = 0)"
  using assms
proof (induction "length (queued bs) + length bs" arbitrary: s free bs rule: less_induct)
  case less
  show ?case
  proof (cases bs)
    case Nil
    then show ?thesis using less.prems by (subst poll_loop.simps) simp
  next
    case (Cons b rest)
    have wf: "cbuffer_wf b" and ok: "bip_ok b" "list_all bip_ok rest" using less.prems(3) Cons by (auto simp: bip_ok_def)
    note D = cbuffer_wfD [OF wf]
    consider (empty) "ccount b = 0" | (stop) "ccount b \<noteq> 0" "can_receive s = 0"
      | (go) "ccount b > 0" "can_receive s > 0" using D(3) by linarith
    then show ?thesis
    proof cases
      case empty
      have "queued bs = queued rest" using Cons empty by (simp flip: length_0_conv)
      then have "length (queued rest) + length rest < length (queued bs) + length bs" using Cons by simp
      from less.hyps [OF this less.prems(1) bip_free_ok [OF ok(1) less.prems(2)] ok(2)]
      show ?thesis using Cons empty \<open>queued bs = queued rest\<close>
        by (subst poll_loop.simps) (simp add: cbuffer_read_avail_def)
    next
      case stop
      then show ?thesis using less.prems Cons by (subst poll_loop.simps) (auto simp: cbuffer_read_avail_def)
    next
      case go
      obtain av rp where pk: "cbuffer_read_peek b = (av, rp)" by fastforce
      define n where "n = poll_size True (ccount b) (int (can_receive s)) av"
      have av: "0 < av" "av \<le> ccount b" using pk D go by (auto simp: cbuffer_read_peek_def Let_def split: if_splits)
      have n: "0 < n" "n \<le> av" "n \<le> int (can_receive s)" using av go by (auto simp: n_def poll_size_def Let_def)
      note S = cbuffer_read_peek_step [OF wf pk less_imp_le [OF n(1)] n(2)]
      have "length (take (nat n) (cbuffer_contents b)) \<le> can_receive s" using n(3) by (simp add: min_def nat_le_iff)
      from receive_ok [OF less.prems(1) this] obtain s1 es where
        r: "receive s (take (nat n) (cbuffer_contents b)) = Inr (s1, es)" "wf s1"
        "buffered s1 = buffered s @ take (nat n) (cbuffer_contents b)" by blast
      let ?b = "cbuffer_read_step b n"
      have ok': "list_all bip_ok (?b # rest)" using S(5,6) ok by (simp add: bip_ok_def)
      have "length (queued (?b # rest)) + length (?b # rest) < length (queued bs) + length bs"
        using Cons S(7) n av by simp
      from less.hyps [OF this r(2) less.prems(2) ok'] obtain bs' free' s' es' where
        i: "poll_loop h True s1 free (?b # rest) = Some (Inr (bs', free', s', es'))" "wf s'" "free_ok free'"
        "list_all bip_ok bs'" "buffered s' @ queued bs' = buffered s1 @ queued (?b # rest)"
        "bs' = [] \<or> can_receive s' = 0" by blast
      have "poll_loop h True s free bs = Some (Inr (bs', free', s', es @ es'))"
        using Cons go n S(1-3) r(1) i(1) pk
        by (subst poll_loop.simps) (simp add: cbuffer_read_avail_def flip: n_def)
      moreover have "buffered s' @ queued bs' = buffered s @ queued bs"
        using i(5) r(3) S(7) Cons by simp
      ultimately show ?thesis using i by blast
    qed
  qed
qed

lemma charpipehalf_poll_ok:
  assumes "wf s" and "free_ok free" and "half_ok ph"
  shows "\<exists>ph' free' s' es. charpipehalf_poll h s free ph = Some (Inr (0, ph', free', s', es)) \<and>
    wf s' \<and> free_ok free' \<and> half_ok ph' \<and> buffered s' @ queued (bips ph') = buffered s @ queued (bips ph) \<and>
    (bips ph' = [] \<or> can_receive s' = 0)"
  using poll_loop_ok [OF assms(1,2), of "bips ph"] assms(3)
  by (auto simp: charpipehalf_poll_def half_ok_def)

lemma pipe_run_ok:
  assumes "wf s" and "free_ok free" and "half_ok ph"
  shows "\<exists>ph' free' s'. pipe_run h s free ph xs = Some (Inr (ph', free', s')) \<and> wf s' \<and> free_ok free' \<and> half_ok ph' \<and>
    buffered s' @ queued (bips ph') = buffered s @ queued (bips ph) @ pipe_written xs"
  using assms
proof (induction xs arbitrary: s free ph)
  case (Cons x xs)
  obtain n ph1 free1 s1 es where st: "(case x of Pipe_write data \<Rightarrow> charpipehalf_write h s free ph data
      | Pipe_poll \<Rightarrow> charpipehalf_poll h s free ph) = Some (Inr (n, ph1, free1, s1, es))"
    and ok: "wf s1" "free_ok free1" "half_ok ph1"
    and stream: "buffered s1 @ queued (bips ph1) = buffered s @ queued (bips ph) @ pipe_written [x]"
    using charpipehalf_write_ok [OF Cons.prems] charpipehalf_poll_ok [OF Cons.prems]
    by (cases x) (simp, metis, simp, metis)
  from Cons.IH [OF ok] obtain ph2 free2 s2 where "pipe_run h s1 free1 ph1 xs = Some (Inr (ph2, free2, s2))"
    "wf s2" "free_ok free2" "half_ok ph2"
    "buffered s2 @ queued (bips ph2) = buffered s1 @ queued (bips ph1) @ pipe_written xs" by blast
  moreover have "pipe_written (x # xs) = pipe_written [x] @ pipe_written xs" by (cases x) simp_all
  ultimately show ?case using st stream by simp
qed simp

end

section \<open>Buffered drivers keep the stream\<close>

text \<open>
  What a buffered driver relies on: the endpoint's \<open>chr_write\<close> takes a prefix of the data, as long as
  the count it returns says (a negative count is none, too large a count is all).
\<close>

definition takes_prefix :: "('e \<Rightarrow> byte list) \<Rightarrow> ('e \<Rightarrow> byte list \<Rightarrow> int \<times> 'e) \<Rightarrow> bool" where
  "takes_prefix taken wrt \<longleftrightarrow>
     (\<forall>e bs n e'. wrt e bs = (n, e') \<longrightarrow> taken e' = taken e @ take (nat (clamp n (int (length bs)))) bs)"

lemma takes_prefixD:
  "takes_prefix taken wrt \<Longrightarrow> wrt e bs = (n, e') \<Longrightarrow>
   taken e' = taken e @ take (nat (clamp n (int (length bs)))) bs"
  by (simp add: takes_prefix_def)

lemma clamp_range: "0 \<le> len \<Longrightarrow> 0 \<le> clamp n len \<and> clamp n len \<le> len"
  by (simp add: clamp_def)

lemma read_peek_avail:
  assumes "cbuffer_wf b" and "cbuffer_read_peek b = (av, rp)"
  shows "0 \<le> av" "av \<le> ccount b" "av = 0 \<longleftrightarrow> ccount b = 0"
  using assms cbuffer_wfD [OF assms(1)] by (auto simp: cbuffer_read_peek_def Let_def split: if_splits)

lemma charbuffer_poll_loop_ok:
  assumes w: "takes_prefix taken wrt" and "free_ok free" and "list_all bip_ok bs"
  shows "\<exists>bs' free' e'. charbuffer_poll_loop wrt e free bs = Some (bs', free', e') \<and> free_ok free' \<and>
    list_all bip_ok bs' \<and> taken e' @ queued bs' = taken e @ queued bs"
  using assms(2,3)
proof (induction "length (queued bs) + length bs" arbitrary: e free bs rule: less_induct)
  case less
  show ?case
  proof (cases bs)
    case Nil
    then show ?thesis using less.prems by (subst charbuffer_poll_loop.simps) simp
  next
    case (Cons b rest)
    have wf: "cbuffer_wf b" and ok: "bip_ok b" "list_all bip_ok rest" using less.prems(2) Cons by (auto simp: bip_ok_def)
    obtain av rp where pk: "cbuffer_read_peek b = (av, rp)" by fastforce
    note A = read_peek_avail [OF wf pk]
    show ?thesis
    proof (cases "av = 0")
      case True
      then have "queued bs = queued rest" using A Cons by (simp flip: length_0_conv)
      then have "length (queued rest) + length rest < length (queued bs) + length bs" using Cons by simp
      from less.hyps [OF this bip_free_ok [OF ok(1) less.prems(1)] ok(2), of e]
      show ?thesis using Cons True pk \<open>queued bs = queued rest\<close>
        by (subst charbuffer_poll_loop.simps) simp
    next
      case False
      note P = cbuffer_read_peek_step [OF wf pk A(1) order_refl]
      obtain m e1 where e1: "wrt e (take (nat av) (cbuffer_contents b)) = (m, e1)" by fastforce
      define n where "n = clamp m av"
      have n: "0 \<le> n" "n \<le> av" using clamp_range [OF A(1), of m] by (simp_all add: n_def)
      have len: "int (length (take (nat av) (cbuffer_contents b))) = av"
        using A(1,2) by (simp add: min_absorb2 nat_mono)
      have t1: "taken e1 = taken e @ take (nat n) (cbuffer_contents b)"
        using takes_prefixD [OF w e1] n by (simp add: len n_def [symmetric] min_def del: length_take)
      note S = cbuffer_read_peek_step [OF wf pk n]
      let ?b = "cbuffer_read_step b n"
      have ok': "list_all bip_ok (?b # rest)" using S(5,6) ok by (simp add: bip_ok_def)
      have str: "taken e1 @ queued (?b # rest) = taken e @ queued bs" using t1 S(7) Cons by simp
      have unfold: "charbuffer_poll_loop wrt e free bs =
          (if n < av then Some (?b # rest, free, e1) else charbuffer_poll_loop wrt e1 free (?b # rest))"
        using Cons False A(1) P(1-3) e1 pk by (subst charbuffer_poll_loop.simps) (simp add: n_def [symmetric])
      show ?thesis
      proof (cases "n < av")
        case True
        then show ?thesis using unfold ok' str less.prems(1) by auto
      next
        case full: False
        then have "0 < n" using False A(1) by simp
        then have "length (queued (?b # rest)) + length (?b # rest) < length (queued bs) + length bs"
          using Cons S(7) n A(2) by simp
        from less.hyps [OF this less.prems(1) ok', of e1] show ?thesis using unfold full str by auto
      qed
    qed
  qed
qed

fun buffer_run ::
  "('e \<Rightarrow> byte list \<Rightarrow> int \<times> 'e) \<Rightarrow> 'e \<Rightarrow> byte list list \<Rightarrow> charbuffer \<Rightarrow> pipe_op list \<Rightarrow>
   (charbuffer \<times> byte list list \<times> 'e) option" where
  "buffer_run wrt e free c [] = Some (c, free, e)"
| "buffer_run wrt e free c (Pipe_write data # xs) =
     Option.bind (charbuffer_write wrt e free c data) (\<lambda>(n, c, free, e). buffer_run wrt e free c xs)"
| "buffer_run wrt e free c (Pipe_poll # xs) =
     Option.bind (charbuffer_poll wrt e free c) (\<lambda>(c, free, e). buffer_run wrt e free c xs)"

lemma charbuffer_write_ok:
  assumes w: "takes_prefix taken wrt" and "free_ok free" and "list_all bip_ok (cb_bips c)"
  shows "\<exists>n c' free' e'. charbuffer_write wrt e free c data = Some (n, c', free', e') \<and> n = int (length data) \<and>
    free_ok free' \<and> list_all bip_ok (cb_bips c') \<and> taken e' @ queued (cb_bips c') = taken e @ queued (cb_bips c) @ data"
proof -
  obtain n e1 where d: "(if cb_bips c = [] \<and> endpoint c
                    then (let (n, e) = wrt e data in (clamp n (int (length data)), e)) else (0, e)) = (n, e1)"
    "0 \<le> n" "n \<le> int (length data)" "taken e1 @ queued (cb_bips c) = taken e @ queued (cb_bips c) @ take (nat n) data"
  proof (cases "cb_bips c = [] \<and> endpoint c")
    case True
    obtain m e1 where "wrt e data = (m, e1)" by fastforce
    then show thesis using that [of "clamp m (int (length data))" e1] True takes_prefixD [OF w]
        clamp_range [of "int (length data)" m] by simp
  qed (use that [of 0 e] in auto)
  obtain bs free' where q: "queue_data free (cb_bips c) (drop (nat n) data) = Some (bs, free')" "list_all bip_ok bs"
    "free_ok free'" "queued bs = queued (cb_bips c) @ drop (nat n) data"
    using queue_data_ok [OF assms(2,3)] by blast
  show ?thesis
  proof (cases "drop (nat n) data = []")
    case True
    then have "n = int (length data)" "take (nat n) data = data" using d(2,3) by simp_all
    moreover have "charbuffer_write wrt e free c data = Some (n, c, free, e1)"
      using d(1) True by (simp add: charbuffer_write_def)
    ultimately show ?thesis using d(4) assms(2,3) by simp
  next
    case False
    have "taken e1 @ queued bs = (taken e @ queued (cb_bips c) @ take (nat n) data) @ drop (nat n) data"
      using q(4) d(4) by (metis append.assoc)
    moreover have "charbuffer_write wrt e free c data = Some (int (length data), c\<lparr>cb_bips := bs\<rparr>, free', e1)"
      using d(1) q(1) False by (simp add: charbuffer_write_def)
    ultimately show ?thesis using q(2,3) by simp
  qed
qed

lemma buffer_run_ok:
  assumes w: "takes_prefix taken wrt" and "free_ok free" and "list_all bip_ok (cb_bips c)"
  shows "\<exists>c' free' e'. buffer_run wrt e free c xs = Some (c', free', e') \<and>
    taken e' @ queued (cb_bips c') = taken e @ queued (cb_bips c) @ pipe_written xs"
  using assms(2,3)
proof (induction xs arbitrary: e free c)
  case (Cons x xs)
  show ?case
  proof (cases x)
    case (Pipe_write data)
    obtain n c1 free1 e1 where s: "charbuffer_write wrt e free c data = Some (n, c1, free1, e1)" "free_ok free1"
      "list_all bip_ok (cb_bips c1)" "taken e1 @ queued (cb_bips c1) = taken e @ queued (cb_bips c) @ data"
      using charbuffer_write_ok [OF w Cons.prems] by blast
    from Cons.IH [OF s(2,3), of e1] s(1,4) Pipe_write show ?thesis by (auto simp flip: append_assoc)
  next
    case Pipe_poll
    have "\<exists>c1 free1 e1. charbuffer_poll wrt e free c = Some (c1, free1, e1) \<and> free_ok free1 \<and>
        list_all bip_ok (cb_bips c1) \<and> taken e1 @ queued (cb_bips c1) = taken e @ queued (cb_bips c)"
      using charbuffer_poll_loop_ok [OF w Cons.prems, of e] Cons.prems by (auto simp: charbuffer_poll_def)
    then obtain c1 free1 e1 where s: "charbuffer_poll wrt e free c = Some (c1, free1, e1)" "free_ok free1"
      "list_all bip_ok (cb_bips c1)" "taken e1 @ queued (cb_bips c1) = taken e @ queued (cb_bips c)" by blast
    from Cons.IH [OF s(2,3), of e1] s(1,4) Pipe_poll show ?thesis by (auto simp flip: append_assoc)
  qed
qed simp

text \<open>
  Property C17 (refinement). A buffered driver is a lossless queue in front of its endpoint: whatever
  is written and however little the endpoint takes at a time, every operation returns, and what
  the endpoint has taken followed by what is queued is what was written, in order.
\<close>

theorem charbuffer_stream:
  assumes "takes_prefix taken wrt" and "free_ok free"
  shows "\<exists>c' free' e'. buffer_run wrt e free (charbuffer_init c) xs = Some (c', free', e') \<and>
    taken e' @ queued (cb_bips c') = taken e @ pipe_written xs"
  using buffer_run_ok [OF assms, of "charbuffer_init c" e xs] by (simp add: charbuffer_init_def)

theorem charbuffer_stream_witness:
  "\<exists>c' free' e'. buffer_run (\<lambda>e bs. (3, e @ take 3 bs)) [] [] (charbuffer_init \<lparr>cb_bips = [], endpoint = False\<rparr>)
       [Pipe_write [1, 2, 3, 4, 5], Pipe_poll] = Some (c', free', e') \<and>
     e' @ queued (cb_bips c') = [1, 2, 3, 4, 5]"
proof -
  have "takes_prefix (\<lambda>e :: byte list. e) (\<lambda>e bs. (3, e @ take 3 bs))"
    by (auto simp: takes_prefix_def clamp_def)
  from charbuffer_stream [OF this, of "[]" "[]" "\<lparr>cb_bips = [], endpoint = False\<rparr>"
      "[Pipe_write [1, 2, 3, 4, 5], Pipe_poll]"]
  show ?thesis by (simp add: free_ok_def del: buffer_run.simps)
qed

section \<open>Opening\<close>

lemma find_free_spec:
  "find_free P xs n \<le> n + length xs \<and>
   (if find_free P xs n = n + length xs then \<forall>x \<in> set xs. \<not> P x
    else P (xs ! (find_free P xs n - n)) \<and> n \<le> find_free P xs n)"
proof (induction xs arbitrary: n)
  case (Cons x xs)
  have "Suc n \<le> k \<Longrightarrow> (x # xs) ! (k - n) = xs ! (k - Suc n)" for k by (simp add: nth_Cons')
  then show ?case using Cons [of "Suc n"] by (auto split: if_splits)
qed simp

text \<open>
  Remark (functional). Opening a pipe takes one that is not in use, resets both its halves and
  leaves the other pipes alone; it fails exactly when all are in use.
\<close>

theorem open_charpipe_fresh:
  "case qemu_chr_open_charpipe cps of
     (r, None, cps') \<Rightarrow> r = -1 \<and> cps' = cps \<and> (\<forall>(a, b) \<in> set cps. peer (pe_half a) \<or> peer (pe_half b))
   | (r, Some i, cps') \<Rightarrow> r = 0 \<and> i < length cps \<and> \<not> peer (pe_half (fst (cps ! i))) \<and>
       bips (pe_half (fst (cps' ! i))) = [] \<and> bips (pe_half (snd (cps' ! i))) = [] \<and>
       (\<forall>j. j \<noteq> i \<longrightarrow> cps' ! j = cps ! j)"
proof -
  let ?P = "\<lambda>(a, b). \<not> peer (pe_half a) \<and> \<not> peer (pe_half b)"
  show ?thesis
    using find_free_spec [of ?P cps 0]
    by (auto simp: qemu_chr_open_charpipe_def Let_def charpipehalf_init_def split: prod.splits if_splits)
qed

end
