(* ===== verification/Gsm_Adn.thy ===== *)
theory Gsm_Adn
  imports Gsm_Text
begin

unbundle bit_operations_syntax

text \<open>
  The last part of \<open>telephony/gsm.c\<close>: dial numbers in BCD and the abbreviated dialling records of the
  SIM card. \<open>None\<close> is an access outside an array.
\<close>

section \<open>Dial numbers\<close>

definition dial_chars :: "byte list" where
  "dial_chars = [48, 49, 50, 51, 52, 53, 54, 55, 56, 57, 42, 35, 44, 78]"

text \<open>
  The loop of \<open>gsm_bcdnum_to_ascii\<close> at the low (\<open>hi = False\<close>) or high nibble of the current byte. The
  source never changes \<open>count\<close> in the loop.
\<close>

function bcdnum_to_ascii_loop :: "byte list \<Rightarrow> int \<Rightarrow> bool \<Rightarrow> byte list option" where
  "bcdnum_to_ascii_loop bcd count hi =
     (if count > 0 then
        (case bcd of
           [] \<Rightarrow> None
         | b # rest \<Rightarrow>
             (let c = drop_bit (if hi then 4 else 0) (uint b) AND 0xf
              in if c = 15 \<and> count = 1 then Some []
                 else map_option (Cons (dial_chars ! nat (if c \<ge> 14 then 0 else c)))
                        (if hi then bcdnum_to_ascii_loop rest count False
                         else bcdnum_to_ascii_loop bcd count True)))
      else Some [])"
  by auto
termination
  by (relation "measure (\<lambda>(bcd, count, hi). 2 * length bcd - (if hi then 1 else 0))") auto

declare bcdnum_to_ascii_loop.simps [simp del]

definition gsm_bcdnum_to_ascii :: "byte list \<Rightarrow> int \<Rightarrow> byte list option" where
  "gsm_bcdnum_to_ascii bcd count = bcdnum_to_ascii_loop bcd count False"

definition dial_digit :: "byte \<Rightarrow> int" where
  "dial_digit b =
     (let c = uint b
      in if c = 42 then 10 else if c = 35 then 11 else if c = 44 then 12 else if c = 78 then 13
         else if in_range (c - 48) 10 then c - 48 else -1)"

text \<open>
  \<open>gsm_bcdnum_from_ascii\<close> into an array \<open>dst\<close>: the return value and the array after it.
\<close>

fun bcdnum_from_ascii_loop :: "byte list \<Rightarrow> int \<Rightarrow> int \<Rightarrow> byte list \<Rightarrow> (int \<times> byte list) option" where
  "bcdnum_from_ascii_loop [] result phase dst =
     (if odd result then map_option (\<lambda>d. (result, d)) (wr dst (result div 2) (to_byte (phase OR 0xf0)))
      else Some (result, dst))"
| "bcdnum_from_ascii_loop (ch # ascii) result phase dst =
     (let c = dial_digit ch
      in if c < 0 then Some (-1, dst)
         else
           (let phase = push_bit 4 phase OR c;
                result = result + 1
            in if phase AND 0x100 \<noteq> 0
               then Option.bind (wr dst (result div 2) (to_byte phase)) (bcdnum_from_ascii_loop ascii result 1)
               else bcdnum_from_ascii_loop ascii result phase dst))"

definition gsm_bcdnum_from_ascii :: "byte list \<Rightarrow> byte list \<Rightarrow> (int \<times> byte list) option" where
  "gsm_bcdnum_from_ascii ascii dst = bcdnum_from_ascii_loop ascii 0 1 dst"

section \<open>Abbreviated dialling records\<close>

text \<open>Trailing \<open>0xff\<close> bytes are dropped.\<close>

fun strip_ff :: "byte list \<Rightarrow> byte list" where
  "strip_ff [] = []"
| "strip_ff (b # bs) = (let r = strip_ff bs in if r = [] \<and> b = 0xff then [] else b # r)"

text \<open>The loop over the mixed encodings: half-page characters relative to \<open>base\<close> and GSM runs.\<close>

function alpha_loop :: "int \<Rightarrow> byte list \<Rightarrow> byte list option" where
  "alpha_loop base [] = Some []"
| "alpha_loop base (b # alpha) =
     (let c = uint b
      in if c \<ge> 0x80 then map_option (append (utf8_write (base + (c AND 0x7f)))) (alpha_loop base alpha)
         else
           (let run = takeWhile (\<lambda>x. uint x < 128) (b # alpha)
            in Option.bind (utf8_from_gsm8 run (int (length run))) (\<lambda>out.
                 map_option (append out) (alpha_loop base (dropWhile (\<lambda>x. uint x < 128) (b # alpha))))))"
  by pat_completeness auto
termination
  by (relation "measure (\<lambda>(base, bs). length bs)") (auto simp: length_dropWhile_le less_Suc_eq_le)

declare alpha_loop.simps(2) [simp del]

definition sim_adn_alpha_to_utf8 :: "byte list \<Rightarrow> byte list option" where
  "sim_adn_alpha_to_utf8 alpha =
     (case strip_ff alpha of
        [] \<Rightarrow> Some []
      | a0 # rest \<Rightarrow>
          if a0 = 0x80 then ucs2_to_utf8 rest (length rest div 2)
          else if a0 = 0x81 \<and> length rest \<ge> 2 then
            (let len = uint (rest ! 0); base = push_bit 7 (uint (rest ! 1)); body = drop 2 rest
             in alpha_loop base (take (nat len) body))
          else if a0 = 0x82 \<and> length rest \<ge> 3 then
            (let len = uint (rest ! 0);
                 base = push_bit 8 (uint (rest ! 1)) OR uint (rest ! 2); body = drop 3 rest
             in alpha_loop base (take (nat len) body))
          else utf8_from_gsm8 (a0 # rest) (int (length (a0 # rest))))"

record sim_adn_record =
  adn_alpha :: "byte list"
  adn_number :: "byte list"
  ext_record :: byte

definition ADN_FOOTER_SIZE :: nat where "ADN_FOOTER_SIZE = 14"

text \<open>
  \<open>sim_adn_record_from_bytes\<close>. \<open>alpha\<close> and \<open>number\<close> are the zero-terminated strings in the record's
  arrays of 61 and 21 bytes; a number that does not fit its array is \<open>None\<close>.
\<close>

definition sim_adn_record_from_bytes ::
  "sim_adn_record \<Rightarrow> byte list \<Rightarrow> (int \<times> sim_adn_record) option" where
  "sim_adn_record_from_bytes rec data =
     (let rec = rec\<lparr>adn_alpha := [], adn_number := [], ext_record := 0xff\<rparr>;
          len = length data
      in if len < ADN_FOOTER_SIZE then Some (-1, rec)
         else
           (let footer = drop (len - ADN_FOOTER_SIZE) data;
                num_len = uint (footer ! 0);
                ton = uint (footer ! 1);
                finish = (\<lambda>rec.
                  if num_len > 11 then Some (-1, rec)
                  else if ton \<noteq> 0x81 \<and> ton \<noteq> 0x91 then Some (-1, rec)
                  else
                    Option.bind (gsm_bcdnum_to_ascii (drop 2 footer) (num_len * 2)) (\<lambda>digits.
                      let number = (if ton = 0x91 then 43 # digits else digits)
                      in if length number > 20 then None else Some (0, rec\<lparr>adn_number := number\<rparr>)))
            in if len > ADN_FOOTER_SIZE then
                 Option.bind (sim_adn_alpha_to_utf8 (take (len - ADN_FOOTER_SIZE) data)) (\<lambda>alpha.
                   if length alpha > 60 then Some (-1, rec) else finish (rec\<lparr>adn_alpha := alpha\<rparr>))
               else finish rec))"

text \<open>
  \<open>sim_adn_record_to_bytes\<close> stores only the length byte of the footer; the rest is marked to do in the
  source. The argument is the array of \<open>datalen\<close> bytes.
\<close>

definition sim_adn_record_to_bytes :: "sim_adn_record \<Rightarrow> byte list \<Rightarrow> (int \<times> byte list) option" where
  "sim_adn_record_to_bytes rec data =
     (let number = adn_number rec;
          number = (if number \<noteq> [] \<and> hd number = 43 then tl number else number)
      in map_option (\<lambda>d. (0, d))
           (wr data (int (length data) - int ADN_FOOTER_SIZE) (of_nat ((length number + 1) div 2 + 1))))"

section \<open>Properties\<close>

lemma bcdnum_runs_off: "count \<ge> 2 \<Longrightarrow> bcdnum_to_ascii_loop bcd count hi = None"
proof (induction bcd count hi rule: bcdnum_to_ascii_loop.induct)
  case (1 bcd count hi)
  then show ?case
    by (subst bcdnum_to_ascii_loop.simps) (cases bcd; cases hi; simp add: Let_def)
qed

text \<open>
  Remark (error). \<open>gsm_bcdnum_to_ascii\<close> never decrements its digit count, so for two or more
  digits it never stops at the end of the number: on every array it runs past the end. For no digits
  it returns the empty string.
\<close>

theorem bcdnum_to_ascii_overruns:
  "gsm_bcdnum_to_ascii bcd 0 = Some [] \<and> (count \<ge> 2 \<longrightarrow> gsm_bcdnum_to_ascii bcd count = None)"
  by (simp add: gsm_bcdnum_to_ascii_def bcdnum_runs_off bcdnum_to_ascii_loop.simps [of bcd 0])

theorem bcdnum_to_ascii_overruns_witness: "gsm_bcdnum_to_ascii [0x21, 0x43] 4 = None"
  using bcdnum_to_ascii_overruns [of "[0x21, 0x43]" 4] by simp

text \<open>
  Remark (safety). A dialling record is only ever accepted with an empty number: a record
  accepted with result 0 has number length 0, its alpha tag is at most 60 bytes, so that it fits its
  array with the terminating zero, and its number is at most a plus sign.
\<close>

theorem adn_accepts_only_empty:
  assumes "sim_adn_record_from_bytes rec data = Some (0, rec')"
  shows "data ! (length data - 14) = 0 \<and> length (adn_alpha rec') \<le> 60 \<and> adn_number rec' \<in> {[], [43]} \<and>
    ext_record rec' = 0xff"
proof -
  have n: "\<And>k. k \<noteq> 0 \<Longrightarrow> gsm_bcdnum_to_ascii bcd (uint (k :: byte) * 2) = None" for bcd
  proof -
    fix k :: byte assume "k \<noteq> 0"
    then have "uint k > 0" by (simp add: word_neq_0_conv word_less_def)
    then show "gsm_bcdnum_to_ascii bcd (uint k * 2) = None"
      by (simp add: gsm_bcdnum_to_ascii_def bcdnum_runs_off)
  qed
  have z: "gsm_bcdnum_to_ascii bcd 0 = Some []" for bcd
    by (simp add: gsm_bcdnum_to_ascii_def bcdnum_to_ascii_loop.simps [of bcd 0])
  show ?thesis
    using assms n [of "data ! (length data - 14)"] z
    by (cases "data ! (length data - 14) = 0")
      (auto simp: sim_adn_record_from_bytes_def ADN_FOOTER_SIZE_def Let_def bind_eq_Some_conv
        split: if_splits)
qed

theorem adn_accepts_only_empty_witness:
  "\<exists>rec'. sim_adn_record_from_bytes \<lparr>adn_alpha = [], adn_number = [], ext_record = 0\<rparr>
      ([0x41, 0x42, 0x00, 0x91] @ replicate 12 0xff) = Some (0, rec') \<and> adn_number rec' \<in> {[], [43]}"
proof -
  have r: "sim_adn_record_from_bytes \<lparr>adn_alpha = [], adn_number = [], ext_record = 0\<rparr>
      ([0x41, 0x42, 0x00, 0x91] @ replicate 12 0xff) =
      Some (0, \<lparr>adn_alpha = [0x41, 0x42], adn_number = [43], ext_record = 0xff\<rparr>)"
    by code_simp
  from adn_accepts_only_empty [OF r] r show ?thesis by blast
qed

end
