(* ===== verification/Spec2Isabelle.thy ===== *)
theory Spec2Isabelle
  imports Hw_Sensors Modem_Driver Goldfish_Nand_Add Goldfish_Mmc Boot_Properties Cbuffer Savevm Goldfish_Board Goldfish_Battery Goldfish_Switch Goldfish_Timer Goldfish_Events
    Goldfish_Tty Charpipe Gsm_Adn Sms_Receiver Sim_Card Qemud_Mux
begin

text \<open>
  A verification of the core of the Android emulator (a fork of QEMU): the board devices of the
  \<open>goldfish\<close> machine with the interrupt, timer and snapshot services they use, the character pipes and
  the \<open>qemud\<close> multiplexer through which the guest talks to the emulator's services, two of these services, the flash
  devices and the memory card, and the
  telephony code: the modem with its AT commands and calls, text messages and the SIM card.

  The program. The guest's loads and stores reach the register handlers of the devices
  (\<open>hw/goldfish_*.c\<close>). A handler changes the device's state and calls \<open>goldfish_device_set_irq\<close>
  (\<open>hw/goldfish_device.c\<close>), which drives a line of the interrupt controller
  (\<open>hw/goldfish_interrupt.c\<close>), which drives the CPU's inputs (\<open>hw/arm_pic.c\<close>, \<open>exec.c\<close>). Host events
  enter through callbacks: received characters, keys and mouse motion, battery properties,
  expired timers. Every device can be written to a snapshot stream (\<open>savevm.c\<close>) and read back. One
  serial port of the guest ends in a character pipe (\<open>charpipe.c\<close>) whose other end is read by the
  \<open>qemud\<close> multiplexer (\<open>android/hw-qemud.c\<close>): it takes the packets apart, and passes their payloads to the
  clients of named services, which may ask for framed messages. Another end is read by the modem driver
  (\<open>telephony/modem_driver.c\<close>), which cuts the bytes into lines for the AT command interpreter (\<open>telephony/android_modem.c\<close>).
  The modem keeps the calls, whose progress is driven by timers, asks the SIM card (\<open>telephony/sim_card.c\<close>), and
  exchanges text messages with the guest as hexadecimal PDUs (\<open>telephony/sms.c\<close>) whose text is packed in the GSM
  alphabet (\<open>telephony/gsm.c\<close>). The flash devices (\<open>hw/goldfish_nand.c\<close>) move data between guest memory and image
  files of the host.

  The theories.
  \<^item> \<open>Emu_Prelude\<close>: word types, bounded array access, \<open>memcpy\<close>, rings. \<open>Fifo_Spec\<close>: contracts of byte
    queues. \<open>Goldfish_Base\<close>: the outcome of a handler (a result, \<open>cpu_abort\<close> or undefined behaviour),
    its effects, and the contract of a level-triggered device.
  \<^item> \<open>Cbuffer\<close> (\<open>cbuffer.c\<close>, \<open>cbuffer.h\<close>): the circular buffer; it refines a bounded queue of bytes.
  \<^item> \<open>Goldfish_Int\<close> (\<open>hw/goldfish_interrupt.c\<close>, \<open>hw/arm_pic.c\<close>): the controller as a step relation, its
    invariant on all reachable states, the number register.
  \<^item> \<open>Goldfish_Bus\<close> (\<open>hw/goldfish_device.c\<close>): registration, placement of devices, enumeration.
    \<open>Goldfish_Board\<close>: a device wired to the controller, as a locale that the devices interpret.
  \<^item> \<open>Goldfish_Battery\<close>, \<open>Goldfish_Switch\<close>, \<open>Goldfish_Tty\<close>, \<open>Goldfish_Events\<close>, \<open>Goldfish_Timer\<close>: the devices,
    one record and one definition for each handler; that the line follows the state, what the
    buffers keep, what a snapshot restores.
  \<^item> \<open>Qemu_Timer\<close> (\<open>vl-android.c\<close>): the sorted list of timers, the expiry loop, \<open>muldiv64\<close>.
  \<^item> \<open>Savevm\<close> (\<open>savevm.c\<close>): the buffered file, its integers, the structure writer.
  \<^item> \<open>Chr_Sink\<close> (\<open>qemu-char.c\<close>): the handlers of a reader and their contract, which the serial port
    interprets. \<open>Charpipe\<close> (\<open>charpipe.c\<close>): pipes and buffered drivers, which lose no byte of a
    reader that keeps it.
  \<^item> \<open>Stream_Reader\<close>: the contract of a reader that may be handed its bytes in any pieces, interpreted by
    \<open>Qemud_Serial\<close> (packets on the serial port) and \<open>Qemud_Client\<close> (frames on a channel). \<open>Qemud_Mux\<close>: services,
    clients and the control channel as a step relation with its invariant, and the delivery of a
    message from the serial port to its service. All three are \<open>android/hw-qemud.c\<close>.
  \<^item> \<open>Gsm_Hex\<close>, \<open>Gsm_Text\<close>, \<open>Gsm_Adn\<close> (\<open>telephony/gsm.c\<close>): hexadecimal, ropes, alphabets, dialling records.
  \<^item> \<open>Sms_Text\<close>, \<open>Sms_Pdu\<close>, \<open>Sms_Receiver\<close> (\<open>telephony/sms.c\<close>): message strings, addresses, PDUs, reassembly.
    \<open>Sim_Card\<close> (\<open>telephony/sim_card.c\<close>): the PIN and PUK states, which follow the rule of three attempts, and the
    canned answers to file commands.
  \<^item> \<open>Modem_Calls\<close> (\<open>telephony/android_modem.c\<close>, \<open>telephony/sysdeps_qemu.c\<close>, the numbers of \<open>telephony/remote_call.c\<close>):
    the table of calls and its timers as a step relation, its invariant, \<open>+CHLD\<close> as a refinement of list operations.
    \<open>Modem_State\<close>: \<open>AModemRec\<close> and the handlers on radio, registration, operators, SIM and data contexts.
    \<open>Modem_At\<close>: the table of commands, its search, \<open>amodem_send\<close> with every handler, text messages to other
    emulators; a locale for the lines sent to a service, with what they cannot do to the SIM card. \<open>Modem_Wf\<close>: the
    modem as a step relation, its invariant on all reachable states, the size of its answers.
  \<^item> \<open>Modem_Driver\<close> (\<open>telephony/modem_driver.c\<close>): the bytes of the serial port as lines; a session of bytes is the
    session of its lines.
  \<^item> \<open>Goldfish_Nand\<close> (\<open>hw/goldfish_nand.c\<close>): the registers and commands of the flash devices, which refine an array of
    bytes; \<open>Goldfish_Nand_Add\<close>: the arguments of \<open>-nand\<close>, and adding a device with its image. \<open>Goldfish_Mmc\<close>
    (\<open>hw/goldfish_mmc.c\<close>, \<open>bdrv_read\<close> and \<open>bdrv_write\<close> of \<open>block.c\<close>): the card reader, whose transfers are those of an array of bytes, the
    capacity it reports, and its line.
  \<^item> \<open>Boot_Properties\<close> (\<open>android/boot-properties.c\<close>): a service over the multiplexer, from the command line to the
    packets; \<open>Hw_Sensors\<close> (\<open>android/hw-sensors.c\<close>): the messages and the timer of a client of the sensors service.
  This theory composes them: device, controller and CPU; device and snapshot file; pipe and
  serial port; text, PDU and hexadecimal.

  How code becomes definitions. A \<open>struct\<close> is a record, with the fields that carry state; pointers
  into an array are indices and linked lists are lists in link order. Unsigned C integers whose
  wrap-around matters are words of their width, \<open>int\<close> values are integers (reduced to 32 bits where
  the code can leave the range). A read or write outside an array, an undefined shift or the use
  of memory that was never written is an error value (\<open>None\<close> or \<open>Undefined\<close>), so a theorem that gives
  a result also shows that these do not happen. A handler returns the calls it makes as a list of
  effects, in order. Loops are recursive functions with a termination proof, or
  \<open>partial_function (option)\<close> where the loop may run forever (\<open>cbuffer_write\<close>, \<open>qemu_put_buffer\<close>,
  \<open>qemu_run_timers\<close>, the polls of \<open>charpipe.c\<close>, the readers of \<open>android/hw-qemud.c\<close>, the search of
  \<open>smspdu_get_user_data_ref\<close>); for these the theorems prove that a
  result is reached, or that none is. There is no fuel.

  Parameters. The values of the clocks, guest memory, the write callback of a switch, timer
  callbacks, the write function behind a buffered character driver, the callbacks of \<open>qemud\<close> services,
  the storage behind a snapshot file, the broken-down local time, what other emulators answer to a call or a message,
  the printed sensor readings, and the files that the host opens are arguments of the definitions that use them. An image file is its bytes, the
  position, and the size up to which the host can store it. Memory allocation succeeds.

  Not modelled. Instruction translation and execution, the user-mode network stack, block
  drivers, the framebuffer, sound and trace devices, the host user interface and console, the connections
  to other emulators, and the other services behind \<open>qemud\<close>: they are third-party code, host I/O, or, for the translation of
  instructions, a subject of its own. Save and load handlers that go through
  \<open>qemu_put_struct\<close> are represented by the theorem that this function never returns.
\<close>

unbundle bit_operations_syntax

section \<open>From a device to the CPU\<close>

text \<open>
  Property C1 (invariant). The serial port, the interrupt controller and the CPU together: whatever
  the host sends, whatever the guest does with the port and however it enables and disables
  lines, the controller's level for the port's line is high exactly while received bytes wait
  and the port's interrupt is enabled, and the CPU's IRQ input is asserted exactly when an enabled
  line is high.
\<close>

theorem tty_interrupts_cpu:
  assumes "irq_count dev = 1" and "dev_irq dev < 32" and "list_all keeps_levels xs"
    and "board_run dev (tty_step mem) (goldfish_tty_add cs) (goldfish_interrupt_init 0) xs = Inr (s, pic)"
  shows "(bit (level pic) (unat (dev_irq dev)) \<longleftrightarrow> data_count s > 0 \<and> tty_ready s \<noteq> 0) \<and>
    (cpu_request pic AND CPU_INTERRUPT_HARD \<noteq> 0 \<longleftrightarrow> (\<exists>i. bit (level pic) i \<and> bit (irq_enabled pic) i))"
proof -
  have "int_wf (goldfish_interrupt_init 0)" by (rule init_wf) simp_all
  moreover have "pic_line dev (goldfish_interrupt_init 0) = tty_wants (goldfish_tty_add cs)"
    using tty_add_wf(2) by (simp add: pic_line_def goldfish_interrupt_init_def)
  ultimately have "tty_wf s \<and> int_wf pic \<and> pic_line dev pic = tty_wants s"
    using tty_board.board_in_step [OF _ tty_add_wf(1) _ _ assms(3,4)] assms(1,2) by (simp add: on_line_def)
  then show ?thesis
    by (auto simp: pic_line_def tty_wants_def int_wf_def pending_lines_def bit_and_iff)
qed

lemma tty_board_example:
  "case board_run ((test_dev ''tty'')\<lparr>dev_irq := 4\<rparr>) (tty_step (\<lambda>_. 0)) (goldfish_tty_add True)
      (goldfish_interrupt_init 0)
      [Pic_write INTERRUPT_ENABLE 4, Dev_op (Tty_mmio (Mmio_write TTY_CMD TTY_CMD_INT_ENABLE)),
       Dev_op (Tty_receive [65])] of
     Inl e \<Rightarrow> False
   | Inr (s, pic) \<Rightarrow> data_count s > 0 \<and> tty_ready s \<noteq> 0 \<and> bit (irq_enabled pic) 4"
  by code_simp

theorem tty_interrupts_cpu_witness:
  "\<exists>s pic. board_run ((test_dev ''tty'')\<lparr>dev_irq := 4\<rparr>) (tty_step (\<lambda>_. 0)) (goldfish_tty_add True)
      (goldfish_interrupt_init 0)
      [Pic_write INTERRUPT_ENABLE 4, Dev_op (Tty_mmio (Mmio_write TTY_CMD TTY_CMD_INT_ENABLE)),
       Dev_op (Tty_receive [65])] = Inr (s, pic) \<and>
     bit (level pic) 4 \<and> cpu_request pic AND CPU_INTERRUPT_HARD \<noteq> 0"
proof -
  let ?dev = "(test_dev ''tty'')\<lparr>dev_irq := 4\<rparr>"
  have dev: "irq_count ?dev = 1" "dev_irq ?dev < 32" "unat (dev_irq ?dev) = 4" by (simp_all add: test_dev_def)
  have keep: "list_all keeps_levels
      [Pic_write INTERRUPT_ENABLE 4, Dev_op (Tty_mmio (Mmio_write TTY_CMD TTY_CMD_INT_ENABLE)),
       Dev_op (Tty_receive [65])]" by (simp add: int_regs)
  from tty_board_example tty_interrupts_cpu [OF dev(1,2) keep, of "\<lambda>_. 0" True] show ?thesis
    unfolding dev(3) by (auto split: sum.splits)
qed

section \<open>From a character pipe to the serial port\<close>

text \<open>The serial port's handlers, as \<open>goldfish_tty_add\<close> installs them on the half it reads from.\<close>

definition tty_handlers :: "tty_state chr_handlers" where
  "tty_handlers = sink_handlers (\<lambda>s. unat (tty_can_receive s)) tty_receive"



text \<open>
  Remark (error). The poll asks the peer how much it can read only when the polled half has a
  \<open>chr_can_read\<close> handler of its own. Without one, a queue that holds more than the serial port has
  room for is pushed into the port beyond the end of its buffer.
\<close>

theorem charpipe_poll_overruns:
  assumes "tty_wf s" and "bip_ok b" and "cbuffer_read_peek b = (av, rp)" and "av > uint (tty_can_receive s)"
  shows "charpipehalf_poll tty_handlers s free \<lparr>bips = b # bs, peer = True, own_can_read = False\<rparr> =
    Some (Inl Undefined)"
proof -
  have wf: "cbuffer_wf b" using assms(2) by (simp add: bip_ok_def)
  note A = read_peek_avail [OF wf assms(3)]
  have av: "0 < av" using assms(4) uint_ge_0 [of "tty_can_receive s"] by linarith
  have cnt: "ccount b \<noteq> 0" using A av by auto
  note S = cbuffer_read_peek_step [OF wf assms(3) A(1) order_refl]
  have size: "poll_size False (ccount b) z av = av" for z using A(2) by (simp add: poll_size_def)
  have len: "int (length (take (nat av) (cbuffer_contents b))) = av" using A(1,2) by (simp add: min_absorb2 nat_mono)
  have "uint (tty_can_receive s) = 128 - uint (data_count s)"
    using arg_cong [OF unat_can_receive [OF assms(1)], of int] assms(1) by (simp add: tty_wf_def of_nat_diff)
  then have "tty_receive s (take (nat av) (cbuffer_contents b)) = Inl Undefined"
    using assms(1,4) len by (simp add: tty_receive_def memcpy_def tty_wf_def del: length_take)
  then show ?thesis
    using S(1-3) assms(3) av cnt
    by (simp add: charpipehalf_poll_def tty_handlers_def poll_loop.simps cbuffer_read_avail_def size)
qed

theorem charpipe_poll_overruns_witness:
  "charpipehalf_poll tty_handlers ((goldfish_tty_add True)\<lparr>data_count := 128\<rparr>) []
     \<lparr>bips = [(cbuffer_reset (replicate 512 0) 512)\<lparr>ccount := 1\<rparr>], peer = True, own_can_read = False\<rparr> =
   Some (Inl Undefined)"
proof (rule charpipe_poll_overruns)
  show "tty_wf ((goldfish_tty_add True)\<lparr>data_count := 128\<rparr>)"
    by (simp add: tty_wf_def goldfish_tty_add_def)
  show "bip_ok ((cbuffer_reset (replicate 512 0) 512)\<lparr>ccount := 1\<rparr>)"
    by (simp add: bip_ok_def cbuffer_reset_def cbuffer_wf_def cbuffer_assert_def BIP_BUFFER_SIZE_def)
  show "cbuffer_read_peek ((cbuffer_reset (replicate 512 0) 512)\<lparr>ccount := 1\<rparr>) = (1, 0)"
    by (simp add: cbuffer_read_peek_def cbuffer_reset_def)
  show "uint (tty_can_receive ((goldfish_tty_add True)\<lparr>data_count := 128\<rparr>)) < 1"
    by (simp add: tty_can_receive_def)
qed

section \<open>From a device to a snapshot file\<close>

text \<open>
  Property C25 (roundtrip). The serial port through a snapshot file: saving the port to a fresh file
  through the 32 KB buffer of \<open>savevm.c\<close>, flushing it, and loading another port from the bytes of
  the file restores the registers and the received bytes.
\<close>

theorem tty_snapshot_file:
  assumes "tty_wf s" and "tty_wf t" and "unat (tty_ready s) < 256"
  shows "\<exists>f t'. run_puts (Some file_put_buffer) (qemu_fopen_ops []) (goldfish_tty_save s) = Some f \<and>
    goldfish_tty_load t (opaque (qemu_fflush (Some file_put_buffer) f)) GOLDFISH_TTY_SAVE_VERSION =
      Inr (0, t', []) \<and>
    tty_buffered t' = tty_buffered s \<and> tty_ptr t' = tty_ptr s \<and> ptr_len t' = ptr_len s \<and>
    tty_ready t' = tty_ready s"
  using puts_on_file [of "goldfish_tty_save s"] tty_save_load [OF assms, of "[]"] by fastforce

theorem tty_snapshot_file_witness:
  "\<exists>f t'. run_puts (Some file_put_buffer) (qemu_fopen_ops []) (goldfish_tty_save (goldfish_tty_add True)) =
      Some f \<and>
    goldfish_tty_load (goldfish_tty_add False) (opaque (qemu_fflush (Some file_put_buffer) f))
      GOLDFISH_TTY_SAVE_VERSION = Inr (0, t', []) \<and> tty_buffered t' = []"
proof -
  have "unat (tty_ready (goldfish_tty_add True)) < 256" by (simp add: goldfish_tty_add_def)
  from tty_snapshot_file [OF tty_add_wf(1) tty_add_wf(1) this, of False] show ?thesis
    using tty_add_wf(3) by metis
qed

section \<open>From a text to the modem's hexadecimal PDU\<close>



end
